(* ===== verification/HPA_Prelude.thy ===== *)
theory HPA_Prelude
  imports Complex_Main "HOL-Library.Word"
begin

text \<open>
  Shared vocabulary of the development: names for the C++ integer types, the collections
  of rewrite rules the component theories extend, and generic facts on words and lists.

  A C++ unsigned integer of width \<open>w\<close> is a \<^typ>\<open>'w word\<close>, so \<open>fetch_add\<close>, \<open>fetch_sub\<close>
  and \<open>++\<close> wrap exactly as they do in the source. A \<open>double\<close> is a \<^typ>\<open>real\<close> (rounding is
  not modelled); a \<open>size_t\<close> that only counts the elements of a container is a \<^typ>\<open>nat\<close>.
\<close>

type_synonym u8 = "8 word"
type_synonym u16 = "16 word"
type_synonym u32 = "32 word"
type_synonym u64 = "64 word"

definition INT64_MAX :: int where
  "INT64_MAX = 9223372036854775807"

named_theorems hpa_defs "definitions unfolded by the component proofs"
named_theorems hpa_inv "preservation lemmas of the component invariants"

section \<open>Words\<close>

lemma unat_plus_no_wrap [simp]:
  fixes a b :: "'a::len word"
  assumes "unat a + unat b < 2 ^ LENGTH('a)"
  shows "unat (a + b) = unat a + unat b"
  using assms by (simp add: unat_word_ariths)

lemma unat_minus_le:
  fixes a b :: "'a::len word"
  assumes "b \<le> a"
  shows "unat (a - b) = unat a - unat b"
  using assms by (rule unat_sub)

lemma unat_inc_less:
  fixes a m :: "'a::len word"
  assumes "a < m"
  shows "unat (a + 1) = Suc (unat a)"
proof -
  have "unat a < unat m" using assms by (simp add: word_less_nat_alt)
  moreover have "unat m < 2 ^ LENGTH('a)" by (rule unsigned_less)
  ultimately have "unat a + 1 < 2 ^ LENGTH('a)" by linarith
  then show ?thesis
    using unat_plus_no_wrap [of a 1] by simp
qed

lemma word_inc_le:
  fixes a m :: "'a::len word"
  assumes "a < m"
  shows "a + 1 \<le> m"
  using assms by (simp add: unat_inc_less word_le_nat_alt word_less_nat_alt)

lemma unat_of_nat_less:
  assumes "n < 2 ^ LENGTH('a)"
  shows "unat (of_nat n :: 'a::len word) = n"
  using assms by (simp add: unat_of_nat)

section \<open>Lists\<close>

lemma sum_list_update_nat:
  fixes f :: "'a \<Rightarrow> nat"
  assumes "i < length xs"
  shows "sum_list (map f (xs[i := y])) + f (xs ! i) = sum_list (map f xs) + f y"
  using assms
proof (induction xs arbitrary: i)
  case Nil
  then show ?case by simp
next
  case (Cons x xs)
  then show ?case by (cases i) auto
qed

lemma list_all_update:
  assumes "\<forall>x\<in>set xs. P x" and "P y"
  shows "\<forall>x\<in>set (xs[i := y]). P x"
  using assms set_update_subset_insert [of xs i y] by auto

section \<open>Options\<close>

lemma option_eqI: "(\<And>v. x = Some v \<longleftrightarrow> y = Some v) \<Longrightarrow> x = y"
  by (metis not_Some_eq)

end
