(* ===== verification/Reservation.thy ===== *)
theory Reservation
  imports HPA_Prelude
begin

text \<open>
  \<open>include/hpactor/adt/reservation_manager.hpp\<close>: the two-phase capacity gate of a mailbox.
  A message first takes one unit of the message count, then its bytes; when the bytes do
  not fit, the unit is given back. Both counters are C++ atomics of fixed width, kept here
  as words. Each compare-exchange loop is one atomic step, so an operation is the
  composition of its phases, and \<open>gate_step\<close> lets the phases of many producers and the
  releases of the consumer interleave in any order.
\<close>

section \<open>The reservation manager\<close>

datatype reservation_result = Reserved | CountCapacity | ByteCapacity

record reservation_manager =
  reserved_messages :: u32
  queued_bytes :: u64

definition reservation_init :: reservation_manager where
  "reservation_init = \<lparr>reserved_messages = 0, queued_bytes = 0\<rparr>"

definition reserve_count :: "u32 \<Rightarrow> reservation_manager \<Rightarrow> reservation_manager option" where
  "reserve_count max_messages r =
     (if max_messages > 0 then
        (if reserved_messages r \<ge> max_messages then None
         else Some (r\<lparr>reserved_messages := reserved_messages r + 1\<rparr>))
      else Some r)"

definition reserve_bytes ::
  "u64 \<Rightarrow> u32 \<Rightarrow> u64 \<Rightarrow> reservation_manager \<Rightarrow> reservation_result \<times> reservation_manager"
where
  "reserve_bytes bytes max_messages max_bytes r =
     (if max_bytes > 0 then
        (if queued_bytes r + bytes > max_bytes then
           (ByteCapacity,
            if max_messages > 0
            then r\<lparr>reserved_messages := reserved_messages r - 1\<rparr> else r)
         else (Reserved, r\<lparr>queued_bytes := queued_bytes r + bytes\<rparr>))
      else (Reserved, r\<lparr>queued_bytes := queued_bytes r + bytes\<rparr>))"

definition try_reserve ::
  "u64 \<Rightarrow> u32 \<Rightarrow> u64 \<Rightarrow> reservation_manager \<Rightarrow> reservation_result \<times> reservation_manager"
where
  "try_reserve bytes max_messages max_bytes r =
     (case reserve_count max_messages r of
        None \<Rightarrow> (CountCapacity, r)
      | Some r1 \<Rightarrow> reserve_bytes bytes max_messages max_bytes r1)"

definition release :: "u64 \<Rightarrow> reservation_manager \<Rightarrow> reservation_manager" where
  "release bytes r =
     (let r1 = r\<lparr>reserved_messages := reserved_messages r - 1\<rparr>
      in if bytes > 0 then r1\<lparr>queued_bytes := queued_bytes r1 - bytes\<rparr> else r1)"

definition inject_count :: "u64 \<Rightarrow> reservation_manager \<Rightarrow> reservation_manager" where
  "inject_count bytes r =
     r\<lparr>reserved_messages := reserved_messages r + 1, queued_bytes := queued_bytes r + bytes\<rparr>"

lemmas reservation_defs [hpa_defs] =
  reserve_count_def reserve_bytes_def try_reserve_def release_def inject_count_def

section \<open>Exact accounting\<close>

text \<open>
  The books of the gate: \<open>held\<close> lists the byte sizes of the messages that hold a
  reservation. The counters are exact when they are the length and the sum of that list,
  as natural numbers: no counter has wrapped.
\<close>

definition byte_total :: "u64 list \<Rightarrow> nat" where
  "byte_total bs = sum_list (map unat bs)"

lemma byte_total_simps [simp]:
  "byte_total [] = 0"
  "byte_total (b # bs) = unat b + byte_total bs"
  "byte_total (xs @ ys) = byte_total xs + byte_total ys"
  by (simp_all add: byte_total_def)

lemma byte_total_remove1:
  "b \<in> set bs \<Longrightarrow> byte_total (remove1 b bs) + unat b = byte_total bs"
  by (induction bs) auto

lemma byte_total_small:
  assumes "\<forall>b\<in>set bs. unat b < 2 ^ 32"
  shows "byte_total bs \<le> length bs * 2 ^ 32"
  using assms by (induction bs) auto

lemma length_remove1_Suc: "b \<in> set bs \<Longrightarrow> Suc (length (remove1 b bs)) = length bs"
  by (induction bs) auto

definition books :: "u64 list \<Rightarrow> reservation_manager \<Rightarrow> bool" where
  "books held r \<longleftrightarrow>
     unat (reserved_messages r) = length held \<and> unat (queued_bytes r) = byte_total held"

lemma books_init: "books [] reservation_init"
  by (simp add: books_def reservation_init_def)

lemma try_reserve_books:
  assumes "books held r" and "0 < mm"
    and "unat (queued_bytes r) + unat b < 2 ^ 64"
    and "try_reserve b mm mb r = (Reserved, r')"
  shows "books (b # held) r'"
  using assms
  by (auto simp: books_def reservation_defs unat_inc_less not_le
      split: if_splits option.splits)

lemma try_reserve_rejects_unchanged:
  "try_reserve b mm mb r = (res, r') \<Longrightarrow> res \<noteq> Reserved \<Longrightarrow> r' = r"
  by (auto simp: reservation_defs split: if_splits option.splits)

lemma release_books:
  assumes "books held r" and "b \<in> set held"
  shows "books (remove1 b held) (release b r)"
proof -
  have tot: "byte_total (remove1 b held) + unat b = byte_total held"
    using assms(2) by (rule byte_total_remove1)
  have len: "Suc (length (remove1 b held)) = length held"
    using assms(2) by (rule length_remove1_Suc)
  have b_le: "b \<le> queued_bytes r"
    using assms(1) tot by (simp add: books_def word_le_nat_alt)
  have one_le: "1 \<le> reserved_messages r"
    using assms(1) len by (simp add: books_def word_le_nat_alt)
  show ?thesis
    using assms(1) tot len unat_minus_le [OF b_le] unat_minus_le [OF one_le]
    by (auto simp: books_def release_def Let_def word_gt_0)
qed

lemma inject_count_books:
  assumes "books held r" and "Suc (length held) < 2 ^ 32"
    and "byte_total held + unat b < 2 ^ 64"
  shows "books (b # held) (inject_count b r)"
  using assms by (simp add: books_def inject_count_def)

section \<open>Producers and consumer interleaved\<close>

text \<open>
  The gate under concurrency. \<open>claims\<close> are the messages whose producers have taken a
  count unit and not yet run the byte phase, \<open>held\<close> those that hold a full reservation.
  A step is one atomic phase of some thread.
\<close>

record gate =
  gate_res :: reservation_manager
  claims :: "u64 list"
  held :: "u64 list"

definition gate_init :: gate where
  "gate_init = \<lparr>gate_res = reservation_init, claims = [], held = []\<rparr>"

inductive gate_step :: "u32 \<Rightarrow> u64 \<Rightarrow> gate \<Rightarrow> gate \<Rightarrow> bool" for mm mb where
  claim: "reserve_count mm (gate_res g) = Some r \<Longrightarrow> unat b < 2 ^ 32 \<Longrightarrow>
     gate_step mm mb g (g\<lparr>gate_res := r, claims := b # claims g\<rparr>)"
| commit: "b \<in> set (claims g) \<Longrightarrow> reserve_bytes b mm mb (gate_res g) = (Reserved, r) \<Longrightarrow>
     gate_step mm mb g (g\<lparr>gate_res := r, claims := remove1 b (claims g), held := b # held g\<rparr>)"
| rollback: "b \<in> set (claims g) \<Longrightarrow> reserve_bytes b mm mb (gate_res g) = (ByteCapacity, r) \<Longrightarrow>
     gate_step mm mb g (g\<lparr>gate_res := r, claims := remove1 b (claims g)\<rparr>)"
| give_back: "b \<in> set (held g) \<Longrightarrow>
     gate_step mm mb g (g\<lparr>gate_res := release b (gate_res g), held := remove1 b (held g)\<rparr>)"

inductive_simps gate_step_simps: "gate_step mm mb g h"

inductive gate_reachable :: "u32 \<Rightarrow> u64 \<Rightarrow> gate \<Rightarrow> bool" for mm mb where
  gate_start: "gate_reachable mm mb gate_init"
| gate_next: "gate_reachable mm mb g \<Longrightarrow> gate_step mm mb g h \<Longrightarrow> gate_reachable mm mb h"

definition gate_inv :: "u32 \<Rightarrow> u64 \<Rightarrow> gate \<Rightarrow> bool" where
  "gate_inv mm mb g \<longleftrightarrow>
     unat (reserved_messages (gate_res g)) = length (claims g) + length (held g) \<and>
     length (claims g) + length (held g) \<le> unat mm \<and>
     unat (queued_bytes (gate_res g)) = byte_total (held g) \<and>
     (0 < mb \<longrightarrow> byte_total (held g) \<le> unat mb) \<and>
     (\<forall>b\<in>set (claims g) \<union> set (held g). unat b < 2 ^ 32)"

lemma gate_inv_no_byte_wrap:
  assumes "gate_inv mm mb g" and "b \<in> set (claims g)"
  shows "unat (queued_bytes (gate_res g)) + unat b < 2 ^ 64"
proof -
  have "byte_total (held g) \<le> length (held g) * 2 ^ 32"
    using assms by (intro byte_total_small) (auto simp: gate_inv_def)
  moreover have "length (held g) \<le> unat mm" "length (claims g) > 0"
      "length (claims g) + length (held g) \<le> unat mm"
    using assms by (auto simp: gate_inv_def)
  moreover have "unat mm < 2 ^ 32" using unsigned_less [of mm] by simp
  moreover have "unat b < 2 ^ 32" using assms by (auto simp: gate_inv_def)
  ultimately have "byte_total (held g) + unat b < 2 ^ 64" by simp
  then show ?thesis using assms by (simp add: gate_inv_def)
qed

lemma gate_inv_init: "gate_inv mm mb gate_init"
  by (simp add: gate_inv_def gate_init_def reservation_init_def)

lemma reserve_count_gate_inv:
  assumes "gate_inv mm mb g" "0 < mm" "reserve_count mm (gate_res g) = Some r" "unat b < 2 ^ 32"
  shows "gate_inv mm mb (g\<lparr>gate_res := r, claims := b # claims g\<rparr>)"
  using assms
  by (auto simp: gate_inv_def reserve_count_def unat_inc_less not_le word_less_nat_alt
      split: if_splits)

lemma commit_gate_inv:
  assumes "gate_inv mm mb g" "b \<in> set (claims g)"
    "reserve_bytes b mm mb (gate_res g) = (Reserved, r)"
  shows "gate_inv mm mb (g\<lparr>gate_res := r, claims := remove1 b (claims g), held := b # held g\<rparr>)"
proof -
  have no_wrap: "unat (queued_bytes (gate_res g) + b) = byte_total (held g) + unat b"
    using gate_inv_no_byte_wrap [OF assms(1,2)] assms(1) by (simp add: gate_inv_def)
  have "r = (gate_res g)\<lparr>queued_bytes := queued_bytes (gate_res g) + b\<rparr>"
    and "0 < mb \<Longrightarrow> queued_bytes (gate_res g) + b \<le> mb"
    using assms(3) by (auto simp: reserve_bytes_def not_less split: if_splits)
  then show ?thesis
    using assms(1,2) no_wrap length_remove1_Suc [OF assms(2)] 
    by (auto simp: gate_inv_def word_le_nat_alt dest: set_remove1_subset [THEN subsetD])
qed

lemma rollback_gate_inv:
  assumes "gate_inv mm mb g" "0 < mm" "b \<in> set (claims g)"
    "reserve_bytes b mm mb (gate_res g) = (ByteCapacity, r)"
  shows "gate_inv mm mb (g\<lparr>gate_res := r, claims := remove1 b (claims g)\<rparr>)"
proof -
  have len: "Suc (length (remove1 b (claims g))) = length (claims g)"
    using assms(3) by (rule length_remove1_Suc)
  have one_le: "1 \<le> reserved_messages (gate_res g)"
    using assms(1) len by (simp add: gate_inv_def word_le_nat_alt)
  have "r = (gate_res g)\<lparr>reserved_messages := reserved_messages (gate_res g) - 1\<rparr>"
    using assms(2,4) by (auto simp: reserve_bytes_def split: if_splits)
  then show ?thesis
    using assms(1) len unat_minus_le [OF one_le]
    by (auto simp: gate_inv_def dest: set_remove1_subset [THEN subsetD])
qed

lemma give_back_gate_inv:
  assumes "gate_inv mm mb g" "b \<in> set (held g)"
  shows "gate_inv mm mb (g\<lparr>gate_res := release b (gate_res g), held := remove1 b (held g)\<rparr>)"
proof -
  have tot: "byte_total (remove1 b (held g)) + unat b = byte_total (held g)"
    using assms(2) by (rule byte_total_remove1)
  have len: "Suc (length (remove1 b (held g))) = length (held g)"
    using assms(2) by (rule length_remove1_Suc)
  have b_le: "b \<le> queued_bytes (gate_res g)"
    using assms(1) tot by (simp add: gate_inv_def word_le_nat_alt)
  have one_le: "1 \<le> reserved_messages (gate_res g)"
    using assms(1) len by (simp add: gate_inv_def word_le_nat_alt)
  show ?thesis
    using assms(1) tot len unat_minus_le [OF b_le] unat_minus_le [OF one_le]
    by (auto simp: gate_inv_def release_def Let_def word_gt_0 dest: set_remove1_subset [THEN subsetD])
qed

lemma gate_step_inv:
  assumes "gate_step mm mb g h" "0 < mm" "gate_inv mm mb g"
  shows "gate_inv mm mb h"
  using assms
  by cases (auto intro: reserve_count_gate_inv commit_gate_inv rollback_gate_inv give_back_gate_inv)

lemma gate_reachable_inv: "gate_reachable mm mb g \<Longrightarrow> 0 < mm \<Longrightarrow> gate_inv mm mb g"
  by (induction rule: gate_reachable.induct) (auto intro: gate_inv_init gate_step_inv)


definition gate_demo :: gate where
  "gate_demo = \<lparr>gate_res = \<lparr>reserved_messages = 1, queued_bytes = 40\<rparr>, claims = [], held = [40]\<rparr>"

lemma gate_demo_reachable: "gate_reachable 2 100 gate_demo"
proof -
  have "gate_step 2 100 gate_init
      \<lparr>gate_res = \<lparr>reserved_messages = 1, queued_bytes = 0\<rparr>, claims = [40], held = []\<rparr>"
    using gate_step.claim [of 2 gate_init "\<lparr>reserved_messages = 1, queued_bytes = 0\<rparr>" 40 100]
    by (simp add: gate_init_def reservation_init_def reserve_count_def)
  moreover have "gate_step 2 100
      \<lparr>gate_res = \<lparr>reserved_messages = 1, queued_bytes = 0\<rparr>, claims = [40], held = []\<rparr> gate_demo"
    using gate_step.commit [of 40
        "\<lparr>gate_res = \<lparr>reserved_messages = 1, queued_bytes = 0\<rparr>, claims = [40], held = []\<rparr>"
        2 100 "\<lparr>reserved_messages = 1, queued_bytes = 40\<rparr>"]
    by (simp add: gate_demo_def reserve_bytes_def)
  ultimately show ?thesis
    by (blast intro: gate_reachable.intros)
qed


end
