(* ===== verification/Mailbox_Types.thy ===== *)
theory Mailbox_Types
  imports HPA_Prelude
begin

text \<open>
  The data the mailbox components exchange: message tags and messages
  (\<open>include/hpactor/msg/type_tag.hpp\<close>, \<open>typed_message.hpp\<close>), mailbox configuration,
  envelope metadata and enqueue results (\<open>include/hpactor/msg/enqueue_result.hpp\<close>), and
  the metric events mailboxes emit (\<open>include/hpactor/metrics/metrics_event.hpp\<close>).
\<close>

section \<open>Tags and messages\<close>

type_synonym type_tag = u32
type_synonym actor_id = u64

definition TypeTag_User :: type_tag where
  "TypeTag_User = 0x1000"

definition is_system_message :: "type_tag \<Rightarrow> bool" where
  "is_system_message tag \<longleftrightarrow> tag > 0 \<and> tag < TypeTag_User"

text \<open>
  A \<open>TypedMessage\<close> with the fields the mailbox and its policies read or carry. The parsed
  protobuf object and the trace context ride along in the source and are never inspected
  here.
\<close>

record typed_message =
  tag :: type_tag
  payload :: "u8 list"
  message_id :: u64
  delivery_priority :: u8

definition estimate_message_bytes :: "u64 \<Rightarrow> typed_message \<Rightarrow> u64" where
  "estimate_message_bytes sizeof_TypedMessage msg =
     sizeof_TypedMessage + of_nat (length (payload msg))"

section \<open>Configuration\<close>

datatype overflow_policy =
    RejectNewest | DropNewest | DropOldest | DropLowestPriority | DeadLetter
  | SpillToOverflowQueue | SignalOnly | BlockWhenAllowed

datatype mailbox_pressure_state = Normal | SoftPressure | HardPressure | Recovering

record mailbox_config =
  max_messages :: u32
  max_bytes :: u64
  priority_levels :: u8
  overflow_policy_of :: overflow_policy
  high_watermark :: real
  low_watermark :: real
  critical_watermark :: real
  protected_system_messages :: u32
  max_overflow_depth :: u32
  signal_min_interval_ms :: u32
  priority_aware :: bool

definition default_mailbox_config :: mailbox_config where
  "default_mailbox_config =
     \<lparr>max_messages = 1024, max_bytes = 0, priority_levels = 4,
      overflow_policy_of = RejectNewest,
      high_watermark = 80 / 100, low_watermark = 50 / 100, critical_watermark = 1,
      protected_system_messages = 32, max_overflow_depth = 0,
      signal_min_interval_ms = 100, priority_aware = False\<rparr>"

section \<open>Envelope metadata\<close>

record mailbox_envelope_meta =
  sender_id :: actor_id
  type_tag_of :: type_tag
  meta_message_id :: u64
  priority :: u8
  deadline_ns :: int
  meta_flags :: u32
  estimated_bytes :: u64
  schedule_edf :: bool

definition default_meta :: mailbox_envelope_meta where
  "default_meta =
     \<lparr>sender_id = 0, type_tag_of = 0, meta_message_id = 0, priority = 0,
      deadline_ns = INT64_MAX, meta_flags = 0, estimated_bytes = 0, schedule_edf = False\<rparr>"

definition is_expired :: "int \<Rightarrow> u64 \<Rightarrow> bool" where
  "is_expired deadline now_ns \<longleftrightarrow>
     deadline \<ge> 0 \<and> deadline \<noteq> INT64_MAX \<and> (of_int deadline :: u64) < now_ns"

section \<open>Enqueue results\<close>

datatype backpressure_reason =
    HighWatermark | HardCapacity | ByteCapacityReason | OverflowPolicyReason
  | NodeMemoryPressure

datatype enqueue_result_code =
    Accepted | AcceptedWithSoftPressure | Rejected | DroppedNewest | DroppedExisting
  | ReroutedToDeadLetter | ReroutedToOverflow | MailboxClosed | ActorNotFound
  | EndpointBackpressure | EndpointCircuitOpen | CircuitOpen

record enqueue_result =
  code :: enqueue_result_code
  target :: actor_id
  depth :: u32
  capacity :: u32
  result_bytes :: u64
  byte_capacity :: u64
  pressure_reason :: backpressure_reason
  pressure_state_of :: mailbox_pressure_state
  pressure_ratio_of :: real
  retry_after :: nat

definition default_result :: enqueue_result where
  "default_result =
     \<lparr>code = Accepted, target = 0, depth = 0, capacity = 0, result_bytes = 0,
      byte_capacity = 0, pressure_reason = HighWatermark, pressure_state_of = Normal,
      pressure_ratio_of = 0, retry_after = 0\<rparr>"

definition accepted :: "enqueue_result \<Rightarrow> bool" where
  "accepted r \<longleftrightarrow> code r = Accepted \<or> code r = AcceptedWithSoftPressure \<or> code r = ReroutedToOverflow"

definition retryable :: "enqueue_result \<Rightarrow> bool" where
  "retryable r \<longleftrightarrow> code r = Rejected \<or> code r = MailboxClosed \<or> code r = ReroutedToOverflow \<or>
     code r = EndpointBackpressure \<or> code r = CircuitOpen"

datatype failure_reason =
    FR_RejectedByPolicy | FR_Dropped | FR_MailboxClosed | FR_NoRoute | FR_ResourceExhausted
  | FR_RemoteUnavailable | FR_CircuitOpen | FR_Unknown

fun failure_reason_of :: "enqueue_result_code \<Rightarrow> failure_reason" where
  "failure_reason_of Rejected = FR_RejectedByPolicy"
| "failure_reason_of DroppedNewest = FR_Dropped"
| "failure_reason_of DroppedExisting = FR_Dropped"
| "failure_reason_of ReroutedToDeadLetter = FR_RejectedByPolicy"
| "failure_reason_of ReroutedToOverflow = FR_RejectedByPolicy"
| "failure_reason_of MailboxClosed = FR_MailboxClosed"
| "failure_reason_of ActorNotFound = FR_NoRoute"
| "failure_reason_of EndpointBackpressure = FR_ResourceExhausted"
| "failure_reason_of EndpointCircuitOpen = FR_RemoteUnavailable"
| "failure_reason_of CircuitOpen = FR_CircuitOpen"
| "failure_reason_of Accepted = FR_Unknown"
| "failure_reason_of AcceptedWithSoftPressure = FR_Unknown"

section \<open>Metric events\<close>

datatype metric_event_type =
    kMailboxEnqueue | kMailboxDequeue | kMailboxRejected | kMailboxDropped | kMailboxDeadLetter
  | kMailboxCapacity | kMailboxPressureState | kMailboxPressureRatio | kMailboxQueuedBytes
  | kMailboxMaxDepth | kMailboxSystemLaneDepth

record metric_event =
  event_type :: metric_event_type
  event_code :: u8
  value_hi :: u32

definition metric :: "metric_event_type \<Rightarrow> u32 \<Rightarrow> metric_event" where
  "metric t v = \<lparr>event_type = t, event_code = 0, value_hi = v\<rparr>"

text \<open>
  A failure reason is reported for exactly the results that did not enqueue the message,
  except that a spilled message counts as accepted and still reports a reason.
\<close>

lemma failure_reason_unknown_iff:
  "failure_reason_of (code r) = FR_Unknown \<longleftrightarrow> accepted r \<and> code r \<noteq> ReroutedToOverflow"
  by (cases "code r") (simp_all add: accepted_def)

lemma is_system_message_bound: "is_system_message t \<Longrightarrow> unat t < 4096"
  by (simp add: is_system_message_def TypeTag_User_def word_less_nat_alt)

end
