(* ===== verification/Pressure.thy ===== *)
theory Pressure
  imports Mailbox_Types
begin

text \<open>
  \<open>include/hpactor/mailbox/detail/pressure_state_machine.hpp\<close> and
  \<open>backpressure_signal_gate.hpp\<close>: the hysteresis automaton that turns a fill ratio into a
  pressure state, and the gate that limits how often backpressure signals leave a mailbox.
\<close>

section \<open>The pressure state machine\<close>

definition next_state ::
  "real \<Rightarrow> bool \<Rightarrow> real \<Rightarrow> real \<Rightarrow> real \<Rightarrow> mailbox_pressure_state \<Rightarrow> mailbox_pressure_state"
where
  "next_state ratio hard_failure high low critical current =
     (if hard_failure \<or> ratio \<ge> critical then HardPressure
      else if current = HardPressure \<or> current = Recovering then
        (if ratio < low then Normal else Recovering)
      else if ratio \<ge> high then SoftPressure
      else if ratio < low then Normal
      else current)"

definition code_after_accept :: "mailbox_pressure_state \<Rightarrow> enqueue_result_code" where
  "code_after_accept st =
     (if st = SoftPressure \<or> st = HardPressure \<or> st = Recovering
      then AcceptedWithSoftPressure else Accepted)"

fun severity :: "mailbox_pressure_state \<Rightarrow> u8" where
  "severity Normal = 0"
| "severity Recovering = 1"
| "severity SoftPressure = 2"
| "severity HardPressure = 3"

lemma code_after_accept_cases:
  "code_after_accept st = Accepted \<or> code_after_accept st = AcceptedWithSoftPressure"
  by (simp add: code_after_accept_def)

lemma code_after_accept_iff: "code_after_accept st = Accepted \<longleftrightarrow> st = Normal"
  by (cases st) (simp_all add: code_after_accept_def)

text \<open>A run of the machine over successive observations.\<close>

fun pressure_run ::
  "real \<Rightarrow> real \<Rightarrow> real \<Rightarrow> (real \<times> bool) list \<Rightarrow> mailbox_pressure_state \<Rightarrow> mailbox_pressure_state"
where
  "pressure_run high low critical [] st = st"
| "pressure_run high low critical ((ratio, hard) # obs) st =
     pressure_run high low critical obs (next_state ratio hard high low critical st)"

lemma next_state_idem:
  assumes "low \<le> high" and "high \<le> critical" and "\<not> hard"
  shows "next_state r hard high low critical (next_state r hard high low critical st) =
    next_state r hard high low critical st"
  using assms by (cases st) (auto simp: next_state_def)

lemma pressure_stays_elevated:
  assumes "low \<le> high" "high \<le> critical" "st \<noteq> Normal" "\<forall>(r, h)\<in>set obs. low \<le> r"
  shows "pressure_run high low critical obs st \<noteq> Normal"
  using assms
proof (induction obs arbitrary: st)
  case Nil
  then show ?case by simp
next
  case (Cons o1 obs)
  obtain r h where o1: "o1 = (r, h)" by (cases o1)
  have "next_state r h high low critical st \<noteq> Normal"
    using Cons.prems o1 by (auto simp: next_state_def)
  then show ?case using Cons o1 by simp
qed

lemma pressure_never_soft_from_hard:
  assumes "st = HardPressure \<or> st = Recovering" "\<forall>(r, h)\<in>set obs. low \<le> r"
  shows "pressure_run high low critical obs st \<in> {HardPressure, Recovering}"
  using assms
proof (induction obs arbitrary: st)
  case Nil
  then show ?case by auto
next
  case (Cons o1 obs)
  obtain r h where o1: "o1 = (r, h)" by (cases o1)
  have "next_state r h high low critical st \<in> {HardPressure, Recovering}"
    using Cons.prems o1 by (auto simp: next_state_def)
  then show ?case using Cons o1 by auto
qed



section \<open>The backpressure signal gate\<close>

record signal_gate =
  last_signal_ns :: u64
  last_severity :: u8
  sequence :: u64

definition signal_gate_init :: signal_gate where
  "signal_gate_init = \<lparr>last_signal_ns = 0, last_severity = 0, sequence = 0\<rparr>"

definition try_acquire ::
  "u64 \<Rightarrow> mailbox_pressure_state \<Rightarrow> u32 \<Rightarrow> bool \<Rightarrow> signal_gate \<Rightarrow> u64 option \<times> signal_gate"
where
  "try_acquire now_ns st interval_ms force g =
     (let interval_ns = ucast interval_ms * 1000000;
          sev = severity st;
          first = (last_signal_ns g = 0);
          interval_elapsed = (now_ns \<ge> last_signal_ns g + interval_ns);
          escalation = (sev > last_severity g)
      in if \<not> force \<and> \<not> first \<and> \<not> interval_elapsed \<and> \<not> escalation then (None, g)
         else (Some (sequence g + 1),
               g\<lparr>last_signal_ns := now_ns, last_severity := sev, sequence := sequence g + 1\<rparr>))"

fun signal_run :: "u32 \<Rightarrow> (u64 \<times> mailbox_pressure_state) list \<Rightarrow> signal_gate \<Rightarrow> u64 list" where
  "signal_run interval_ms [] g = []"
| "signal_run interval_ms ((now, st) # cs) g =
     (let (r, g') = try_acquire now st interval_ms False g
      in (case r of None \<Rightarrow> [] | Some k \<Rightarrow> [k]) @ signal_run interval_ms cs g')"

definition in_window :: "u64 \<Rightarrow> u32 \<Rightarrow> u64 \<Rightarrow> bool" where
  "in_window t0 interval_ms t \<longleftrightarrow>
     unat t0 \<le> unat t \<and> unat t < unat t0 + unat interval_ms * 1000000"

lemma severity_le: "unat (severity st) \<le> 3"
  by (cases st) simp_all

lemma interval_ns_unat: "unat (ucast (i :: u32) * 1000000 :: u64) = unat i * 1000000"
proof -
  have "unat i < 2 ^ 32" using unsigned_less [of i] by simp
  then have "unat i * 1000000 < 2 ^ 64" by simp
  then show ?thesis by (simp add: unat_word_ariths unsigned_ucast_eq take_bit_nat_eq_self)
qed

lemma not_elapsed:
  assumes "in_window t0 i prev" and "in_window t0 i now"
    and "unat t0 + 2 * (unat i * 1000000) < 2 ^ 64"
  shows "\<not> prev + ucast i * 1000000 \<le> (now :: u64)"
proof -
  have "unat prev + unat (ucast i * 1000000 :: u64) < 2 ^ 64"
    using assms unfolding interval_ns_unat in_window_def by linarith
  then have "unat (prev + ucast i * 1000000) = unat prev + unat i * 1000000"
    by (simp add: interval_ns_unat)
  then show ?thesis
    using assms unfolding word_le_nat_alt in_window_def by linarith
qed

lemma signal_run_after_emission:
  assumes "list_all (\<lambda>(t, _). in_window t0 i t) cs" and "in_window t0 i (last_signal_ns g)"
    and "t0 > 0" and "unat t0 + 2 * (unat i * 1000000) < 2 ^ 64"
  shows "length (signal_run i cs g) + unat (last_severity g) \<le> 3 \<or>
    signal_run i cs g = []"
  using assms(1,2)
proof (induction cs arbitrary: g)
  case Nil
  then show ?case by simp
next
  case (Cons c cs)
  obtain t st where c: "c = (t, st)" by force
  have t: "in_window t0 i t" using Cons.prems c by simp
  have first: "last_signal_ns g \<noteq> 0"
    using Cons.prems(2) assms(3) by (auto simp: in_window_def word_less_nat_alt)
  note ne = not_elapsed [OF Cons.prems(2) t assms(4)]
  show ?case
  proof (cases "severity st > last_severity g")
    case False
    then have "try_acquire t st i False g = (None, g)"
      using first ne by (simp add: try_acquire_def)
    then show ?thesis using Cons c by simp
  next
    case True
    let ?g = "g\<lparr>last_signal_ns := t, last_severity := severity st, sequence := sequence g + 1\<rparr>"
    have "try_acquire t st i False g = (Some (sequence g + 1), ?g)"
      using True by (simp add: try_acquire_def)
    moreover have "length (signal_run i cs ?g) + unat (severity st) \<le> 3 \<or> signal_run i cs ?g = []"
      using Cons.IH [of ?g] Cons.prems(1) t c by simp
    moreover have "unat (last_severity g) < unat (severity st)"
      using True by (simp add: word_less_nat_alt)
    ultimately show ?thesis using c severity_le [of st] by auto
  qed
qed

text \<open>
  Backpressure signals are rate limited: whatever pressure states are reported within
  one configured interval, at most four unforced signals leave the gate, one per severity
  level, whatever state the gate was in before.
\<close>

theorem signal_gate_bounds_burst:
  assumes "list_all (\<lambda>(t, _). in_window t0 interval_ms t) cs" and "t0 > 0"
    and "unat t0 + 2 * (unat interval_ms * 1000000) < 2 ^ 64"
  shows "length (signal_run interval_ms cs g) \<le> 4"
  using assms(1)
proof (induction cs arbitrary: g)
  case Nil
  then show ?case by simp
next
  case (Cons c cs)
  obtain t st where c: "c = (t, st)" by force
  obtain r g' where r: "try_acquire t st interval_ms False g = (r, g')" by force
  show ?case
  proof (cases r)
    case None
    then show ?thesis using Cons r c by simp
  next
    case (Some k)
    then have "last_signal_ns g' = t"
      using r by (auto simp: try_acquire_def Let_def split: if_splits)
    then have "in_window t0 interval_ms (last_signal_ns g')" using Cons.prems c by simp
    then have "length (signal_run interval_ms cs g') \<le> 3"
      using signal_run_after_emission [of t0 interval_ms cs g'] Cons.prems assms(2,3) by auto
    then show ?thesis using r c Some by simp
  qed
qed

theorem signal_gate_bounds_burst_witness:
  "list_all (\<lambda>(t, _). in_window 5 1 t) [(5, SoftPressure), (6, HardPressure), (7, HardPressure)] \<and>
   (0 :: u64) < 5 \<and>
   length (signal_run 1 [(5, SoftPressure), (6, HardPressure), (7, HardPressure)] signal_gate_init) \<le> 4"
  using signal_gate_bounds_burst
    [of 5 1 "[(5, SoftPressure), (6, HardPressure), (7, HardPressure)]" signal_gate_init]
  by (simp add: in_window_def)

end
