(* ===== verification/Mpsc_Queue.thy ===== *)
theory Mpsc_Queue
  imports HPA_Prelude
begin

text \<open>
  \<open>include/hpactor/adt/mpsc_mailbox.hpp\<close>: the intrusive lock-free queue under every mailbox
  lane. Nodes are addresses, the queue owns a stub node, and \<open>mpsc_next\<close> is the link field
  of every node. The first part models the operations and shows that, run one at a time,
  they implement a FIFO list; the second part splits them at their atomic accesses and
  examines interleavings of producers and the consumer.
\<close>

section \<open>FIFO interface\<close>

text \<open>
  What a mailbox lane promises its clients: \<open>holds q xs\<close> says that the queue \<open>q\<close> contains
  \<open>xs\<close>, oldest first. An intrusive queue only accepts a node it does not contain.
\<close>

fun drain_with :: "('q \<Rightarrow> 'a option \<times> 'q) \<Rightarrow> nat \<Rightarrow> 'q \<Rightarrow> 'a list \<times> 'q" where
  "drain_with deq 0 q = ([], q)"
| "drain_with deq (Suc n) q =
     (case deq q of
        (None, q') \<Rightarrow> ([], q')
      | (Some x, q') \<Rightarrow> (let (xs, q'') = drain_with deq n q' in (x # xs, q'')))"

locale fifo_lane =
  fixes enq :: "'a \<Rightarrow> 'q \<Rightarrow> 'q"
    and deq :: "'q \<Rightarrow> 'a option \<times> 'q"
    and cnt :: "'q \<Rightarrow> int"
    and holds :: "'q \<Rightarrow> 'a list \<Rightarrow> bool"
  assumes enq_holds: "holds q xs \<Longrightarrow> x \<notin> set xs \<Longrightarrow> holds (enq x q) (xs @ [x])"
    and deq_nil: "holds q [] \<Longrightarrow> fst (deq q) = None \<and> holds (snd (deq q)) []"
    and deq_cons: "holds q (x # xs) \<Longrightarrow> fst (deq q) = Some x \<and> holds (snd (deq q)) xs"
    and cnt_holds: "holds q xs \<Longrightarrow> cnt q = int (length xs)"
begin

lemma enq_all_holds:
  "holds q xs \<Longrightarrow> distinct (xs @ ys) \<Longrightarrow> holds (fold enq ys q) (xs @ ys)"
proof (induction ys arbitrary: q xs)
  case Nil
  then show ?case by simp
next
  case (Cons y ys)
  have "holds (enq y q) (xs @ [y])" using Cons.prems by (intro enq_holds) auto
  then have "holds (fold enq ys (enq y q)) ((xs @ [y]) @ ys)"
    using Cons.prems by (intro Cons.IH) auto
  then show ?case by simp
qed

lemma drain_holds:
  "holds q xs \<Longrightarrow> length xs \<le> n \<Longrightarrow> fst (drain_with deq n q) = xs \<and> holds (snd (drain_with deq n q)) []"
proof (induction n arbitrary: q xs)
  case 0
  then show ?case by simp
next
  case (Suc n)
  show ?case
  proof (cases xs)
    case Nil
    then show ?thesis using deq_nil [of q] Suc.prems by (cases "deq q") auto
  next
    case (Cons x ys)
    then obtain q' where "deq q = (Some x, q')" "holds q' ys"
      using deq_cons [of q x ys] Suc.prems by (cases "deq q") auto
    then show ?thesis using Suc.IH [of q' ys] Suc.prems Cons by (auto split: prod.splits)
  qed
qed

lemma enq_all_drain_fifo:
  assumes "holds q []" and "distinct ys" and "length ys \<le> n"
  shows "fst (drain_with deq n (fold enq ys q)) = ys"
  using drain_holds [OF enq_all_holds [OF assms(1), of ys]] assms by simp

end

section \<open>The queue\<close>

datatype 'n node_ref = Stub | Node 'n

record 'n mpsc =
  head :: "'n node_ref"
  tail :: "'n node_ref"
  mpsc_next :: "'n node_ref \<Rightarrow> 'n node_ref option"
  count :: int

definition mpsc_init :: "('n node_ref \<Rightarrow> 'n node_ref option) \<Rightarrow> 'n mpsc" where
  "mpsc_init links = \<lparr>head = Stub, tail = Stub, mpsc_next = links(Stub := None), count = 0\<rparr>"

text \<open>
  An enqueue is three atomic accesses: the exchange of \<open>head_\<close> (after clearing the private
  node's link), the store that links the previous head to the node, and the count.
\<close>

definition enq_exchange :: "'n \<Rightarrow> 'n mpsc \<Rightarrow> 'n node_ref \<times> 'n mpsc" where
  "enq_exchange n q =
     (head q, q\<lparr>mpsc_next := (mpsc_next q)(Node n := None), head := Node n\<rparr>)"

definition enq_link :: "'n node_ref \<Rightarrow> 'n \<Rightarrow> 'n mpsc \<Rightarrow> 'n mpsc" where
  "enq_link prev n q = q\<lparr>mpsc_next := (mpsc_next q)(prev := Some (Node n))\<rparr>"

definition enq_count :: "'n mpsc \<Rightarrow> 'n mpsc" where
  "enq_count q = q\<lparr>count := count q + 1\<rparr>"

definition mpsc_enqueue :: "'n \<Rightarrow> 'n mpsc \<Rightarrow> 'n mpsc" where
  "mpsc_enqueue n q = (let (prev, q1) = enq_exchange n q in enq_count (enq_link prev n q1))"

text \<open>
  A dequeue, split where another thread can intervene: the loads up to the first check of
  \<open>head_\<close>, the store that unlinks the oldest node, the second check, the load of \<open>head_\<close>,
  and the compare-exchange that retires the last node. A failed compare-exchange overwrites
  its first argument, the local \<open>next\<close>, with the value it found in \<open>head_\<close>; what follows
  in the source therefore reads and returns that value. The search for the end of a chain
  may run forever on a cyclic chain, hence \<open>option\<close>.
\<close>

datatype 'n deq_pc =
    Loaded "'n node_ref" "'n node_ref" "'n node_ref option"
  | Unlinked "'n node_ref" "'n node_ref" "'n node_ref option"
  | Rechecked "'n node_ref" "'n node_ref" "'n node_ref option"
  | Peeked "'n node_ref" "'n node_ref" "'n node_ref option" "'n node_ref"
  | Returned "'n node_ref option"

definition deq_load :: "'n mpsc \<Rightarrow> 'n deq_pc" where
  "deq_load q =
     (let t = tail q in
      case mpsc_next q t of
        None \<Rightarrow> Returned None
      | Some next \<Rightarrow>
          (let next_next = mpsc_next q next in
           if next_next = None \<and> head q \<noteq> next then Returned None
           else Loaded t next next_next))"

definition deq_recheck ::
  "'n node_ref \<Rightarrow> 'n node_ref \<Rightarrow> 'n node_ref option \<Rightarrow> 'n mpsc \<Rightarrow> 'n deq_pc \<times> 'n mpsc"
where
  "deq_recheck t next next_next q =
     (if next_next = None \<and> head q \<noteq> next then (Returned None, q)
      else (Rechecked t next next_next,
            if next_next = Some t then q\<lparr>mpsc_next := (mpsc_next q)(t := None)\<rparr> else q))"

partial_function (option) chain_end ::
  "('n node_ref \<Rightarrow> 'n node_ref option) \<Rightarrow> 'n node_ref \<Rightarrow> 'n node_ref option"
where
  "chain_end links r = (case links r of None \<Rightarrow> Some r | Some r' \<Rightarrow> chain_end links r')"

definition deq_retire ::
  "'n node_ref \<Rightarrow> 'n node_ref \<Rightarrow> 'n node_ref option \<Rightarrow> 'n node_ref \<Rightarrow> 'n mpsc
     \<Rightarrow> ('n deq_pc \<times> 'n mpsc) option"
where
  "deq_retire t next next_next h q =
     map_option (\<lambda>(r, q'). (Returned (Some r), q'\<lparr>count := count q' - 1\<rparr>))
       (if h = next then
          (if head q = next then Some (next, q\<lparr>head := Stub\<rparr>)
           else
             (let actual = head q in
              case mpsc_next q actual of
                None \<Rightarrow> Some (actual, q)
              | Some updated \<Rightarrow>
                  (if Some updated = next_next then Some (actual, q)
                   else case next_next of
                       Some nn \<Rightarrow>
                         map_option
                           (\<lambda>e. (actual, q\<lparr>mpsc_next := (mpsc_next q)(e := Some updated)\<rparr>))
                           (chain_end (mpsc_next q) nn)
                     | None \<Rightarrow>
                         Some (actual, q\<lparr>mpsc_next := (mpsc_next q)(t := Some updated)\<rparr>))))
        else Some (next, q))"

fun deq_step :: "'n deq_pc \<times> 'n mpsc \<Rightarrow> ('n deq_pc \<times> 'n mpsc) option" where
  "deq_step (Loaded t next nn, q) =
     Some (Unlinked t next nn, q\<lparr>mpsc_next := (mpsc_next q)(t := nn)\<rparr>)"
| "deq_step (Unlinked t next nn, q) = Some (deq_recheck t next nn q)"
| "deq_step (Rechecked t next nn, q) = Some (Peeked t next nn (head q), q)"
| "deq_step (Peeked t next nn h, q) = deq_retire t next nn h q"
| "deq_step (Returned r, q) = Some (Returned r, q)"

fun deq_run :: "nat \<Rightarrow> 'n deq_pc \<times> 'n mpsc \<Rightarrow> ('n deq_pc \<times> 'n mpsc) option" where
  "deq_run 0 s = Some s"
| "deq_run (Suc k) s = Option.bind (deq_step s) (deq_run k)"

definition mpsc_dequeue :: "'n mpsc \<Rightarrow> ('n node_ref option \<times> 'n mpsc) option" where
  "mpsc_dequeue q =
     (case deq_run 4 (deq_load q, q) of
        Some (Returned r, q') \<Rightarrow> Some (r, q')
      | _ \<Rightarrow> None)"

definition mpsc_empty :: "'n mpsc \<Rightarrow> bool" where
  "mpsc_empty q \<longleftrightarrow> count q = 0"

definition mpsc_try_dequeue :: "'n mpsc \<Rightarrow> 'n option \<times> 'n mpsc" where
  "mpsc_try_dequeue q =
     (case mpsc_dequeue q of
        Some (Some (Node n), q') \<Rightarrow> (Some n, q')
      | Some (_, q') \<Rightarrow> (None, q')
      | None \<Rightarrow> (None, q))"

section \<open>One operation at a time: a FIFO list\<close>

fun linked :: "('n node_ref \<Rightarrow> 'n node_ref option) \<Rightarrow> 'n node_ref \<Rightarrow> 'n node_ref list \<Rightarrow> bool" where
  "linked f r [] \<longleftrightarrow> f r = None"
| "linked f r (x # xs) \<longleftrightarrow> f r = Some x \<and> linked f x xs"

definition mpsc_holds :: "'n mpsc \<Rightarrow> 'n list \<Rightarrow> bool" where
  "mpsc_holds q xs \<longleftrightarrow>
     tail q = Stub \<and> linked (mpsc_next q) Stub (map Node xs) \<and>
     head q = last (Stub # map Node xs) \<and> distinct xs \<and> count q = int (length xs)"

lemma linked_upd_other: "r \<notin> set (x # xs) \<Longrightarrow> linked (f(r := v)) x xs = linked f x xs"
  by (induction xs arbitrary: x) auto

lemma linked_snoc:
  "linked f r xs \<Longrightarrow> distinct (r # xs @ [y]) \<Longrightarrow>
   linked (f(y := None, last (r # xs) := Some y)) r (xs @ [y])"
proof (induction xs arbitrary: r)
  case Nil
  then show ?case by auto
next
  case (Cons x xs)
  have "linked (f(y := None, last (x # xs) := Some y)) x (xs @ [y])"
    using Cons.prems by (intro Cons.IH) auto
  moreover have "r \<noteq> last (x # xs)" using Cons.prems(2) last_in_set [of "x # xs"] by auto
  ultimately show ?case using Cons.prems by (simp add: fun_upd_def)
qed

lemma mpsc_init_holds: "mpsc_holds (mpsc_init f) []"
  by (simp add: mpsc_holds_def mpsc_init_def)

lemma mpsc_enqueue_holds:
  assumes "mpsc_holds q xs" and "n \<notin> set xs"
  shows "mpsc_holds (mpsc_enqueue n q) (xs @ [n])"
proof -
  have "distinct (Stub # map Node xs @ [Node n])"
    using assms by (auto simp: mpsc_holds_def distinct_map inj_on_def)
  then have "linked ((mpsc_next q)(Node n := None, last (Stub # map Node xs) := Some (Node n)))
      Stub (map Node xs @ [Node n])"
    using assms by (intro linked_snoc) (auto simp: mpsc_holds_def)
  then show ?thesis
    using assms by (auto simp: mpsc_holds_def mpsc_enqueue_def enq_exchange_def enq_link_def enq_count_def)
qed

lemmas deq_defs = mpsc_dequeue_def deq_load_def deq_recheck_def deq_retire_def

lemma mpsc_dequeue_nil: "mpsc_holds q [] \<Longrightarrow> mpsc_dequeue q = Some (None, q)"
  by (simp add: mpsc_holds_def deq_defs eval_nat_numeral)

lemma mpsc_dequeue_single:
  "mpsc_holds q [x] \<Longrightarrow>
   mpsc_dequeue q = Some (Some (Node x),
     q\<lparr>mpsc_next := (mpsc_next q)(Stub := None), head := Stub, count := 0\<rparr>)"
  by (simp add: mpsc_holds_def deq_defs eval_nat_numeral)

lemma last_differs:
  assumes "distinct (x # y # zs)"
  shows "last (Node y # map Node zs) \<noteq> Node x"
proof
  assume "last (Node y # map Node zs) = Node x"
  then have "Node x \<in> set (Node y # map Node zs)" using last_in_set [of "Node y # map Node zs"] by simp
  then show False using assms by auto
qed

lemma mpsc_dequeue_many:
  assumes "mpsc_holds q (x # y # zs)"
  shows "mpsc_dequeue q = Some (Some (Node x),
     q\<lparr>mpsc_next := (mpsc_next q)(Stub := Some (Node y)), count := int (Suc (length zs))\<rparr>)"
proof -
  have "distinct (x # y # zs)" using assms by (simp add: mpsc_holds_def)
  then have "last (Node y # map Node zs) \<noteq> Node x" by (rule last_differs)
  then have "head q \<noteq> Node x" using assms by (simp add: mpsc_holds_def)
  then show ?thesis
    using assms by (simp add: mpsc_holds_def deq_defs eval_nat_numeral)
qed

lemma mpsc_dequeue_holds:
  assumes "mpsc_holds q (x # xs)"
  shows "\<exists>q'. mpsc_dequeue q = Some (Some (Node x), q') \<and> mpsc_holds q' xs"
proof (cases xs)
  case Nil
  then show ?thesis
    using mpsc_dequeue_single [of q x] assms by (auto simp: mpsc_holds_def)
next
  case (Cons y zs)
  have "linked ((mpsc_next q)(Stub := Some (Node y))) (Node y) (map Node zs)"
    using assms Cons by (subst linked_upd_other) (auto simp: mpsc_holds_def)
  then show ?thesis
    using mpsc_dequeue_many [of q x y zs] assms Cons by (auto simp: mpsc_holds_def)
qed

interpretation mpsc: fifo_lane mpsc_enqueue mpsc_try_dequeue count mpsc_holds
proof
  fix q :: "'a mpsc" and xs x
  show "mpsc_holds q xs \<Longrightarrow> x \<notin> set xs \<Longrightarrow> mpsc_holds (mpsc_enqueue x q) (xs @ [x])"
    by (rule mpsc_enqueue_holds)
  show "mpsc_holds q [] \<Longrightarrow> fst (mpsc_try_dequeue q) = None \<and> mpsc_holds (snd (mpsc_try_dequeue q)) []"
    by (simp add: mpsc_try_dequeue_def mpsc_dequeue_nil)
  show "mpsc_holds q (x # xs) \<Longrightarrow>
      fst (mpsc_try_dequeue q) = Some x \<and> mpsc_holds (snd (mpsc_try_dequeue q)) xs"
    using mpsc_dequeue_holds [of q x xs] by (auto simp: mpsc_try_dequeue_def)
  show "mpsc_holds q xs \<Longrightarrow> count q = int (length xs)"
    by (simp add: mpsc_holds_def)
qed

text \<open>
  Run one operation at a time, the pointer queue is a FIFO: enqueueing distinct nodes
  into an empty queue and dequeueing as often returns exactly those nodes in order, and
  the element counter is exact at every point.
\<close>

theorem mpsc_fifo:
  assumes "distinct ys"
  shows "fst (drain_with mpsc_try_dequeue (length ys) (fold mpsc_enqueue ys (mpsc_init links))) = ys \<and>
    count (fold mpsc_enqueue ys (mpsc_init links)) = int (length ys)"
proof -
  have "mpsc_holds (fold mpsc_enqueue ys (mpsc_init links)) ([] @ ys)"
    using assms by (intro mpsc.enq_all_holds mpsc_init_holds) simp
  then show ?thesis
    using mpsc.enq_all_drain_fifo [OF mpsc_init_holds assms order_refl, of links]
    by (auto dest: mpsc.cnt_holds)
qed

theorem mpsc_fifo_witness:
  "distinct [3, 1, 2 :: nat] \<and>
   fst (drain_with mpsc_try_dequeue 3 (fold mpsc_enqueue [3, 1, 2 :: nat] (mpsc_init (\<lambda>_. None))))
     = [3, 1, 2]"
  using mpsc_fifo [of "[3, 1, 2 :: nat]" "\<lambda>_. None"] by (simp add: numeral_3_eq_3 del: drain_with.simps)

section \<open>Producers interleaved with whole dequeues\<close>

text \<open>
  Here the three accesses of every enqueue are separate steps and any number of producers
  is in flight: \<open>linking\<close> holds the producers between the exchange and the link store,
  \<open>uncounted\<close> those between the link store and the count. \<open>contents\<close> records the exchange
  order. A dequeue is one step.
\<close>

record 'n mpsc_conc =
  shared :: "'n mpsc"
  linking :: "('n node_ref \<times> 'n node_ref) set"
  uncounted :: nat
  contents :: "'n list"

definition conc_init :: "('n node_ref \<Rightarrow> 'n node_ref option) \<Rightarrow> 'n mpsc_conc" where
  "conc_init links = \<lparr>shared = mpsc_init links, linking = {}, uncounted = 0, contents = []\<rparr>"

inductive conc_step :: "'n mpsc_conc \<Rightarrow> 'n mpsc_conc \<Rightarrow> bool" where
  exchange: "n \<notin> set (contents s) \<Longrightarrow> enq_exchange n (shared s) = (prev, q) \<Longrightarrow>
     conc_step s (s\<lparr>shared := q, linking := insert (prev, Node n) (linking s),
                    contents := contents s @ [n]\<rparr>)"
| link: "(prev, Node n) \<in> linking s \<Longrightarrow>
     conc_step s (s\<lparr>shared := enq_link prev n (shared s), linking := linking s - {(prev, Node n)},
                    uncounted := uncounted s + 1\<rparr>)"
| counted: "uncounted s > 0 \<Longrightarrow>
     conc_step s (s\<lparr>shared := enq_count (shared s), uncounted := uncounted s - 1\<rparr>)"
| take: "mpsc_dequeue (shared s) = Some (Some (Node n), q) \<Longrightarrow>
     conc_step s (s\<lparr>shared := q, contents := tl (contents s)\<rparr>)"
| retry: "mpsc_dequeue (shared s) = Some (None, q) \<Longrightarrow> conc_step s (s\<lparr>shared := q\<rparr>)"

inductive conc_reachable :: "'n mpsc_conc \<Rightarrow> bool" where
  conc_start: "conc_reachable (conc_init links)"
| conc_next: "conc_reachable s \<Longrightarrow> conc_step s t \<Longrightarrow> conc_reachable t"

text \<open>
  The chain of a queue with producers in flight has a gap at every pair in \<open>linking\<close>.
\<close>

fun gapped ::
  "('n node_ref \<Rightarrow> 'n node_ref option) \<Rightarrow> ('n node_ref \<times> 'n node_ref) set \<Rightarrow> 'n node_ref
     \<Rightarrow> 'n node_ref list \<Rightarrow> bool"
where
  "gapped f L r [] \<longleftrightarrow> f r = None"
| "gapped f L r (x # xs) \<longleftrightarrow> (if (r, x) \<in> L then f r = None else f r = Some x) \<and> gapped f L x xs"

fun pairs :: "'a \<Rightarrow> 'a list \<Rightarrow> ('a \<times> 'a) set" where
  "pairs r [] = {}"
| "pairs r (x # xs) = insert (r, x) (pairs x xs)"

definition conc_inv :: "'n mpsc_conc \<Rightarrow> bool" where
  "conc_inv s \<longleftrightarrow>
     (let q = shared s; ns = map Node (contents s) in
      tail q = Stub \<and> head q = last (Stub # ns) \<and> distinct (contents s) \<and>
      gapped (mpsc_next q) (linking s) Stub ns \<and>
      linking s \<subseteq> pairs Stub ns \<and>
      count q + int (card (linking s)) + int (uncounted s) = int (length (contents s)))"

lemma pairs_bounds: "(a, b) \<in> pairs r xs \<Longrightarrow> a \<in> set (r # xs) \<and> b \<in> set xs"
  by (induction xs arbitrary: r) auto

lemma pairs_snoc: "pairs r (xs @ [y]) = insert (last (r # xs), y) (pairs r xs)"
  by (induction xs arbitrary: r) auto

lemma finite_pairs: "finite (pairs r xs)"
  by (induction xs arbitrary: r) auto

lemma gapped_upd_other: "r \<notin> set (x # xs) \<Longrightarrow> gapped (f(r := v)) L x xs = gapped f L x xs"
  by (induction xs arbitrary: x) auto

lemma gapped_nogap: "gapped f {} r xs = linked f r xs"
  by (induction xs arbitrary: r) auto

lemma gapped_cong_gaps:
  "\<forall>a b. b \<in> set xs \<longrightarrow> ((a, b) \<in> L \<longleftrightarrow> (a, b) \<in> M) \<Longrightarrow> gapped f L r xs = gapped f M r xs"
  by (induction xs arbitrary: r) auto

lemma gapped_snoc:
  "gapped f L r xs \<Longrightarrow> distinct (r # xs @ [y]) \<Longrightarrow> \<forall>(a, b)\<in>L. b \<noteq> y \<Longrightarrow>
   gapped (f(y := None)) (insert (last (r # xs), y) L) r (xs @ [y])"
proof (induction xs arbitrary: r)
  case Nil
  then show ?case by auto
next
  case (Cons x xs)
  have "gapped (f(y := None)) (insert (last (x # xs), y) L) x (xs @ [y])"
    using Cons.prems by (intro Cons.IH) auto
  then show ?case using Cons.prems by (auto simp: fun_upd_def)
qed

lemma gapped_link:
  "gapped f L r xs \<Longrightarrow> distinct (r # xs) \<Longrightarrow> (p, y) \<in> pairs r xs \<Longrightarrow>
   gapped (f(p := Some y)) (L - {(p, y)}) r xs"
proof (induction xs arbitrary: r)
  case Nil
  then show ?case by simp
next
  case (Cons x xs)
  show ?case
  proof (cases "(p, y) = (r, x)")
    case True
    have "gapped f (L - {(p, y)}) x xs = gapped f L x xs"
      using Cons.prems True by (intro gapped_cong_gaps) auto
    moreover have "gapped (f(p := Some y)) (L - {(p, y)}) x xs = gapped f (L - {(p, y)}) x xs"
      using Cons.prems True by (intro gapped_upd_other) auto
    ultimately show ?thesis using Cons.prems True by (auto simp: fun_upd_def)
  next
    case False
    then have inr: "(p, y) \<in> pairs x xs" using Cons.prems by auto
    then have "p \<noteq> r" using Cons.prems(2) by (auto dest: pairs_bounds)
    moreover have "gapped (f(p := Some y)) (L - {(p, y)}) x xs"
      using Cons.prems inr by (intro Cons.IH) auto
    ultimately show ?thesis using Cons.prems by (auto simp: fun_upd_def)
  qed
qed

lemma conc_inv_init: "conc_inv (conc_init links)"
  by (simp add: conc_inv_def conc_init_def mpsc_init_def)

lemma conc_inv_finite: "conc_inv s \<Longrightarrow> finite (linking s)"
  by (auto simp: conc_inv_def Let_def intro: finite_subset [OF _ finite_pairs])

lemma conc_inv_exchange:
  assumes "conc_inv s" and "n \<notin> set (contents s)" and "enq_exchange n (shared s) = (prev, q)"
  shows "conc_inv (s\<lparr>shared := q, linking := insert (prev, Node n) (linking s),
                    contents := contents s @ [n]\<rparr>)"
proof -
  let ?ns = "map Node (contents s)"
  have gaps: "linking s \<subseteq> pairs Stub ?ns" using assms by (simp add: conc_inv_def Let_def)
  have fresh: "\<forall>(a, b)\<in>linking s. b \<noteq> Node n"
    using gaps assms(2) by (auto dest!: subsetD pairs_bounds)
  have "gapped ((mpsc_next (shared s))(Node n := None)) (insert (last (Stub # ?ns), Node n) (linking s))
      Stub (?ns @ [Node n])"
    using assms fresh
    by (intro gapped_snoc) (auto simp: conc_inv_def Let_def distinct_map inj_on_def)
  moreover have "card (insert (last (Stub # ?ns), Node n) (linking s)) = Suc (card (linking s))"
    using fresh conc_inv_finite [OF assms(1)] by (subst card_insert_disjoint) auto
  ultimately show ?thesis
    using assms gaps
    by (auto simp: conc_inv_def Let_def enq_exchange_def pairs_snoc)
qed

lemma conc_inv_link:
  assumes "conc_inv s" and "(prev, Node n) \<in> linking s"
  shows "conc_inv (s\<lparr>shared := enq_link prev n (shared s), linking := linking s - {(prev, Node n)},
                    uncounted := uncounted s + 1\<rparr>)"
proof -
  have "gapped ((mpsc_next (shared s))(prev := Some (Node n))) (linking s - {(prev, Node n)})
      Stub (map Node (contents s))"
    using assms by (intro gapped_link) (auto simp: conc_inv_def Let_def distinct_map inj_on_def)
  moreover have "card (linking s) = Suc (card (linking s - {(prev, Node n)}))"
    using conc_inv_finite [OF assms(1)] assms(2) by (rule card.remove)
  ultimately show ?thesis
    using assms by (auto simp: conc_inv_def Let_def enq_link_def)
qed

text \<open>What a dequeue does on a gapped chain, by the position of the first gap.\<close>

lemma conc_dequeue_gap:
  assumes "conc_inv s"
    and "contents s = [] \<or> (Stub, Node (hd (contents s))) \<in> linking s \<or>
      (\<exists>x y zs. contents s = x # y # zs \<and> (Node x, Node y) \<in> linking s)"
  shows "mpsc_dequeue (shared s) = Some (None, shared s)"
proof (cases "mpsc_next (shared s) Stub")
  case None
  then show ?thesis using assms(1) by (simp add: conc_inv_def Let_def deq_defs eval_nat_numeral)
next
  case (Some r)
  have g: "gapped (mpsc_next (shared s)) (linking s) Stub (map Node (contents s))"
    using assms(1) by (simp add: conc_inv_def Let_def)
  then have "contents s \<noteq> []" "(Stub, Node (hd (contents s))) \<notin> linking s"
    using Some by (cases "contents s"; simp split: if_splits)+
  then obtain x y zs where xs: "contents s = x # y # zs" "(Node x, Node y) \<in> linking s"
    using assms(2) by blast
  have r: "r = Node x" using g xs(1) Some by (simp split: if_splits)
  have "distinct (x # y # zs)" using assms(1) xs(1) by (simp add: conc_inv_def Let_def)
  note last_differs [OF this]
  then show ?thesis
    using assms(1) xs Some r by (simp add: conc_inv_def Let_def deq_defs eval_nat_numeral)
qed

lemma conc_dequeue_single:
  assumes "conc_inv s" and "contents s = [x]" and "(Stub, Node x) \<notin> linking s"
  shows "mpsc_dequeue (shared s) = Some (Some (Node x),
     (shared s)\<lparr>mpsc_next := (mpsc_next (shared s))(Stub := None), head := Stub,
                count := count (shared s) - 1\<rparr>)"
  using assms by (simp add: conc_inv_def Let_def deq_defs eval_nat_numeral)

lemma conc_dequeue_many:
  assumes "conc_inv s" and "contents s = x # y # zs"
    and "(Stub, Node x) \<notin> linking s" and "(Node x, Node y) \<notin> linking s"
  shows "mpsc_dequeue (shared s) = Some (Some (Node x),
     (shared s)\<lparr>mpsc_next := (mpsc_next (shared s))(Stub := Some (Node y)),
                count := count (shared s) - 1\<rparr>)"
proof -
  have "distinct (x # y # zs)" using assms(1,2) by (simp add: conc_inv_def Let_def)
  note last_differs [OF this]
  then show ?thesis
    using assms by (simp add: conc_inv_def Let_def deq_defs eval_nat_numeral)
qed

text \<open>A dequeue returns the oldest node or reports that there is none to take.\<close>

lemma conc_dequeue_cases:
  assumes "conc_inv s"
  obtains (gap) "mpsc_dequeue (shared s) = Some (None, shared s)"
      "contents s = [] \<or> linking s \<noteq> {}"
    | (got) x xs q where "contents s = x # xs" "mpsc_dequeue (shared s) = Some (Some (Node x), q)"
      "conc_inv (s\<lparr>shared := q, contents := xs\<rparr>)"
proof (cases "contents s")
  case Nil
  then show ?thesis by (intro gap conc_dequeue_gap [OF assms]) simp_all
next
  case (Cons x xs)
  show ?thesis
  proof (cases "(Stub, Node x) \<in> linking s \<or> (\<exists>y zs. xs = y # zs \<and> (Node x, Node y) \<in> linking s)")
    case True
    then show ?thesis using Cons by (intro gap conc_dequeue_gap [OF assms]) auto
  next
    case nogap: False
    show ?thesis
    proof (cases xs)
      case Nil
      have "conc_inv (s\<lparr>shared := (shared s)\<lparr>mpsc_next := (mpsc_next (shared s))(Stub := None), head := Stub,
          count := count (shared s) - 1\<rparr>, contents := []\<rparr>)"
        using assms \<open>contents s = x # xs\<close> Nil nogap by (auto simp: conc_inv_def Let_def)
      then show ?thesis
        using conc_dequeue_single [OF assms, of x] \<open>contents s = x # xs\<close> Nil nogap
        by (intro got [of x "[]"]) simp_all
    next
      case (Cons y zs)
      have "gapped ((mpsc_next (shared s))(Stub := Some (Node y))) (linking s) (Node y) (map Node zs)"
        using assms \<open>contents s = x # xs\<close> Cons by (subst gapped_upd_other) (auto simp: conc_inv_def Let_def)
      moreover have "(Stub, Node y) \<notin> linking s"
        using assms \<open>contents s = x # xs\<close> Cons
        by (auto simp: conc_inv_def Let_def dest!: subsetD pairs_bounds)
      ultimately have "conc_inv (s\<lparr>shared := (shared s)\<lparr>mpsc_next := (mpsc_next (shared s))(Stub := Some (Node y)),
          count := count (shared s) - 1\<rparr>, contents := y # zs\<rparr>)"
        using assms \<open>contents s = x # xs\<close> Cons nogap by (auto simp: conc_inv_def Let_def)
      then show ?thesis
        using conc_dequeue_many [OF assms, of x y zs] \<open>contents s = x # xs\<close> Cons nogap
        by (intro got [of x "y # zs"]) simp_all
    qed
  qed
qed

lemma conc_inv_step:
  assumes "conc_step s t" and "conc_inv s"
  shows "conc_inv t"
  using assms(1)
proof cases
  case (exchange n prev q)
  show ?thesis unfolding exchange(1) by (rule conc_inv_exchange [OF assms(2) exchange(2,3)])
next
  case (link prev n)
  show ?thesis unfolding link(1) by (rule conc_inv_link [OF assms(2) link(2)])
next
  case counted
  then show ?thesis using assms(2) by (auto simp: conc_inv_def Let_def enq_count_def)
next
  case (take n q)
  from assms(2) show ?thesis
  proof (cases rule: conc_dequeue_cases)
    case gap
    then show ?thesis using take by simp
  next
    case (got x xs q')
    then show ?thesis using take by simp
  qed
next
  case (retry q)
  from assms(2) show ?thesis
  proof (cases rule: conc_dequeue_cases)
    case gap
    then show ?thesis using retry assms(2) by simp
  next
    case (got x xs q')
    then show ?thesis using retry by simp
  qed
qed

lemma conc_reachable_inv: "conc_reachable s \<Longrightarrow> conc_inv s"
  by (induction rule: conc_reachable.induct) (auto intro: conc_inv_init conc_inv_step)


definition conc_demo :: "nat mpsc_conc" where
  "conc_demo =
     (let q0 = mpsc_init (\<lambda>_. None); (p1, q1) = enq_exchange 7 q0; (p2, q2) = enq_exchange 8 q1 in
      \<lparr>shared = enq_link p2 8 q2, linking = {(p1, Node 7)}, uncounted = 1, contents = [7, 8]\<rparr>)"

lemma conc_demo_reachable: "conc_reachable conc_demo"
proof -
  let ?s0 = "conc_init (\<lambda>_. None) :: nat mpsc_conc"
  let ?q1 = "snd (enq_exchange 7 (shared ?s0))"
  let ?s1 = "?s0\<lparr>shared := ?q1, linking := {(Stub, Node 7)}, contents := [7]\<rparr>"
  let ?q2 = "snd (enq_exchange 8 ?q1)"
  let ?s2 = "?s1\<lparr>shared := ?q2, linking := {(Node 7, Node 8), (Stub, Node 7)}, contents := [7, 8]\<rparr>"
  have 1: "conc_step ?s0 ?s1"
    using conc_step.exchange [of 7 ?s0 Stub ?q1] by (simp add: conc_init_def mpsc_init_def enq_exchange_def)
  have 2: "conc_step ?s1 ?s2"
    using conc_step.exchange [of 8 ?s1 "Node 7" ?q2]
    by (simp add: conc_init_def mpsc_init_def enq_exchange_def)
  have 3: "conc_step ?s2 conc_demo"
    using conc_step.link [of "Node 7" 8 ?s2]
    by (simp add: conc_demo_def conc_init_def mpsc_init_def enq_exchange_def enq_link_def insert_Diff_if)
  show ?thesis using 1 2 3 by (blast intro: conc_start conc_next)
qed


section \<open>Producers inside a dequeue\<close>

text \<open>
  A queue whose stub has lost its link while \<open>head_\<close> points elsewhere: every later node is
  appended behind a node the consumer can no longer reach.
\<close>

definition orphaned :: "'n mpsc \<Rightarrow> bool" where
  "orphaned q \<longleftrightarrow> tail q = Stub \<and> mpsc_next q Stub = None \<and> head q \<noteq> Stub"

lemma orphaned_enqueue: "orphaned q \<Longrightarrow> orphaned (mpsc_enqueue n q)"
  by (auto simp: orphaned_def mpsc_enqueue_def enq_exchange_def enq_link_def enq_count_def)

lemma orphaned_enqueues: "orphaned q \<Longrightarrow> orphaned (fold mpsc_enqueue ns q)"
  by (induction ns arbitrary: q) (auto simp: orphaned_enqueue)

lemma orphaned_dequeue: "orphaned q \<Longrightarrow> mpsc_dequeue q = Some (None, q)"
  by (simp add: orphaned_def deq_defs eval_nat_numeral)

text \<open>
  C12. The window of the unlink store. The consumer dequeues the only node; one producer runs
  a whole enqueue after the consumer's store to the stub's link and before its second check
  of \<open>head_\<close>. The dequeue then reports no node, and no later dequeue ever returns one,
  whatever is enqueued afterwards, although the queue counts both nodes.
\<close>

theorem mpsc_unlink_race_loses_queue:
  assumes "mpsc_holds q [n]" and "m \<noteq> n" and "deq_run 1 (deq_load q, q) = Some (pc, q1)"
  shows "\<exists>q2. deq_step (pc, mpsc_enqueue m q1) = Some (Returned None, q2) \<and> count q2 = 2 \<and>
           (\<forall>ks. mpsc_dequeue (fold mpsc_enqueue ks q2) = Some (None, fold mpsc_enqueue ks q2))"
proof -
  have pc: "pc = Unlinked Stub (Node n) None" and q1: "q1 = q\<lparr>mpsc_next := (mpsc_next q)(Stub := None)\<rparr>"
    using assms(1,3) by (auto simp: mpsc_holds_def deq_load_def)
  let ?q2 = "mpsc_enqueue m q1"
  have "orphaned ?q2" and "deq_step (pc, ?q2) = Some (Returned None, ?q2)" and "count ?q2 = 2"
    using assms(1,2) unfolding pc q1
    by (auto simp: orphaned_def mpsc_holds_def mpsc_enqueue_def enq_exchange_def enq_link_def
        enq_count_def deq_recheck_def)
  then show ?thesis using orphaned_dequeue orphaned_enqueues by blast
qed

definition race_queue :: "nat mpsc" where
  "race_queue = mpsc_enqueue 7 (mpsc_init (\<lambda>_. None))"

lemma race_queue_holds: "mpsc_holds race_queue [7]"
  unfolding race_queue_def using mpsc_enqueue_holds [OF mpsc_init_holds, of 7] by simp

lemma race_queue_runs:
  "\<exists>pc q1. deq_run 1 (deq_load race_queue, race_queue) = Some (pc, q1)"
  "\<exists>pc q1. deq_run 3 (deq_load race_queue, race_queue) = Some (pc, q1)"
  using race_queue_holds by (simp_all add: mpsc_holds_def deq_load_def deq_recheck_def eval_nat_numeral)

theorem mpsc_unlink_race_witness:
  "mpsc_holds race_queue [7] \<and>
   (\<exists>pc q1 q2. deq_run 1 (deq_load race_queue, race_queue) = Some (pc, q1) \<and>
      deq_step (pc, mpsc_enqueue 8 q1) = Some (Returned None, q2) \<and> count q2 = 2)"
  using race_queue_holds race_queue_runs
    mpsc_unlink_race_loses_queue [of race_queue 7 8] by fastforce

text \<open>
  C13. The window of the compare-exchange. The consumer dequeues the only node; one producer
  runs a whole enqueue after the consumer's last load of \<open>head_\<close> and before its
  compare-exchange. The failed exchange replaces the node about to be returned: the dequeue
  returns the new node, the old one is never returned, and the queue stays unreadable.
\<close>

theorem mpsc_cas_race_returns_wrong_node:
  assumes "mpsc_holds q [n]" and "m \<noteq> n" and "deq_run 3 (deq_load q, q) = Some (pc, q1)"
  shows "\<exists>q2. deq_step (pc, mpsc_enqueue m q1) = Some (Returned (Some (Node m)), q2) \<and>
           \<not> mpsc_empty q2 \<and>
           (\<forall>ks. mpsc_dequeue (fold mpsc_enqueue ks q2) = Some (None, fold mpsc_enqueue ks q2))"
proof -
  have pc: "pc = Peeked Stub (Node n) None (Node n)"
    and q1: "q1 = q\<lparr>mpsc_next := (mpsc_next q)(Stub := None)\<rparr>"
    using assms(1,3) by (auto simp: mpsc_holds_def deq_load_def deq_recheck_def eval_nat_numeral)
  let ?q2 = "(mpsc_enqueue m q1)\<lparr>count := 1\<rparr>"
  have "orphaned ?q2" and "deq_step (pc, mpsc_enqueue m q1) = Some (Returned (Some (Node m)), ?q2)"
    and "\<not> mpsc_empty ?q2"
    using assms(1,2) unfolding pc q1
    by (auto simp: orphaned_def mpsc_holds_def mpsc_enqueue_def enq_exchange_def enq_link_def
        enq_count_def deq_retire_def mpsc_empty_def Let_def)
  then show ?thesis using orphaned_dequeue orphaned_enqueues by blast
qed

theorem mpsc_cas_race_witness:
  "mpsc_holds race_queue [7] \<and>
   (\<exists>pc q1 q2. deq_run 3 (deq_load race_queue, race_queue) = Some (pc, q1) \<and>
      deq_step (pc, mpsc_enqueue 8 q1) = Some (Returned (Some (Node 8)), q2) \<and> \<not> mpsc_empty q2)"
  using race_queue_holds race_queue_runs
    mpsc_cas_race_returns_wrong_node [of race_queue 7 8] by fastforce

end
