(* ===== verification/Multi_Lane.thy ===== *)
theory Multi_Lane
  imports Mpsc_Queue
begin

text \<open>
  \<open>include/hpactor/mailbox/multi_lane_queue.hpp\<close>: one system lane, up to eight user lanes
  and the ring that defers the deallocation of popped nodes. The operations take the lane
  operations (\<open>enqueue\<close>, \<open>dequeue\<close>, \<open>count\<close> of a lane) as arguments. They are used with the
  pointer queue of \<open>Mpsc_Queue\<close> and with plain lists; inside \<open>fifo_lane\<close> both are shown to
  implement the same specification. An index past the eight user lanes is undefined
  behaviour in the source; here such a store is ignored, and \<open>Actor_Mailbox\<close> shows that
  the mailbox never produces one.
\<close>

section \<open>Operations\<close>

record ('q, 'n) multi_lane =
  system_lane :: 'q
  user_lanes :: "'q list"
  num_user_lanes :: u8
  pending_ring :: "'n option list"
  pending_write :: nat
  pending_count :: nat
  freed :: "'n list"

definition kSystemLaneSentinel :: u8 where
  "kSystemLaneSentinel = 0xFF"

definition kMaxUserLanes :: nat where
  "kMaxUserLanes = 8"

definition kPendingFreeRingSize :: nat where
  "kPendingFreeRingSize = 8"

definition multi_lane_init :: "'q \<Rightarrow> ('q, 'n) multi_lane" where
  "multi_lane_init empty_lane =
     \<lparr>system_lane = empty_lane, user_lanes = replicate kMaxUserLanes empty_lane, num_user_lanes = 1,
      pending_ring = replicate kPendingFreeRingSize None, pending_write = 0, pending_count = 0,
      freed = []\<rparr>"

definition ml_enqueue ::
  "('n \<Rightarrow> 'q \<Rightarrow> 'q) \<Rightarrow> 'n \<Rightarrow> u8 \<Rightarrow> ('q, 'n) multi_lane \<Rightarrow> ('q, 'n) multi_lane"
where
  "ml_enqueue enq n lane_idx q =
     (if lane_idx = kSystemLaneSentinel then q\<lparr>system_lane := enq n (system_lane q)\<rparr>
      else q\<lparr>user_lanes := (user_lanes q)[unat lane_idx := enq n (user_lanes q ! unat lane_idx)]\<rparr>)"

fun take_first :: "('q \<Rightarrow> 'n option \<times> 'q) \<Rightarrow> nat list \<Rightarrow> 'q list \<Rightarrow> 'n option \<times> 'q list" where
  "take_first deq [] ls = (None, ls)"
| "take_first deq (i # is) ls =
     (let (r, l) = deq (ls ! i); ls' = ls[i := l]
      in case r of Some n \<Rightarrow> (Some n, ls') | None \<Rightarrow> take_first deq is ls')"

definition ml_dequeue ::
  "('q \<Rightarrow> 'n option \<times> 'q) \<Rightarrow> ('q, 'n) multi_lane \<Rightarrow> 'n option \<times> ('q, 'n) multi_lane"
where
  "ml_dequeue deq q =
     (let (r, l) = deq (system_lane q); q1 = q\<lparr>system_lane := l\<rparr>
      in case r of
           Some n \<Rightarrow> (Some n, q1)
         | None \<Rightarrow>
             (let (r', ls) = take_first deq [0..<unat (num_user_lanes q1)] (user_lanes q1)
              in (r', q1\<lparr>user_lanes := ls\<rparr>)))"

definition try_drop_oldest_user_lane ::
  "('q \<Rightarrow> 'n option \<times> 'q) \<Rightarrow> ('q, 'n) multi_lane \<Rightarrow> 'n option \<times> ('q, 'n) multi_lane"
where
  "try_drop_oldest_user_lane deq q =
     (let (r, ls) = take_first deq [0..<unat (num_user_lanes q)] (user_lanes q)
      in (r, q\<lparr>user_lanes := ls\<rparr>))"

definition try_drop_from_lowest_user_lane ::
  "('q \<Rightarrow> 'n option \<times> 'q) \<Rightarrow> ('q, 'n) multi_lane \<Rightarrow> 'n option \<times> ('q, 'n) multi_lane"
where
  "try_drop_from_lowest_user_lane deq q =
     (let (r, ls) = take_first deq (rev [0..<unat (num_user_lanes q)]) (user_lanes q)
      in (r, q\<lparr>user_lanes := ls\<rparr>))"

definition free_node :: "'n option \<Rightarrow> ('q, 'n) multi_lane \<Rightarrow> ('q, 'n) multi_lane" where
  "free_node p q = (case p of None \<Rightarrow> q | Some n \<Rightarrow> q\<lparr>freed := freed q @ [n]\<rparr>)"

definition set_pending_free :: "'n \<Rightarrow> ('q, 'n) multi_lane \<Rightarrow> ('q, 'n) multi_lane" where
  "set_pending_free node q =
     (let q1 = (if pending_count q = kPendingFreeRingSize
                then free_node (pending_ring q ! pending_write q) q
                else q\<lparr>pending_count := pending_count q + 1\<rparr>)
      in q1\<lparr>pending_ring := (pending_ring q1)[pending_write q1 := Some node],
            pending_write := (pending_write q1 + 1) mod kPendingFreeRingSize\<rparr>)"

fun drain_from :: "nat \<Rightarrow> nat \<Rightarrow> ('q, 'n) multi_lane \<Rightarrow> ('q, 'n) multi_lane" where
  "drain_from idx 0 q = q"
| "drain_from idx (Suc k) q =
     drain_from ((idx + 1) mod kPendingFreeRingSize) k (free_node (pending_ring q ! idx) q)"

definition drain_pending_free :: "('q, 'n) multi_lane \<Rightarrow> ('q, 'n) multi_lane" where
  "drain_pending_free q =
     (let idx = (pending_write q + kPendingFreeRingSize - pending_count q) mod kPendingFreeRingSize
      in (drain_from idx (pending_count q) q)\<lparr>pending_count := 0, pending_write := 0\<rparr>)"

definition release_pending_free :: "('q, 'n) multi_lane \<Rightarrow> 'n option \<times> ('q, 'n) multi_lane" where
  "release_pending_free q =
     (if pending_count q = 0 then (None, q)
      else (let idx = (pending_write q + kPendingFreeRingSize - pending_count q) mod kPendingFreeRingSize
            in (pending_ring q ! idx, q\<lparr>pending_count := pending_count q - 1\<rparr>)))"

definition ml_empty :: "('q \<Rightarrow> int) \<Rightarrow> ('q, 'n) multi_lane \<Rightarrow> bool" where
  "ml_empty cnt q \<longleftrightarrow>
     cnt (system_lane q) = 0 \<and>
     list_all (\<lambda>i. cnt (user_lanes q ! i) = 0) [0..<unat (num_user_lanes q)]"

definition total_depth :: "('q \<Rightarrow> int) \<Rightarrow> ('q, 'n) multi_lane \<Rightarrow> int" where
  "total_depth cnt q =
     cnt (system_lane q) + (\<Sum>i\<leftarrow>[0..<unat (num_user_lanes q)]. cnt (user_lanes q ! i))"

definition lane_depth :: "('q \<Rightarrow> int) \<Rightarrow> u8 \<Rightarrow> ('q, 'n) multi_lane \<Rightarrow> int" where
  "lane_depth cnt lane_idx q =
     (if lane_idx = kSystemLaneSentinel then cnt (system_lane q)
      else cnt (user_lanes q ! unat lane_idx))"

definition set_num_user_lanes :: "u8 \<Rightarrow> ('q, 'n) multi_lane \<Rightarrow> ('q, 'n) multi_lane" where
  "set_num_user_lanes n q =
     q\<lparr>num_user_lanes := (if n \<ge> 1 \<and> unat n \<le> kMaxUserLanes then n else 1)\<rparr>"

section \<open>Specification over lists\<close>

text \<open>
  The specification: the system lane and the active user lanes as lists, in service order.
\<close>

fun first_nonempty :: "nat list \<Rightarrow> 'n list list \<Rightarrow> nat option" where
  "first_nonempty [] xss = None"
| "first_nonempty (i # is) xss = (if xss ! i = [] then first_nonempty is xss else Some i)"

definition spec_take :: "nat list \<Rightarrow> 'n list list \<Rightarrow> 'n option \<times> 'n list list" where
  "spec_take is xss =
     (case first_nonempty is xss of
        None \<Rightarrow> (None, xss)
      | Some i \<Rightarrow> (Some (hd (xss ! i)), xss[i := tl (xss ! i)]))"

definition spec_dequeue :: "nat \<Rightarrow> 'n list \<times> 'n list list \<Rightarrow> 'n option \<times> 'n list \<times> 'n list list" where
  "spec_dequeue k s =
     (case s of
        ([], xss) \<Rightarrow> (let (r, yss) = spec_take [0..<k] xss in (r, [], yss))
      | (x # xs, xss) \<Rightarrow> (Some x, xs, xss))"

definition lanes_hold ::
  "('q \<Rightarrow> 'n list \<Rightarrow> bool) \<Rightarrow> ('q, 'n) multi_lane \<Rightarrow> 'n list \<times> 'n list list \<Rightarrow> bool"
where
  "lanes_hold holds q s \<longleftrightarrow>
     holds (system_lane q) (fst s) \<and> list_all2 holds (user_lanes q) (snd s) \<and>
     length (user_lanes q) = kMaxUserLanes \<and>
     1 \<le> unat (num_user_lanes q) \<and> unat (num_user_lanes q) \<le> kMaxUserLanes"

lemma spec_take_Cons:
  "spec_take (i # is) xss =
     (if xss ! i = [] then spec_take is xss else (Some (hd (xss ! i)), xss[i := tl (xss ! i)]))"
  by (simp add: spec_take_def)

lemma first_nonempty_None: "first_nonempty is xss = None \<longleftrightarrow> (\<forall>i\<in>set is. xss ! i = [])"
  by (induction "is") auto

lemma first_nonempty_Some:
  "first_nonempty is xss = Some i \<Longrightarrow> i \<in> set is \<and> xss ! i \<noteq> []"
  by (induction "is") (auto split: if_splits)

lemma first_nonempty_least:
  "first_nonempty [k..<m] xss = Some i \<Longrightarrow> k \<le> j \<Longrightarrow> j < i \<Longrightarrow> xss ! j = []"
proof (induction "m - k" arbitrary: k)
  case 0
  then show ?case by simp
next
  case (Suc d)
  then have "[k..<m] = k # [Suc k..<m]" by (simp add: upt_conv_Cons)
  then show ?case
    using Suc.prems Suc.hyps(1) [of "Suc k"] Suc.hyps(2) by (cases "j = k") (auto split: if_splits)
qed

section \<open>Refinement by any FIFO lane\<close>

context fifo_lane
begin

lemma take_first_refines:
  assumes "list_all2 holds ls xss" and "\<forall>i\<in>set is. i < length ls"
  shows "fst (take_first deq is ls) = fst (spec_take is xss) \<and>
    list_all2 holds (snd (take_first deq is ls)) (snd (spec_take is xss))"
  using assms
proof (induction "is" arbitrary: ls)
  case Nil
  then show ?case by (simp add: spec_take_def)
next
  case (Cons i "is")
  have hi: "holds (ls ! i) (xss ! i)" using Cons.prems by (simp add: list_all2_nthD)
  obtain r l where rl: "deq (ls ! i) = (r, l)" by force
  show ?case
  proof (cases "xss ! i")
    case Nil
    then have "r = None" and "holds l (xss ! i)" using deq_nil [of "ls ! i"] hi rl by simp_all
    then have "list_all2 holds (ls[i := l]) (xss[i := xss ! i])"
      using Cons.prems by (intro list_all2_update_cong) simp_all
    then have "list_all2 holds (ls[i := l]) xss" by simp
    then show ?thesis
      using Cons.IH [of "ls[i := l]"] Cons.prems rl \<open>r = None\<close> Nil by (simp add: spec_take_Cons)
  next
    case (Cons x xs)
    then have "r = Some x" and "holds l xs" using deq_cons [of "ls ! i" x xs] hi rl by simp_all
    then show ?thesis
      using Cons.prems rl Cons by (simp add: spec_take_Cons list_all2_update_cong)
  qed
qed

lemma ml_enqueue_refines:
  assumes "lanes_hold holds q (sys, us)"
  shows "n \<notin> set sys \<Longrightarrow> lanes_hold holds (ml_enqueue enq n kSystemLaneSentinel q) (sys @ [n], us)"
    and "unat i < kMaxUserLanes \<Longrightarrow> n \<notin> set (us ! unat i) \<Longrightarrow>
      lanes_hold holds (ml_enqueue enq n i q) (sys, us[unat i := us ! unat i @ [n]])"
proof -
  show "n \<notin> set sys \<Longrightarrow> lanes_hold holds (ml_enqueue enq n kSystemLaneSentinel q) (sys @ [n], us)"
    using assms by (simp add: lanes_hold_def ml_enqueue_def enq_holds)
  assume i: "unat i < kMaxUserLanes" and n: "n \<notin> set (us ! unat i)"
  then have ns: "i \<noteq> kSystemLaneSentinel" by (auto simp: kSystemLaneSentinel_def kMaxUserLanes_def)
  have "holds (user_lanes q ! unat i) (us ! unat i)"
    using assms i by (auto simp: lanes_hold_def list_all2_nthD)
  then have "list_all2 holds ((user_lanes q)[unat i := enq n (user_lanes q ! unat i)])
      (us[unat i := us ! unat i @ [n]])"
    using assms n by (intro list_all2_update_cong enq_holds) (simp_all add: lanes_hold_def)
  then show "lanes_hold holds (ml_enqueue enq n i q) (sys, us[unat i := us ! unat i @ [n]])"
    using assms ns by (simp add: lanes_hold_def ml_enqueue_def)
qed

lemma ml_dequeue_refines:
  assumes "lanes_hold holds q s"
  shows "fst (ml_dequeue deq q) = fst (spec_dequeue (unat (num_user_lanes q)) s) \<and>
    lanes_hold holds (snd (ml_dequeue deq q)) (snd (spec_dequeue (unat (num_user_lanes q)) s))"
proof -
  obtain sys us where s: "s = (sys, us)" by force
  obtain r l where rl: "deq (system_lane q) = (r, l)" by force
  have h: "holds (system_lane q) sys" "list_all2 holds (user_lanes q) us"
    and len: "length (user_lanes q) = kMaxUserLanes" "unat (num_user_lanes q) \<le> kMaxUserLanes"
    using assms s by (simp_all add: lanes_hold_def)
  show ?thesis
  proof (cases sys)
    case Nil
    then have r: "r = None" "holds l []" using deq_nil [of "system_lane q"] h rl by simp_all
    obtain r' ls where t: "take_first deq [0..<unat (num_user_lanes q)] (user_lanes q) = (r', ls)"
      by force
    have "r' = fst (spec_take [0..<unat (num_user_lanes q)] us)"
      and hu: "list_all2 holds ls (snd (spec_take [0..<unat (num_user_lanes q)] us))"
      using take_first_refines [OF h(2), of "[0..<unat (num_user_lanes q)]"] len t by simp_all
    moreover have "length ls = kMaxUserLanes"
      using list_all2_lengthD [OF hu] list_all2_lengthD [OF h(2)] len
      by (auto simp: spec_take_def split: option.splits)
    ultimately show ?thesis
      using assms rl r t Nil s
      by (cases "spec_take [0..<unat (num_user_lanes q)] us")
        (simp add: ml_dequeue_def spec_dequeue_def lanes_hold_def)
  next
    case (Cons x xs)
    then have "r = Some x" "holds l xs" using deq_cons [of "system_lane q" x xs] h rl by simp_all
    then show ?thesis
      using assms rl Cons s by (simp add: ml_dequeue_def spec_dequeue_def lanes_hold_def)
  qed
qed

lemma cnt_zero_iff: "holds l xs \<Longrightarrow> cnt l = 0 \<longleftrightarrow> xs = []"
  by (simp add: cnt_holds)

lemma lane_cnt:
  assumes "lanes_hold holds q s" and "i < unat (num_user_lanes q)"
  shows "cnt (user_lanes q ! i) = int (length (snd s ! i))"
proof (rule cnt_holds)
  show "holds (user_lanes q ! i) (snd s ! i)"
    using assms by (auto simp: lanes_hold_def list_all2_nthD)
qed

lemma ml_empty_refines:
  assumes "lanes_hold holds q s"
  shows "ml_empty cnt q \<longleftrightarrow> fst (spec_dequeue (unat (num_user_lanes q)) s) = None"
proof (cases s)
  case (Pair sys us)
  have "cnt (system_lane q) = 0 \<longleftrightarrow> sys = []"
    using assms Pair by (simp add: lanes_hold_def cnt_zero_iff)
  moreover have "list_all (\<lambda>i. cnt (user_lanes q ! i) = 0) [0..<unat (num_user_lanes q)] \<longleftrightarrow>
      first_nonempty [0..<unat (num_user_lanes q)] us = None"
    using lane_cnt [OF assms] Pair by (auto simp: list_all_iff first_nonempty_None)
  ultimately show ?thesis
    using Pair by (cases sys)
      (auto simp: ml_empty_def spec_dequeue_def spec_take_def split: option.splits prod.splits)
qed

end

text \<open>Lists are the simplest lane.\<close>

definition lane_enq :: "'n \<Rightarrow> 'n list \<Rightarrow> 'n list" where
  "lane_enq n xs = xs @ [n]"

definition lane_deq :: "'n list \<Rightarrow> 'n option \<times> 'n list" where
  "lane_deq xs = (case xs of [] \<Rightarrow> (None, []) | y # ys \<Rightarrow> (Some y, ys))"

definition lane_cnt_of :: "'n list \<Rightarrow> int" where
  "lane_cnt_of xs = int (length xs)"

interpretation list_lane: fifo_lane lane_enq lane_deq lane_cnt_of "(=)"
  by unfold_locales (auto simp: lane_enq_def lane_deq_def lane_cnt_of_def)

text \<open>
  C11. Strict priority of the lanes, on the pointer queues: a dequeue returns the oldest node
  of the system lane, else the oldest node of the first non-empty user lane, removes only
  that node, and returns nothing exactly when the queue reports itself empty.
\<close>

theorem multi_lane_strict_priority:
  assumes "lanes_hold mpsc_holds q (sys, us)"
  shows "let (r, q') = ml_dequeue mpsc_try_dequeue q in
     (case r of
        None \<Rightarrow> ml_empty count q \<and> sys = [] \<and> (\<forall>i < unat (num_user_lanes q). us ! i = []) \<and>
                lanes_hold mpsc_holds q' (sys, us)
      | Some n \<Rightarrow> \<not> ml_empty count q \<and>
          ((sys \<noteq> [] \<and> n = hd sys \<and> lanes_hold mpsc_holds q' (tl sys, us)) \<or>
           (sys = [] \<and> (\<exists>i < unat (num_user_lanes q). us ! i \<noteq> [] \<and> (\<forall>j < i. us ! j = []) \<and>
              n = hd (us ! i) \<and> lanes_hold mpsc_holds q' ([], us[i := tl (us ! i)])))))"
proof -
  let ?k = "unat (num_user_lanes q)"
  obtain r q' where d: "ml_dequeue mpsc_try_dequeue q = (r, q')" by force
  note ref = mpsc.ml_dequeue_refines [OF assms] mpsc.ml_empty_refines [OF assms]
  show ?thesis
  proof (cases sys)
    case (Cons x xs)
    then show ?thesis using ref d by (simp add: spec_dequeue_def)
  next
    case Nil
    show ?thesis
    proof (cases "first_nonempty [0..<?k] us")
      case None
      moreover from this have "\<forall>i < ?k. us ! i = []" by (simp add: first_nonempty_None)
      ultimately show ?thesis
        using ref d Nil by (simp add: spec_dequeue_def spec_take_def)
    next
      case (Some i)
      then have "i < ?k" "us ! i \<noteq> []" "\<forall>j < i. us ! j = []"
        using first_nonempty_Some [OF Some] first_nonempty_least [OF Some] by auto
      then show ?thesis
        using ref d Nil Some by (auto simp: spec_dequeue_def spec_take_def)
    qed
  qed
qed

definition lanes_demo :: "(nat mpsc, nat) multi_lane" where
  "lanes_demo =
     ml_enqueue mpsc_enqueue 7 1 (set_num_user_lanes 4 (multi_lane_init (mpsc_init (\<lambda>_. None))))"

lemma multi_lane_init_holds:
  "lanes_hold mpsc_holds (set_num_user_lanes n (multi_lane_init (mpsc_init links))) ([], replicate 8 [])"
  by (auto simp: lanes_hold_def set_num_user_lanes_def multi_lane_init_def kMaxUserLanes_def mpsc_init_holds
      list_all2_conv_all_nth word_le_nat_alt)

lemma lanes_demo_holds: "lanes_hold mpsc_holds lanes_demo ([], (replicate 8 [])[1 := [7]])"
  using mpsc.ml_enqueue_refines(2) [OF multi_lane_init_holds, where i = 1 and n = 7]
  by (simp add: lanes_demo_def kMaxUserLanes_def)

theorem multi_lane_strict_priority_witness:
  "lanes_hold mpsc_holds lanes_demo ([], (replicate 8 [])[1 := [7]]) \<and>
   fst (ml_dequeue mpsc_try_dequeue lanes_demo) = Some 7"
proof -
  define us where "us = (replicate 8 [])[1 := [7 :: nat]]"
  have k: "unat (num_user_lanes lanes_demo) = 4"
    by (simp add: lanes_demo_def ml_enqueue_def set_num_user_lanes_def kMaxUserLanes_def
        kSystemLaneSentinel_def word_le_nat_alt)
  have u: "us ! i = (if i = 1 then [7] else [])" if "i < 4" for i
    using that unfolding us_def by (subst nth_list_update) auto
  obtain r q' where d: "ml_dequeue mpsc_try_dequeue lanes_demo = (r, q')" by force
  have h: "lanes_hold mpsc_holds lanes_demo ([], us)" using lanes_demo_holds us_def by simp
  note p = multi_lane_strict_priority [OF h, unfolded d k Let_def prod.case]
  show ?thesis
  proof (cases r)
    case None
    then have "us ! 1 = []" using p by simp
    then show ?thesis using u [of 1] by simp
  next
    case (Some n)
    then obtain i where "i < 4" "us ! i \<noteq> []" "n = hd (us ! i)" using p by auto
    then show ?thesis using u [of i] Some d lanes_demo_holds by (simp split: if_splits)
  qed
qed

section \<open>Deferred deallocation\<close>

text \<open>The pending nodes, oldest first, and the invariant of the ring.\<close>

definition ring_slot :: "('q, 'n) multi_lane \<Rightarrow> nat \<Rightarrow> 'n option" where
  "ring_slot q k =
     pending_ring q ! ((pending_write q + kPendingFreeRingSize - pending_count q + k) mod kPendingFreeRingSize)"

definition ring_holds :: "('q, 'n) multi_lane \<Rightarrow> 'n list \<Rightarrow> bool" where
  "ring_holds q ns \<longleftrightarrow>
     length (pending_ring q) = kPendingFreeRingSize \<and> pending_write q < kPendingFreeRingSize \<and>
     pending_count q = length ns \<and> length ns \<le> kPendingFreeRingSize \<and>
     (\<forall>k < length ns. ring_slot q k = Some (ns ! k))"

lemma ring_index_eq:
  assumes "(w :: nat) < 8"
  shows "(w + j) mod 8 = w \<longleftrightarrow> j mod 8 = 0"
  using assms mod_eq_dvd_iff_nat [of w "w + j" 8] by (simp add: dvd_eq_mod_eq_0)

lemma ring_index_shift:
  assumes "(w :: nat) < 8" and "c < 8"
  shows "(Suc w mod 8 + 8 - Suc c + k) mod 8 = (w + (8 - c + k)) mod 8"
proof (cases "w = 7")
  case True
  have "(w + (8 - c + k)) mod 8 = ((7 - c + k) + 8) mod 8" using True assms(2) by simp
  also have "\<dots> = (7 - c + k) mod 8" by (rule mod_add_self2)
  finally show ?thesis using True assms(2) by simp
next
  case False
  then have "Suc w mod 8 + 8 - Suc c + k = w + (8 - c + k)" using assms by simp
  then show ?thesis by (rule arg_cong)
qed

lemma set_pending_free_ring:
  assumes "ring_holds q ns"
  shows "ring_holds (set_pending_free n q)
           (if length ns = kPendingFreeRingSize then tl ns @ [n] else ns @ [n]) \<and>
         freed (set_pending_free n q) =
           freed q @ (if length ns = kPendingFreeRingSize then [hd ns] else [])"
proof (cases "length ns = kPendingFreeRingSize")
  case True
  define w where "w = pending_write q"
  have w: "w < 8" and len: "length (pending_ring q) = 8" and c: "pending_count q = 8" "length ns = 8"
    and slots: "k < 8 \<Longrightarrow> pending_ring q ! ((w + k) mod 8) = Some (ns ! k)" for k
    using assms True by (auto simp: ring_holds_def ring_slot_def kPendingFreeRingSize_def w_def)
  have "ns \<noteq> []" using c by auto
  then have oldest: "pending_ring q ! w = Some (hd ns)"
    using slots [of 0] w by (simp add: hd_conv_nth)
  have "(pending_ring q)[w := Some n] ! ((Suc w mod 8 + k) mod 8) = Some ((tl ns @ [n]) ! k)"
    if "k < 8" for k
  proof (cases "k = 7")
    case True
    then show ?thesis using w len c by (simp add: nth_append mod_simps)
  next
    case False
    then have "(w + Suc k) mod 8 \<noteq> w" using ring_index_eq [OF w, of "Suc k"] that by simp
    then show ?thesis using False that w len c slots [of "Suc k"] by (simp add: nth_append nth_tl mod_simps)
  qed
  then show ?thesis
    using True w len c oldest assms
    by (simp add: ring_holds_def ring_slot_def set_pending_free_def free_node_def
        kPendingFreeRingSize_def w_def)
next
  case False
  define w where "w = pending_write q"
  define c where "c = length ns"
  have w: "w < 8" and len: "length (pending_ring q) = 8" and c: "pending_count q = c" "c < 8"
    and slots: "k < c \<Longrightarrow> pending_ring q ! ((w + 8 - c + k) mod 8) = Some (ns ! k)" for k
    using assms False by (auto simp: ring_holds_def ring_slot_def kPendingFreeRingSize_def w_def c_def)
  have "(pending_ring q)[w := Some n] ! ((Suc w mod 8 + 8 - Suc c + k) mod 8) = Some ((ns @ [n]) ! k)"
    if "k < Suc c" for k
  proof -
    have idx: "(Suc w mod 8 + 8 - Suc c + k) mod 8 = (w + (8 - c + k)) mod 8"
      using w c(2) by (rule ring_index_shift)
    show ?thesis
    proof (cases "k = c")
      case True
      then show ?thesis unfolding idx using w len c by (simp add: c_def)
    next
      case False
      then have "(w + (8 - c + k)) mod 8 \<noteq> w" using ring_index_eq [OF w, of "8 - c + k"] that c by simp
      then show ?thesis unfolding idx using False that slots [of k] c by (simp add: nth_append c_def add.assoc)
    qed
  qed
  then show ?thesis
    using False w len c assms
    by (simp add: ring_holds_def ring_slot_def set_pending_free_def kPendingFreeRingSize_def w_def c_def)
qed

lemma drain_from_ring:
  assumes "length (pending_ring q) = 8" and "\<forall>k < c. pending_ring q ! ((i + k) mod 8) = Some (ns ! k)"
    and "i < 8" and "length ns = c"
  shows "drain_from i c q = q\<lparr>freed := freed q @ ns\<rparr>"
  using assms
proof (induction c arbitrary: i q ns)
  case 0
  then show ?case by simp
next
  case (Suc c)
  then obtain n ms where ns: "ns = n # ms" "length ms = c" by (cases ns) auto
  have "pending_ring q ! i = Some n" using Suc.prems(2,3) ns(1) by (auto dest: spec [of _ 0])
  moreover have "\<forall>k < c. pending_ring q ! ((Suc i mod 8 + k) mod 8) = Some (ms ! k)"
    using Suc.prems(2) ns(1) by (auto simp: mod_simps dest: spec [of _ "Suc _"])
  ultimately show ?case
    using Suc.IH [of "q\<lparr>freed := freed q @ [n]\<rparr>" "Suc i mod 8" ms] Suc.prems(1) ns
    by (simp add: free_node_def kPendingFreeRingSize_def)
qed

lemma drain_pending_free_ring:
  assumes "ring_holds q ns"
  shows "ring_holds (drain_pending_free q) [] \<and> freed (drain_pending_free q) = freed q @ ns"
proof -
  let ?i = "(pending_write q + 8 - pending_count q) mod 8"
  have "drain_from ?i (length ns) q = q\<lparr>freed := freed q @ ns\<rparr>"
    using assms
    by (intro drain_from_ring) (auto simp: ring_holds_def ring_slot_def kPendingFreeRingSize_def mod_simps)
  then show ?thesis
    using assms by (simp add: ring_holds_def drain_pending_free_def kPendingFreeRingSize_def)
qed

lemma release_pending_free_ring:
  assumes "ring_holds q ns"
  shows "fst (release_pending_free q) = (if ns = [] then None else Some (hd ns)) \<and>
    ring_holds (snd (release_pending_free q)) (tl ns)"
proof (cases ns)
  case Nil
  then show ?thesis using assms by (simp add: ring_holds_def release_pending_free_def)
next
  case (Cons n ms)
  have c: "pending_count q = Suc (length ms)" "length ms < 8"
    using assms Cons by (simp_all add: ring_holds_def kPendingFreeRingSize_def)
  have "ring_slot q 0 = Some n" using assms Cons by (auto simp: ring_holds_def dest: spec [of _ 0])
  moreover have "ring_slot (q\<lparr>pending_count := length ms\<rparr>) k = Some (ms ! k)" if "k < length ms" for k
  proof -
    have "ring_slot q (Suc k) = Some (ms ! k)"
      using assms Cons that by (auto simp: ring_holds_def dest: spec [of _ "Suc k"])
    moreover have "pending_write q + 8 - Suc (length ms) + Suc k = pending_write q + 8 - length ms + k"
      using c by simp
    ultimately show ?thesis using c by (simp add: ring_slot_def kPendingFreeRingSize_def)
  qed
  ultimately show ?thesis
    using assms Cons c by (simp add: ring_holds_def release_pending_free_def ring_slot_def Let_def)
qed

text \<open>
  Popped nodes are never freed early and never twice. After any sequence of popped nodes
  the last eight of them are still allocated, all earlier ones have been freed exactly once
  and in order, and draining the ring frees the rest.
\<close>

theorem pending_free_exactly_once:
  "let q = fold set_pending_free ns (multi_lane_init l) in
   freed q = take (length ns - 8) ns \<and> freed (drain_pending_free q) = ns"
proof -
  have run: "ring_holds (fold set_pending_free ns (multi_lane_init l)) (drop (length ns - 8) ns) \<and>
      freed (fold set_pending_free ns (multi_lane_init l)) = take (length ns - 8) ns"
  proof (induction ns rule: rev_induct)
    case Nil
    show ?case by (simp add: ring_holds_def multi_lane_init_def kPendingFreeRingSize_def)
  next
    case (snoc n ns)
    let ?q = "fold set_pending_free ns (multi_lane_init l)"
    have h: "ring_holds ?q (drop (length ns - 8) ns)" using snoc by simp
    note s = set_pending_free_ring [OF h, of n]
    show ?case
    proof (cases "length ns < 8")
      case True
      then show ?thesis using s snoc by (simp add: kPendingFreeRingSize_def)
    next
      case False
      then have "length (drop (length ns - 8) ns) = 8" by simp
      moreover have "take (Suc (length ns - 8)) ns = take (length ns - 8) ns @ [hd (drop (length ns - 8) ns)]"
        using False by (simp add: take_hd_drop)
      moreover have "length ns - 7 = Suc (length ns - 8)" using False by simp
      ultimately show ?thesis
        using s snoc False by (simp add: kPendingFreeRingSize_def drop_Suc tl_drop)
    qed
  qed
  then show ?thesis
    using drain_pending_free_ring [of "fold set_pending_free ns (multi_lane_init l)"]
    by (metis append_take_drop_id)
qed

end
