(* ===== verification/Overflow_Queue.thy ===== *)
theory Overflow_Queue
  imports Multi_Lane
begin

text \<open>
  \<open>include/hpactor/mailbox/overflow_queue.hpp\<close>: the bounded queue messages spill into when a
  mailbox is full. Every operation holds the queue's mutex, so each is one atomic step.
\<close>

record 'n overflow_queue =
  oq_queue :: "'n list"
  oq_max_depth :: u32
  total_pushed :: u64
  total_popped :: u64
  total_lost :: u64

definition overflow_init :: "u32 \<Rightarrow> 'n overflow_queue" where
  "overflow_init md =
     \<lparr>oq_queue = [], oq_max_depth = md, total_pushed = 0, total_popped = 0, total_lost = 0\<rparr>"

definition set_max_depth :: "u32 \<Rightarrow> 'n overflow_queue \<Rightarrow> 'n overflow_queue" where
  "set_max_depth md q = q\<lparr>oq_max_depth := md\<rparr>"

definition oq_try_push :: "'n \<Rightarrow> 'n overflow_queue \<Rightarrow> bool \<times> 'n overflow_queue" where
  "oq_try_push msg q =
     (let q1 = (if oq_max_depth q > 0 \<and> length (oq_queue q) \<ge> unat (oq_max_depth q)
                then (if oq_queue q \<noteq> []
                      then q\<lparr>oq_queue := tl (oq_queue q), total_lost := total_lost q + 1\<rparr> else q)
                else q)
      in (True, q1\<lparr>oq_queue := oq_queue q1 @ [msg], total_pushed := total_pushed q1 + 1\<rparr>))"

definition oq_try_pop :: "'n overflow_queue \<Rightarrow> 'n option \<times> 'n overflow_queue" where
  "oq_try_pop q =
     (case oq_queue q of
        [] \<Rightarrow> (None, q)
      | m # ms \<Rightarrow> (Some m, q\<lparr>oq_queue := ms, total_popped := total_popped q + 1\<rparr>))"

definition oq_empty :: "'n overflow_queue \<Rightarrow> bool" where
  "oq_empty q \<longleftrightarrow> oq_queue q = []"

definition oq_depth :: "'n overflow_queue \<Rightarrow> u32" where
  "oq_depth q = of_nat (length (oq_queue q))"

text \<open>An unbounded overflow queue is a FIFO lane like any other.\<close>

definition oq_holds :: "'n overflow_queue \<Rightarrow> 'n list \<Rightarrow> bool" where
  "oq_holds q ms \<longleftrightarrow> oq_max_depth q = 0 \<and> oq_queue q = ms"

interpretation oq: fifo_lane "\<lambda>m q. snd (oq_try_push m q)" oq_try_pop
  "\<lambda>q. int (length (oq_queue q))" oq_holds
  by unfold_locales (auto simp: oq_holds_def oq_try_push_def oq_try_pop_def)

text \<open>
  The books of the queue: what was pushed has been popped, evicted or is still queued, and
  a positive bound is respected.
\<close>

definition oq_inv :: "'n overflow_queue \<Rightarrow> bool" where
  "oq_inv q \<longleftrightarrow>
     total_pushed q = total_popped q + total_lost q + of_nat (length (oq_queue q)) \<and>
     (oq_max_depth q > 0 \<longrightarrow> length (oq_queue q) \<le> unat (oq_max_depth q))"

lemma oq_init_inv: "oq_inv (overflow_init md)"
  by (simp add: oq_inv_def overflow_init_def)

lemma oq_try_push_inv [hpa_inv]: "oq_inv q \<Longrightarrow> oq_inv (snd (oq_try_push m q))"
  by (cases "oq_queue q") (auto simp: oq_inv_def oq_try_push_def word_gt_0 word_gt_0_no
      unat_gt_0 Suc_le_eq)

lemma oq_try_pop_inv [hpa_inv]: "oq_inv q \<Longrightarrow> oq_inv (snd (oq_try_pop q))"
  by (cases "oq_queue q") (auto simp: oq_inv_def oq_try_pop_def)

fun oq_run :: "'n list \<Rightarrow> 'n overflow_queue \<Rightarrow> 'n overflow_queue" where
  "oq_run [] q = q"
| "oq_run (m # ms) q = oq_run ms (snd (oq_try_push m q))"

text \<open>
  A bounded overflow queue keeps the newest messages: after any pushes into a queue
  created with depth limit \<open>md > 0\<close> it holds exactly the last \<open>md\<close> of them in order.
\<close>

theorem overflow_keeps_newest:
  assumes "md > 0"
  shows "oq_queue (oq_run ms (overflow_init md)) = drop (length ms - unat md) ms"
proof -
  have md: "unat md > 0" using assms by (simp add: word_less_nat_alt)
  have push: "oq_max_depth (snd (oq_try_push m q)) = oq_max_depth q"
    "oq_max_depth q = md \<Longrightarrow> oq_queue (snd (oq_try_push m q)) =
       (if length (oq_queue q) \<ge> unat md then tl (oq_queue q) @ [m] else oq_queue q @ [m])"
    for m :: 'a and q
    using assms md by (auto simp: oq_try_push_def)
  have run: "oq_run (ms @ [m]) q = snd (oq_try_push m (oq_run ms q))" for m :: 'a and ms q
    by (induction ms arbitrary: q) simp_all
  have "oq_max_depth (oq_run ms (overflow_init md)) = md \<and>
      oq_queue (oq_run ms (overflow_init md)) = drop (length ms - unat md) ms"
  proof (induction ms rule: rev_induct)
    case Nil
    show ?case by (simp add: overflow_init_def)
  next
    case (snoc m ms)
    then show ?case
      using md by (auto simp: run push tl_drop drop_Suc Suc_diff_le not_le simp flip: drop_Suc)
  qed
  then show ?thesis by simp
qed

theorem overflow_keeps_newest_witness:
  "(0 :: u32) < 2 \<and> oq_queue (oq_run [10, 20, 30 :: nat] (overflow_init 2)) = [20, 30]"
  using overflow_keeps_newest [of 2 "[10, 20, 30 :: nat]"] by simp

end
