(* ===== verification/Rate_Limiter.thy ===== *)
theory Rate_Limiter
  imports HPA_Prelude
begin

text \<open>
  \<open>include/hpactor/mailbox/actor_rate_limiter.hpp\<close>: the token bucket a mailbox consumer and
  the per-sender admission policy consult. Token counts are \<open>double\<close>s, modelled as reals.
\<close>

record rate_limiter =
  tokens :: real
  last_refill_ns :: u64
  rate_per_ns :: real
  burst :: u32
  max_tokens :: real
  enabled :: bool

definition rate_limiter_init :: rate_limiter where
  "rate_limiter_init =
     \<lparr>tokens = 0, last_refill_ns = 0, rate_per_ns = 0, burst = 0, max_tokens = 0, enabled = False\<rparr>"

definition configure :: "real \<Rightarrow> u32 \<Rightarrow> rate_limiter \<Rightarrow> rate_limiter" where
  "configure rate_per_sec b l =
     (if rate_per_sec \<le> 0
      then l\<lparr>enabled := False, rate_per_ns := 0, burst := 0, max_tokens := 0\<rparr>
      else l\<lparr>enabled := True, rate_per_ns := rate_per_sec / 1000000000, burst := b,
             max_tokens := real (unat b), tokens := real (unat b), last_refill_ns := 0\<rparr>)"

definition refill :: "u64 \<Rightarrow> rate_limiter \<Rightarrow> rate_limiter" where
  "refill now_ns l =
     (if last_refill_ns l = 0 then l\<lparr>last_refill_ns := now_ns, tokens := max_tokens l\<rparr>
      else if now_ns \<le> last_refill_ns l then l
      else (let elapsed = now_ns - last_refill_ns l;
                earned = real (unat elapsed) * rate_per_ns l;
                new_tokens = tokens l + earned
            in l\<lparr>tokens := (if new_tokens > max_tokens l then max_tokens l else new_tokens),
                 last_refill_ns := now_ns\<rparr>))"

definition try_consume :: "u64 \<Rightarrow> rate_limiter \<Rightarrow> bool \<times> rate_limiter" where
  "try_consume now_ns l =
     (if \<not> enabled l then (True, l)
      else (let l1 = refill now_ns l
            in if tokens l1 \<ge> 1 then (True, l1\<lparr>tokens := tokens l1 - 1\<rparr>) else (False, l1)))"

definition time_until_next_token_ns :: "rate_limiter \<Rightarrow> u64" where
  "time_until_next_token_ns l =
     (if \<not> enabled l then - 1
      else if tokens l \<ge> 1 then 0
      else if rate_per_ns l \<le> 0 then - 1
      else of_int \<lfloor>(1 - tokens l) / rate_per_ns l\<rfloor>)"

definition configured_rate :: "rate_limiter \<Rightarrow> real" where
  "configured_rate l = (if \<not> enabled l then 0 else rate_per_ns l * 1000000000)"

section \<open>Rate bound\<close>

declare of_nat_unat [simp del]

text \<open>
  \<open>limiter_ok\<close> is the type invariant; \<open>grants\<close> counts the successful calls of a run over
  the given clock readings.
\<close>

definition limiter_ok :: "rate_limiter \<Rightarrow> bool" where
  "limiter_ok l \<longleftrightarrow> enabled l \<and> rate_per_ns l > 0 \<and> 0 \<le> tokens l \<and> tokens l \<le> max_tokens l \<and>
     max_tokens l = real (unat (burst l))"

lemma configure_ok: "rate_per_sec > 0 \<Longrightarrow> limiter_ok (configure rate_per_sec b l)"
  by (simp add: limiter_ok_def configure_def)

lemma refill_ok [hpa_inv]: "limiter_ok l \<Longrightarrow> limiter_ok (refill now l)"
  by (auto simp: limiter_ok_def refill_def Let_def)

lemma try_consume_ok [hpa_inv]: "limiter_ok l \<Longrightarrow> limiter_ok (snd (try_consume now l))"
  using refill_ok [of l now] by (auto simp: try_consume_def Let_def) (auto simp: limiter_ok_def)

fun limiter_run :: "u64 list \<Rightarrow> rate_limiter \<Rightarrow> rate_limiter" where
  "limiter_run [] l = l"
| "limiter_run (t # ts) l = limiter_run ts (snd (try_consume t l))"

fun grants :: "u64 list \<Rightarrow> rate_limiter \<Rightarrow> nat" where
  "grants [] l = 0"
| "grants (t # ts) l =
     (let (ok, l') = try_consume t l in (if ok then 1 else 0) + grants ts l')"

text \<open>
  One call: what is granted is paid for by the tokens held and by the time since the last
  refill.
\<close>

lemma try_consume_pays:
  assumes "limiter_ok l" and "last_refill_ns l > 0" and "t \<ge> last_refill_ns l"
    and "try_consume t l = (ok, l')"
  shows "(if ok then 1 else 0) + tokens l' \<le>
      tokens l + rate_per_ns l * (real (unat t) - real (unat (last_refill_ns l))) \<and>
    last_refill_ns l' = t \<and> rate_per_ns l' = rate_per_ns l \<and> max_tokens l' = max_tokens l"
proof (cases "t = last_refill_ns l")
  case True
  then show ?thesis
    using assms by (auto simp: try_consume_def refill_def limiter_ok_def Let_def split: if_splits)
next
  case False
  then have gt: "last_refill_ns l < t" using assms(3) by simp
  have r: "refill t l = l\<lparr>tokens := min (max_tokens l) (tokens l + real (unat t - unat (last_refill_ns l)) * rate_per_ns l),
      last_refill_ns := t\<rparr>"
    using gt assms(2) by (auto simp: refill_def Let_def unat_minus_le min_def not_le)
  have "real (unat t - unat (last_refill_ns l)) = real (unat t) - real (unat (last_refill_ns l))"
    using assms(3) by (simp add: word_le_nat_alt of_nat_diff)
  then show ?thesis
    using assms(1,4) unfolding try_consume_def r Let_def limiter_ok_def
    by (auto simp: algebra_simps split: if_splits)
qed

lemma grants_from:
  assumes "limiter_ok l" and "last_refill_ns l > 0" and "sorted (last_refill_ns l # ts)"
  shows "real (grants ts l) \<le> tokens l +
    rate_per_ns l * (real (unat (last (last_refill_ns l # ts))) - real (unat (last_refill_ns l)))"
  using assms
proof (induction ts arbitrary: l)
  case Nil
  then show ?case by (simp add: limiter_ok_def)
next
  case (Cons t ts)
  obtain ok l' where c: "try_consume t l = (ok, l')" by force
  have t: "last_refill_ns l \<le> t" "0 < t" using Cons.prems by (auto simp: order.strict_trans2)
  note pays = try_consume_pays [OF Cons.prems(1,2) t(1) c]
  have ok': "limiter_ok l'" using try_consume_ok [OF Cons.prems(1), of t] c by simp
  have "real (grants ts l') \<le> tokens l' +
      rate_per_ns l' * (real (unat (last (last_refill_ns l' # ts))) - real (unat (last_refill_ns l')))"
    using Cons.IH [OF ok'] pays t Cons.prems(3) by simp
  then show ?case
    using pays c by (auto simp: algebra_simps split: if_splits)
qed



section \<open>Waiting for a token\<close>

text \<open>
  A denied consumer that waits longer than the reported time gets a token: when the
  report fits in 64 bits and the bucket can hold a token, a call later than
  \<open>time_until_next_token_ns\<close> after the last refill succeeds. The report is rounded down,
  so a call at exactly that time may still be denied.
\<close>

theorem rate_limiter_wait_suffices:
  assumes "limiter_ok l" and "last_refill_ns l > 0" and "unat (burst l) \<ge> 1"
    and "(1 - tokens l) / rate_per_ns l < 2 ^ 64"
    and "unat t > unat (last_refill_ns l) + unat (time_until_next_token_ns l)"
  shows "fst (try_consume t l)"
proof -
  let ?last = "last_refill_ns l"
  have gt: "\<not> t \<le> ?last" using assms(5) by (simp add: word_le_nat_alt)
  have el: "real (unat (t - ?last)) = real (unat t) - real (unat ?last)"
    using gt by (simp add: unat_minus_le of_nat_diff word_le_nat_alt)
  have rate: "rate_per_ns l > 0" using assms(1) by (simp add: limiter_ok_def)
  have "tokens l + real (unat (t - ?last)) * rate_per_ns l \<ge> 1"
  proof (cases "tokens l \<ge> 1")
    case True
    then show ?thesis using rate by (intro add_increasing2) simp_all
  next
    case False
    let ?w = "(1 - tokens l) / rate_per_ns l"
    have w0: "0 \<le> ?w" using False rate by simp
    have "unat (of_int \<lfloor>?w\<rfloor> :: u64) = nat \<lfloor>?w\<rfloor>"
    proof -
      have "\<lfloor>?w\<rfloor> < 2 ^ 64" using assms(4) by (simp add: floor_less_iff)
      then show ?thesis using w0 by (simp add: unsigned_of_int take_bit_int_eq_self nat_eq_iff)
    qed
    then have "real (unat (time_until_next_token_ns l)) = of_int \<lfloor>?w\<rfloor>"
      using False rate assms(1) w0 by (simp add: time_until_next_token_ns_def limiter_ok_def)
    then have "?w < real (unat (t - ?last))"
      using assms(5) el by linarith
    then show ?thesis using rate by (simp add: field_simps)
  qed
  then have "tokens (refill t l) \<ge> 1"
    using gt assms(1,2,3) by (auto simp: refill_def Let_def limiter_ok_def)
  then show ?thesis using assms(1) by (simp add: try_consume_def limiter_ok_def Let_def)
qed

theorem rate_limiter_wait_suffices_witness:
  "let l = limiter_run [7] (configure 1000000000 1 rate_limiter_init) in
   limiter_ok l \<and> unat (9 :: u64) > unat (last_refill_ns l) + unat (time_until_next_token_ns l) \<and>
   fst (try_consume 9 l)"
  using rate_limiter_wait_suffices [of "limiter_run [7] (configure 1000000000 1 rate_limiter_init)" 9]
  by (simp add: limiter_ok_def configure_def rate_limiter_init_def try_consume_def refill_def Let_def
      time_until_next_token_ns_def)

end
