(* ===== verification/Admission.thy ===== *)
theory Admission
  imports Mailbox_Types Rate_Limiter
begin

text \<open>
  \<open>include/hpactor/mailbox/admission_policy.hpp\<close>, the policies under
  \<open>include/hpactor/mailbox/detail/policies/\<close> and the policy chain of
  \<open>MPSCActorMailbox\<close>. The policy classes are the constructors of one datatype, their
  members its arguments, and \<open>evaluate\<close> returns the result with the updated policy. The
  clock the per-sender policy reads is an argument. The buckets of that policy are an
  association list in the iteration order of the \<open>unordered_map\<close>.
\<close>

section \<open>Policies\<close>

datatype admission_decision = Accept | Reject | RerouteToDLQ

record admission_result =
  decision :: admission_decision
  reason :: failure_reason
  policy_name :: "string option"
  match_code :: u32

definition default_admission :: admission_result where
  "default_admission =
     \<lparr>decision = Accept, reason = FR_RejectedByPolicy, policy_name = None, match_code = 0\<rparr>"

record sender_rate =
  rate_per_sec :: real
  sender_burst :: u32
  max_senders :: u32
  max_purge_threshold :: u32
  buckets :: "(u64 \<times> rate_limiter) list"

definition per_sender_rate_policy :: "real \<Rightarrow> u32 \<Rightarrow> u32 \<Rightarrow> sender_rate" where
  "per_sender_rate_policy rate b ms =
     \<lparr>rate_per_sec = rate, sender_burst = b, max_senders = ms, max_purge_threshold = ms * 2,
      buckets = []\<rparr>"

datatype admission_policy =
    SenderFilter "u64 list"
  | TypeFilter "u32 list" "u32 list"
  | SizeLimit u64 bool
  | PriorityThreshold u8 bool
  | PerSenderRate sender_rate

definition sender_filter_evaluate :: "u64 list \<Rightarrow> mailbox_envelope_meta \<Rightarrow> admission_result" where
  "sender_filter_evaluate blocked meta =
     (if blocked \<noteq> [] \<and> sender_id meta \<in> set blocked
      then default_admission\<lparr>decision := Reject, policy_name := Some ''sender_filter''\<rparr>
      else default_admission)"

definition type_filter_evaluate ::
  "u32 list \<Rightarrow> u32 list \<Rightarrow> mailbox_envelope_meta \<Rightarrow> admission_result"
where
  "type_filter_evaluate allowed blocked meta =
     (if blocked \<noteq> [] \<and> type_tag_of meta \<in> set blocked
      then default_admission\<lparr>decision := Reject, policy_name := Some ''type_filter''\<rparr>
      else if allowed \<noteq> [] \<and> type_tag_of meta \<notin> set allowed
      then default_admission\<lparr>decision := Reject, policy_name := Some ''type_filter''\<rparr>
      else default_admission)"

definition size_limit_evaluate :: "u64 \<Rightarrow> bool \<Rightarrow> mailbox_envelope_meta \<Rightarrow> admission_result" where
  "size_limit_evaluate max_b dlq_on_reject meta =
     (if estimated_bytes meta > max_b
      then default_admission\<lparr>decision := (if dlq_on_reject then RerouteToDLQ else Reject),
             policy_name := Some ''size_limit''\<rparr>
      else default_admission)"

definition priority_threshold_evaluate :: "u8 \<Rightarrow> bool \<Rightarrow> mailbox_envelope_meta \<Rightarrow> admission_result" where
  "priority_threshold_evaluate min_priority dlq_on_reject meta =
     (if priority meta < min_priority
      then default_admission\<lparr>decision := (if dlq_on_reject then RerouteToDLQ else Reject),
             policy_name := Some ''priority_threshold''\<rparr>
      else default_admission)"

definition maybe_purge_stale :: "sender_rate \<Rightarrow> sender_rate" where
  "maybe_purge_stale p =
     (let target_remove = (if unat (max_senders p) div 4 = 0 then 1 else unat (max_senders p) div 4)
      in p\<lparr>buckets := drop target_remove (buckets p)\<rparr>)"

definition sender_reject :: "u32 \<Rightarrow> admission_result" where
  "sender_reject c =
     default_admission\<lparr>decision := Reject, policy_name := Some ''per_sender_rate'', match_code := c\<rparr>"

definition charge_sender :: "u64 \<Rightarrow> u64 \<Rightarrow> sender_rate \<Rightarrow> admission_result \<times> sender_rate" where
  "charge_sender now key p =
     (case map_of (buckets p) key of
        None \<Rightarrow> (default_admission, p)
      | Some l \<Rightarrow>
          (let (ok, l') = try_consume now l;
               p' = p\<lparr>buckets := map (\<lambda>(k, b). if k = key then (k, l') else (k, b)) (buckets p)\<rparr>
           in if ok then (default_admission, p') else (sender_reject 2, p')))"

definition per_sender_evaluate ::
  "u64 \<Rightarrow> mailbox_envelope_meta \<Rightarrow> sender_rate \<Rightarrow> admission_result \<times> sender_rate"
where
  "per_sender_evaluate now meta p =
     (let key = sender_id meta in
      if map_of (buckets p) key = None then
        (let p1 = (if length (buckets p) \<ge> unat (max_purge_threshold p) then maybe_purge_stale p else p)
         in if length (buckets p1) \<ge> unat (max_senders p1) then (sender_reject 1, p1)
            else charge_sender now key
              (p1\<lparr>buckets := buckets p1 @
                 [(key, configure (rate_per_sec p1) (sender_burst p1) rate_limiter_init)]\<rparr>))
      else charge_sender now key p)"

fun evaluate :: "u64 \<Rightarrow> mailbox_envelope_meta \<Rightarrow> admission_policy \<Rightarrow> admission_result \<times> admission_policy" where
  "evaluate now meta (SenderFilter b) = (sender_filter_evaluate b meta, SenderFilter b)"
| "evaluate now meta (TypeFilter a b) = (type_filter_evaluate a b meta, TypeFilter a b)"
| "evaluate now meta (SizeLimit n d) = (size_limit_evaluate n d meta, SizeLimit n d)"
| "evaluate now meta (PriorityThreshold n d) = (priority_threshold_evaluate n d meta, PriorityThreshold n d)"
| "evaluate now meta (PerSenderRate p) =
     (let (r, p') = per_sender_evaluate now meta p in (r, PerSenderRate p'))"

fun evaluate_policy_chain ::
  "u64 \<Rightarrow> mailbox_envelope_meta \<Rightarrow> admission_policy list \<Rightarrow> admission_result \<times> admission_policy list"
where
  "evaluate_policy_chain now meta [] = (default_admission, [])"
| "evaluate_policy_chain now meta (p # ps) =
     (let (r, p') = evaluate now meta p
      in if decision r \<noteq> Accept then (r, p' # ps)
         else (let (r', ps') = evaluate_policy_chain now meta ps in (r', p' # ps')))"

section \<open>The chain\<close>

text \<open>
  The policy chain admits a message exactly when every policy in it does; otherwise it
  returns the verdict of the first policy that objects, and every later policy keeps its
  state, so a rejected message is not charged to the rate limiters behind that policy.
\<close>

theorem policy_chain_first_objection:
  "(decision (fst (evaluate_policy_chain now meta ps)) = Accept \<longleftrightarrow>
      (\<forall>p\<in>set ps. decision (fst (evaluate now meta p)) = Accept)) \<and>
   (\<forall>qs p rs. ps = qs @ p # rs \<longrightarrow>
      (\<forall>q\<in>set qs. decision (fst (evaluate now meta q)) = Accept) \<longrightarrow>
      decision (fst (evaluate now meta p)) \<noteq> Accept \<longrightarrow>
      evaluate_policy_chain now meta ps =
        (fst (evaluate now meta p),
         map (\<lambda>q. snd (evaluate now meta q)) (qs @ [p]) @ rs))"
proof -
  have first: "evaluate_policy_chain now meta (qs @ p # rs) =
      (fst (evaluate now meta p), map (\<lambda>q. snd (evaluate now meta q)) (qs @ [p]) @ rs)"
    if "\<forall>q\<in>set qs. decision (fst (evaluate now meta q)) = Accept"
      "decision (fst (evaluate now meta p)) \<noteq> Accept" for qs p rs
    using that by (induction qs) (auto split: prod.splits)
  moreover have "decision (fst (evaluate_policy_chain now meta ps)) = Accept \<longleftrightarrow>
      (\<forall>p\<in>set ps. decision (fst (evaluate now meta p)) = Accept)"
    by (induction ps) (auto simp: default_admission_def split: prod.splits)
  ultimately show ?thesis by blast
qed

theorem policy_chain_first_objection_witness:
  "decision (fst (evaluate 0 default_meta (SenderFilter [0]))) \<noteq> Accept \<and>
   evaluate_policy_chain 0 default_meta
     ([] @ SenderFilter [0] # [PerSenderRate (per_sender_rate_policy 1 1 1)]) =
     (fst (evaluate 0 default_meta (SenderFilter [0])),
      [SenderFilter [0], PerSenderRate (per_sender_rate_policy 1 1 1)])"
proof -
  have "decision (fst (evaluate 0 default_meta (SenderFilter [0]))) \<noteq> Accept"
    by (simp add: sender_filter_evaluate_def default_meta_def default_admission_def)
  then show ?thesis
    using policy_chain_first_objection
      [of 0 default_meta "[] @ SenderFilter [0] # [PerSenderRate (per_sender_rate_policy 1 1 1)]"]
    by fastforce
qed

section \<open>Per-sender rates\<close>

fun sender_run :: "(u64 \<times> mailbox_envelope_meta) list \<Rightarrow> sender_rate \<Rightarrow> sender_rate" where
  "sender_run [] p = p"
| "sender_run ((now, meta) # cs) p = sender_run cs (snd (per_sender_evaluate now meta p))"

definition senders :: "sender_rate \<Rightarrow> u64 list" where
  "senders p = map fst (buckets p)"

definition sender_table_ok :: "sender_rate \<Rightarrow> bool" where
  "sender_table_ok p \<longleftrightarrow>
     length (buckets p) \<le> unat (max_senders p) \<and> unat (max_senders p) < 2 ^ 31 \<and>
     max_senders p > 0 \<and> max_purge_threshold p = max_senders p * 2"

lemma charge_sender_table:
  "senders (snd (charge_sender now key p)) = senders p"
  "max_senders (snd (charge_sender now key p)) = max_senders p"
  "max_purge_threshold (snd (charge_sender now key p)) = max_purge_threshold p"
  by (auto simp: charge_sender_def senders_def Let_def split: option.splits prod.splits if_splits)

lemma no_purge:
  assumes "sender_table_ok p"
  shows "\<not> length (buckets p) \<ge> unat (max_purge_threshold p)"
proof -
  have "unat (max_senders p * 2) = unat (max_senders p) * 2"
    using assms by (simp add: sender_table_ok_def unat_word_ariths)
  moreover have "unat (max_senders p) > 0" using assms by (simp add: sender_table_ok_def word_less_nat_alt)
  ultimately show ?thesis using assms by (simp add: sender_table_ok_def)
qed

lemma per_sender_evaluate_table:
  assumes "sender_table_ok p"
  shows "sender_table_ok (snd (per_sender_evaluate now meta p)) \<and>
    senders (snd (per_sender_evaluate now meta p)) =
      (if sender_id meta \<in> set (senders p) \<or> length (buckets p) = unat (max_senders p) then senders p
       else senders p @ [sender_id meta]) \<and>
    max_senders (snd (per_sender_evaluate now meta p)) = max_senders p"
proof -
  have known: "map_of (buckets p) (sender_id meta) = None \<longleftrightarrow> sender_id meta \<notin> set (senders p)"
    by (simp add: map_of_eq_None_iff senders_def)
  have len: "length (buckets q) = length (senders q)" for q by (simp add: senders_def)
  show ?thesis
    using assms no_purge [OF assms] known
    by (auto simp: per_sender_evaluate_def Let_def charge_sender_table sender_table_ok_def len)
      (auto simp: senders_def)
qed

text \<open>
  The table of sender buckets never exceeds \<open>max_senders\<close>, so the eviction of stale
  buckets that is guarded by \<open>max_senders * 2\<close> never runs: once the table is full, every
  message of a sender that is not in it is rejected with code 1, whatever happens in
  between and however much later.
\<close>

theorem per_sender_table_never_purged:
  assumes "sender_table_ok p" and "length (buckets p) = unat (max_senders p)"
    and "sender_id meta \<notin> set (senders p)"
  shows "fst (per_sender_evaluate now meta (sender_run cs p)) = sender_reject 1 \<and>
    senders (sender_run cs p) = senders p"
proof -
  have "sender_table_ok (sender_run cs p) \<and> senders (sender_run cs p) = senders p \<and>
      max_senders (sender_run cs p) = max_senders p"
    using assms(1,2)
  proof (induction cs arbitrary: p)
    case Nil
    then show ?case by simp
  next
    case (Cons c cs)
    obtain now m where c: "c = (now, m)" by force
    let ?p = "snd (per_sender_evaluate now m p)"
    have t: "sender_table_ok ?p" "senders ?p = senders p" "max_senders ?p = max_senders p"
      using per_sender_evaluate_table [OF Cons.prems(1), of now m] Cons.prems(2) by simp_all
    moreover have "length (buckets ?p) = unat (max_senders ?p)"
      using t(2,3) Cons.prems(2) by (metis length_map senders_def)
    ultimately show ?case using Cons.IH [of ?p] c by simp
  qed
  moreover from this have "length (buckets (sender_run cs p)) = unat (max_senders (sender_run cs p))"
    using assms(2) by (metis length_map senders_def)
  moreover from calculation have "map_of (buckets (sender_run cs p)) (sender_id meta) = None"
    using assms(3) by (simp add: map_of_eq_None_iff flip: set_map senders_def)
  ultimately show ?thesis
    using no_purge [of "sender_run cs p"] by (simp add: per_sender_evaluate_def Let_def)
qed

theorem per_sender_table_never_purged_witness:
  "let p = sender_run [(5, default_meta\<lparr>sender_id := 1\<rparr>)] (per_sender_rate_policy 10 10 1) in
   sender_table_ok p \<and> length (buckets p) = unat (max_senders p) \<and>
   fst (per_sender_evaluate 1000000000000 (default_meta\<lparr>sender_id := 2\<rparr>) (sender_run [] p)) = sender_reject 1"
proof -
  let ?p = "sender_run [(5, default_meta\<lparr>sender_id := 1\<rparr>)] (per_sender_rate_policy 10 10 1)"
  have "sender_table_ok ?p" "length (buckets ?p) = unat (max_senders ?p)" "senders ?p = [1]"
    by (simp_all add: sender_table_ok_def senders_def per_sender_evaluate_def charge_sender_def Let_def
        per_sender_rate_policy_def configure_def try_consume_def refill_def rate_limiter_init_def)
  then show ?thesis
    using per_sender_table_never_purged
      [of ?p "default_meta\<lparr>sender_id := 2\<rparr>" 1000000000000 "[]"] by simp
qed

end
