(* ===== verification/Mailbox_State.thy ===== *)
theory Mailbox_State
  imports Reservation Pressure Multi_Lane Overflow_Queue Admission "HOL-Library.Multiset"
begin

text \<open>
  The state of \<open>MPSCActorMailbox<TypedMessage>\<close>
  (\<open>include/hpactor/mailbox/mpsc_actor_mailbox.hpp\<close>) and the private operations its entry
  points are made of. One operation runs at a time here; the interleavings inside the
  reservation and the lanes are the subject of \<open>Reservation\<close> and \<open>Mpsc_Queue\<close>. Lanes are
  lists, which \<open>Multi_Lane\<close> shows the pointer queues to implement. Calls into the
  scheduler and the continuation callback are recorded in \<open>notified\<close>, metric events (all
  carry the mailbox's actor id) in \<open>metrics\<close>, where \<open>None\<close> is a null ring buffer.
  \<open>node_size\<close> is \<open>sizeof(TypedMessage)\<close>. The fault-injection sites are those of a build
  without \<open>ENABLE_FAULT_INJECTION\<close>, where the macro is \<open>if (false)\<close>; log output is not
  modelled.
\<close>

section \<open>State\<close>

datatype notification =
    Continuation
  | ReadyEdf u8 int
  | ReadyFast u8 int
  | Ready

record mailbox =
  actor_id :: actor_id
  reservation :: reservation_manager
  pressure_state :: mailbox_pressure_state
  signal_gate_state :: signal_gate
  lanes :: "(typed_message list, typed_message) multi_lane"
  overflow :: "typed_message overflow_queue"
  config :: mailbox_config
  was_empty :: bool
  limiter :: "rate_limiter option"
  policies :: "admission_policy list option"
  admission_rejected_total :: u64
  delivery_accepted_total :: u64
  delivery_rejected_total :: u64
  delivery_failed_total :: u64
  delivery_retryable_total :: u64
  total_enqueued :: u64
  total_dequeued :: u64
  total_rejected :: u64
  total_dropped :: u64
  total_dead_letters :: u64
  max_depth :: u64
  system_lane_bytes :: u64
  system_lane_reserved :: u32
  has_continuation :: bool
  metrics :: "metric_event list option"
  notified :: "notification list"
  node_size :: u64

definition normalize_capacity :: "mailbox_config \<Rightarrow> mailbox_config" where
  "normalize_capacity cfg = (if max_messages cfg = 0 then cfg\<lparr>max_messages := 1024\<rparr> else cfg)"

definition mailbox_init :: "actor_id \<Rightarrow> u64 \<Rightarrow> mailbox_config \<Rightarrow> mailbox" where
  "mailbox_init aid sizeof_T cfg =
     \<lparr>actor_id = aid, reservation = reservation_init, pressure_state = Normal,
      signal_gate_state = signal_gate_init,
      lanes = set_num_user_lanes (priority_levels cfg) (multi_lane_init []),
      overflow = overflow_init (max_overflow_depth cfg), config = normalize_capacity cfg,
      was_empty = True, limiter = None, policies = None, admission_rejected_total = 0,
      delivery_accepted_total = 0, delivery_rejected_total = 0, delivery_failed_total = 0,
      delivery_retryable_total = 0, total_enqueued = 0, total_dequeued = 0, total_rejected = 0,
      total_dropped = 0, total_dead_letters = 0, max_depth = 0, system_lane_bytes = 0,
      system_lane_reserved = 0, has_continuation = False, metrics = None, notified = [],
      node_size = sizeof_T\<rparr>"

section \<open>Private operations\<close>

definition emit :: "metric_event \<Rightarrow> mailbox \<Rightarrow> mailbox" where
  "emit e mb = (case metrics mb of None \<Rightarrow> mb | Some es \<Rightarrow> mb\<lparr>metrics := Some (es @ [e])\<rparr>)"

definition notify :: "notification \<Rightarrow> mailbox \<Rightarrow> mailbox" where
  "notify n mb = mb\<lparr>notified := notified mb @ [n]\<rparr>"

definition estimate_node_bytes :: "mailbox \<Rightarrow> typed_message \<Rightarrow> u64" where
  "estimate_node_bytes mb msg = estimate_message_bytes (node_size mb) msg"

definition mb_depth :: "mailbox \<Rightarrow> int" where
  "mb_depth mb = total_depth lane_cnt_of (lanes mb)"

definition mb_empty :: "mailbox \<Rightarrow> bool" where
  "mb_empty mb \<longleftrightarrow> ml_empty lane_cnt_of (lanes mb)"

definition pressure_ratio :: "mailbox \<Rightarrow> real" where
  "pressure_ratio mb =
     (let cap = max_messages (config mb);
          user_depth = mb_depth mb - lane_depth lane_cnt_of kSystemLaneSentinel (lanes mb);
          depth = (of_int (if user_depth > 0 then user_depth else 0) :: u32);
          count_ratio = (if cap > 0 then real (unat depth) / real (unat cap) else 0);
          byte_cap = max_bytes (config mb);
          byte_ratio = (if byte_cap > 0
                        then real (unat (queued_bytes (reservation mb) + system_lane_bytes mb)) / real (unat byte_cap)
                        else 0)
      in if count_ratio > byte_ratio then count_ratio else byte_ratio)"

definition update_pressure_state :: "bool \<Rightarrow> mailbox \<Rightarrow> mailbox" where
  "update_pressure_state hard_failure mb =
     (let old_state = pressure_state mb;
          mb1 = mb\<lparr>pressure_state :=
                    next_state (pressure_ratio mb) hard_failure
                      (high_watermark (config mb)) (low_watermark (config mb))
                      (critical_watermark (config mb)) (pressure_state mb)\<rparr>;
          new_state = pressure_state mb1
      in if old_state \<noteq> new_state then
           emit (metric kMailboxSystemLaneDepth
                   (of_int (lane_depth lane_cnt_of kSystemLaneSentinel (lanes mb1))))
             (emit (metric kMailboxQueuedBytes (ucast (queued_bytes (reservation mb1))))
               (emit (metric kMailboxPressureRatio (of_int \<lfloor>pressure_ratio mb1 * 1000000\<rfloor>))
                 (emit (metric kMailboxPressureState 0\<lparr>event_code := severity new_state\<rparr>) mb1)))
         else mb1)"

definition update_max_depth :: "mailbox \<Rightarrow> mailbox" where
  "update_max_depth mb =
     (let depth = (of_int (mb_depth mb) :: u64) in
      if depth > max_depth mb
      then emit (metric kMailboxMaxDepth (ucast depth)) (mb\<lparr>max_depth := depth\<rparr>)
      else mb)"

definition retry_after_of :: "mailbox_config \<Rightarrow> mailbox_pressure_state \<Rightarrow> nat" where
  "retry_after_of cfg st =
     (let base = unat (signal_min_interval_ms cfg) in
      if st = HardPressure then base * 2
      else if st = SoftPressure \<or> st = Recovering then base else 0)"

definition make_result :: "enqueue_result_code \<Rightarrow> backpressure_reason \<Rightarrow> mailbox \<Rightarrow> enqueue_result" where
  "make_result c r mb =
     default_result\<lparr>code := c, target := actor_id mb, depth := of_int (mb_depth mb),
       capacity := max_messages (config mb), result_bytes := queued_bytes (reservation mb),
       byte_capacity := max_bytes (config mb), pressure_ratio_of := pressure_ratio mb,
       pressure_reason := r, pressure_state_of := pressure_state mb,
       retry_after := retry_after_of (config mb) (pressure_state mb)\<rparr>"

text \<open>The result \<open>try_push\<close> fills in by hand when admission or the system lane refuses.\<close>

definition refused_result :: "mailbox \<Rightarrow> enqueue_result" where
  "refused_result mb =
     default_result\<lparr>code := Rejected, target := actor_id mb, depth := of_int (mb_depth mb),
       capacity := max_messages (config mb), result_bytes := queued_bytes (reservation mb),
       byte_capacity := max_bytes (config mb), pressure_ratio_of := pressure_ratio mb,
       pressure_state_of := pressure_state mb\<rparr>"

definition route_lane :: "mailbox_envelope_meta \<Rightarrow> mailbox \<Rightarrow> u8" where
  "route_lane meta mb =
     (if is_system_message (type_tag_of meta) then kSystemLaneSentinel
      else if \<not> priority_aware (config mb) then 0
      else min (priority meta) (num_user_lanes (lanes mb) - 1))"

definition wake_consumer :: "mailbox_envelope_meta \<Rightarrow> mailbox \<Rightarrow> mailbox" where
  "wake_consumer meta mb =
     (if was_empty mb then
        (let mb1 = mb\<lparr>was_empty := False\<rparr>;
             mb2 = (if has_continuation mb1 then notify Continuation mb1 else mb1)
         in if schedule_edf meta \<and> deadline_ns meta \<noteq> INT64_MAX
            then notify (ReadyEdf (priority meta) (deadline_ns meta)) mb2
            else notify (ReadyFast (priority meta) (deadline_ns meta)) mb2)
      else mb)"

definition enqueue_reserved ::
  "typed_message \<Rightarrow> mailbox_envelope_meta \<Rightarrow> u8 \<Rightarrow> bool \<Rightarrow> mailbox \<Rightarrow> mailbox"
where
  "enqueue_reserved node meta lane_idx suppress_wakeup mb =
     (let mb1 = mb\<lparr>lanes := ml_enqueue lane_enq node lane_idx (lanes mb),
                   total_enqueued := total_enqueued mb + 1\<rparr>;
          mb2 = update_pressure_state False (update_max_depth mb1);
          mb3 = emit (metric kMailboxEnqueue 1) mb2
      in if suppress_wakeup then mb3 else wake_consumer meta mb3)"

text \<open>What an evicted node does to the books, shared by both eviction callbacks.\<close>

definition evict :: "typed_message \<Rightarrow> mailbox \<Rightarrow> mailbox" where
  "evict node mb =
     (let mb1 = mb\<lparr>reservation := release (estimate_node_bytes mb node) (reservation mb),
                   total_dropped := total_dropped mb + 1\<rparr>;
          mb2 = emit (metric kMailboxDropped 1) (update_pressure_state False mb1);
          mb3 = (if mb_empty mb2 then mb2\<lparr>was_empty := True\<rparr> else mb2)
      in mb3\<lparr>lanes := set_pending_free node (lanes mb3)\<rparr>)"

definition drop_one_oldest_global :: "mailbox \<Rightarrow> bool \<times> mailbox" where
  "drop_one_oldest_global mb =
     (case try_drop_oldest_user_lane lane_deq (lanes mb) of
        (None, ls) \<Rightarrow> (False, mb\<lparr>lanes := ls\<rparr>)
      | (Some node, ls) \<Rightarrow> (True, evict node (mb\<lparr>lanes := ls\<rparr>)))"

definition drop_one_lowest_priority :: "mailbox \<Rightarrow> bool \<times> mailbox" where
  "drop_one_lowest_priority mb =
     (case try_drop_from_lowest_user_lane lane_deq (lanes mb) of
        (None, ls) \<Rightarrow> (False, mb\<lparr>lanes := ls\<rparr>)
      | (Some node, ls) \<Rightarrow> (True, evict node (mb\<lparr>lanes := ls\<rparr>)))"

section \<open>What the private operations leave alone\<close>

lemma emit_frame [simp]:
  "actor_id (emit e mb) = actor_id mb"
  "reservation (emit e mb) = reservation mb"
  "lanes (emit e mb) = lanes mb"
  "overflow (emit e mb) = overflow mb"
  "config (emit e mb) = config mb"
  "was_empty (emit e mb) = was_empty mb"
  "limiter (emit e mb) = limiter mb"
  "policies (emit e mb) = policies mb"
  "system_lane_bytes (emit e mb) = system_lane_bytes mb"
  "system_lane_reserved (emit e mb) = system_lane_reserved mb"
  "has_continuation (emit e mb) = has_continuation mb"
  "notified (emit e mb) = notified mb"
  "node_size (emit e mb) = node_size mb"
  "total_enqueued (emit e mb) = total_enqueued mb"
  "total_dequeued (emit e mb) = total_dequeued mb"
  "total_rejected (emit e mb) = total_rejected mb"
  "total_dropped (emit e mb) = total_dropped mb"
  "total_dead_letters (emit e mb) = total_dead_letters mb"
  "signal_gate_state (emit e mb) = signal_gate_state mb"
  by (simp_all add: emit_def split: option.splits)

lemma update_pressure_state_frame [simp]:
  "actor_id (update_pressure_state h mb) = actor_id mb"
  "reservation (update_pressure_state h mb) = reservation mb"
  "lanes (update_pressure_state h mb) = lanes mb"
  "overflow (update_pressure_state h mb) = overflow mb"
  "config (update_pressure_state h mb) = config mb"
  "was_empty (update_pressure_state h mb) = was_empty mb"
  "limiter (update_pressure_state h mb) = limiter mb"
  "policies (update_pressure_state h mb) = policies mb"
  "system_lane_bytes (update_pressure_state h mb) = system_lane_bytes mb"
  "system_lane_reserved (update_pressure_state h mb) = system_lane_reserved mb"
  "has_continuation (update_pressure_state h mb) = has_continuation mb"
  "notified (update_pressure_state h mb) = notified mb"
  "node_size (update_pressure_state h mb) = node_size mb"
  "total_enqueued (update_pressure_state h mb) = total_enqueued mb"
  "total_dequeued (update_pressure_state h mb) = total_dequeued mb"
  "total_rejected (update_pressure_state h mb) = total_rejected mb"
  "total_dropped (update_pressure_state h mb) = total_dropped mb"
  "total_dead_letters (update_pressure_state h mb) = total_dead_letters mb"
  "signal_gate_state (update_pressure_state h mb) = signal_gate_state mb"
  by (simp_all add: update_pressure_state_def Let_def)

lemma update_max_depth_frame [simp]:
  "actor_id (update_max_depth mb) = actor_id mb"
  "reservation (update_max_depth mb) = reservation mb"
  "lanes (update_max_depth mb) = lanes mb"
  "overflow (update_max_depth mb) = overflow mb"
  "config (update_max_depth mb) = config mb"
  "was_empty (update_max_depth mb) = was_empty mb"
  "limiter (update_max_depth mb) = limiter mb"
  "policies (update_max_depth mb) = policies mb"
  "system_lane_bytes (update_max_depth mb) = system_lane_bytes mb"
  "system_lane_reserved (update_max_depth mb) = system_lane_reserved mb"
  "has_continuation (update_max_depth mb) = has_continuation mb"
  "notified (update_max_depth mb) = notified mb"
  "node_size (update_max_depth mb) = node_size mb"
  "total_enqueued (update_max_depth mb) = total_enqueued mb"
  "total_dequeued (update_max_depth mb) = total_dequeued mb"
  "total_rejected (update_max_depth mb) = total_rejected mb"
  "total_dropped (update_max_depth mb) = total_dropped mb"
  "total_dead_letters (update_max_depth mb) = total_dead_letters mb"
  "signal_gate_state (update_max_depth mb) = signal_gate_state mb"
  by (simp_all add: update_max_depth_def Let_def)

lemma enqueue_reserved_frame [simp]:
  "actor_id (enqueue_reserved n meta i quiet mb) = actor_id mb"
  "reservation (enqueue_reserved n meta i quiet mb) = reservation mb"
  "overflow (enqueue_reserved n meta i quiet mb) = overflow mb"
  "config (enqueue_reserved n meta i quiet mb) = config mb"
  "limiter (enqueue_reserved n meta i quiet mb) = limiter mb"
  "policies (enqueue_reserved n meta i quiet mb) = policies mb"
  "system_lane_bytes (enqueue_reserved n meta i quiet mb) = system_lane_bytes mb"
  "system_lane_reserved (enqueue_reserved n meta i quiet mb) = system_lane_reserved mb"
  "has_continuation (enqueue_reserved n meta i quiet mb) = has_continuation mb"
  "node_size (enqueue_reserved n meta i quiet mb) = node_size mb"
  "total_dequeued (enqueue_reserved n meta i quiet mb) = total_dequeued mb"
  "total_rejected (enqueue_reserved n meta i quiet mb) = total_rejected mb"
  "total_dropped (enqueue_reserved n meta i quiet mb) = total_dropped mb"
  "total_dead_letters (enqueue_reserved n meta i quiet mb) = total_dead_letters mb"
  "signal_gate_state (enqueue_reserved n meta i quiet mb) = signal_gate_state mb"
  by (simp_all add: enqueue_reserved_def wake_consumer_def notify_def Let_def)

lemma enqueue_reserved_effect [simp]:
  "lanes (enqueue_reserved n meta i quiet mb) = ml_enqueue lane_enq n i (lanes mb)"
  "total_enqueued (enqueue_reserved n meta i quiet mb) = total_enqueued mb + 1"
  "was_empty (enqueue_reserved n meta i quiet mb) = (was_empty mb \<and> quiet)"
  by (auto simp add: enqueue_reserved_def wake_consumer_def notify_def Let_def)

lemma estimate_node_bytes_cong: "node_size mb = node_size mb' \<Longrightarrow> estimate_node_bytes mb = estimate_node_bytes mb'"
  by (simp add: fun_eq_iff estimate_node_bytes_def)

section \<open>Lanes as lists\<close>

definition lanes_ok :: "(typed_message list, typed_message) multi_lane \<Rightarrow> bool" where
  "lanes_ok L \<longleftrightarrow>
     length (user_lanes L) = 8 \<and> 1 \<le> unat (num_user_lanes L) \<and> unat (num_user_lanes L) \<le> 8 \<and>
     (\<forall>i < 8. unat (num_user_lanes L) \<le> i \<longrightarrow> user_lanes L ! i = [])"

lemma take_first_list:
  assumes "\<forall>i\<in>set is. i < length ls"
  shows "take_first lane_deq is ls = spec_take is ls"
  using list_lane.take_first_refines [of ls ls "is"] assms
  by (simp add: list.rel_eq prod_eq_iff)

lemma concat_update_mset:
  assumes "i < length ls"
  shows "mset (concat (ls[i := ys])) + mset (ls ! i) = mset (concat ls) + mset ys"
  using assms
proof (induction ls arbitrary: i)
  case Nil
  then show ?case by simp
next
  case (Cons l ls)
  then show ?case by (cases i) (auto simp: ac_simps)
qed

lemma concat_take_mset:
  assumes "i < length ls" and "ls ! i \<noteq> []"
  shows "mset (concat ls) = add_mset (hd (ls ! i)) (mset (concat (ls[i := tl (ls ! i)])))"
  using concat_update_mset [OF assms(1), of "tl (ls ! i)"] assms(2)
  by (cases "ls ! i") auto

lemma concat_snoc_mset:
  assumes "i < length ls"
  shows "mset (concat (ls[i := ls ! i @ [n]])) = add_mset n (mset (concat ls))"
  using concat_update_mset [OF assms, of "ls ! i @ [n]"] by auto

lemma concat_Nil_iff:
  assumes "lanes_ok L"
  shows "concat (user_lanes L) = [] \<longleftrightarrow> (\<forall>i < unat (num_user_lanes L). user_lanes L ! i = [])"
proof -
  have "concat (user_lanes L) = [] \<longleftrightarrow> (\<forall>i < 8. user_lanes L ! i = [])"
    using assms by (auto simp: lanes_ok_def all_set_conv_all_nth)
  then show ?thesis using assms by (auto simp: lanes_ok_def)
qed

lemma ml_empty_list:
  assumes "lanes_ok L"
  shows "ml_empty lane_cnt_of L \<longleftrightarrow> system_lane L = [] \<and> concat (user_lanes L) = []"
  using concat_Nil_iff [OF assms] unfolding ml_empty_def lane_cnt_of_def list_all_iff by auto

lemma spec_take_cases:
  assumes "\<forall>i\<in>set is. i < length ls"
  obtains (none) "spec_take is ls = (None, ls)" "\<forall>i\<in>set is. ls ! i = []"
    | (some) i where "i \<in> set is" "i < length ls" "ls ! i \<noteq> []"
      "spec_take is ls = (Some (hd (ls ! i)), ls[i := tl (ls ! i)])"
proof (cases "first_nonempty is ls")
  case None
  moreover from this have "\<forall>i\<in>set is. ls ! i = []" by (simp add: first_nonempty_None)
  ultimately show ?thesis using none by (simp add: spec_take_def)
next
  case (Some i)
  then show ?thesis using some [of i] assms first_nonempty_Some [OF Some] by (simp add: spec_take_def)
qed

section \<open>The mailbox invariant\<close>

definition user_msgs :: "mailbox \<Rightarrow> typed_message list" where
  "user_msgs mb = concat (user_lanes (lanes mb))"

definition sys_msgs :: "mailbox \<Rightarrow> typed_message list" where
  "sys_msgs mb = system_lane (lanes mb)"

text \<open>
  Sizes below \<open>2 ^ 32\<close> bytes: with a 32-bit count of messages the 64-bit byte counters then
  cannot wrap, whether or not a byte limit is configured.
\<close>

definition small_msg :: "mailbox \<Rightarrow> typed_message \<Rightarrow> bool" where
  "small_msg mb m \<longleftrightarrow> unat (estimate_node_bytes mb m) < 2 ^ 32"

definition books_ok :: "mailbox \<Rightarrow> bool" where
  "books_ok mb \<longleftrightarrow>
     books (map (estimate_node_bytes mb) (user_msgs mb)) (reservation mb) \<and>
     reserved_messages (reservation mb) \<le> max_messages (config mb) \<and>
     (max_bytes (config mb) > 0 \<longrightarrow> queued_bytes (reservation mb) \<le> max_bytes (config mb)) \<and>
     max_messages (config mb) > 0"

definition sys_books_ok :: "mailbox \<Rightarrow> bool" where
  "sys_books_ok mb \<longleftrightarrow>
     unat (system_lane_reserved mb) = length (sys_msgs mb) \<and>
     unat (system_lane_bytes mb) = byte_total (map (estimate_node_bytes mb) (sys_msgs mb)) \<and>
     system_lane_reserved mb \<le> protected_system_messages (config mb)"

definition kinds_ok :: "mailbox \<Rightarrow> bool" where
  "kinds_ok mb \<longleftrightarrow>
     (\<forall>m\<in>set (sys_msgs mb). is_system_message (tag m) \<and> small_msg mb m) \<and>
     (\<forall>m\<in>set (user_msgs mb) \<union> set (oq_queue (overflow mb)). \<not> is_system_message (tag m) \<and> small_msg mb m)"

definition mb_core :: "mailbox \<Rightarrow> bool" where
  "mb_core mb \<longleftrightarrow>
     lanes_ok (lanes mb) \<and> books_ok mb \<and> sys_books_ok mb \<and> kinds_ok mb \<and> oq_inv (overflow mb)"

definition flag_ok :: "mailbox \<Rightarrow> bool" where
  "flag_ok mb \<longleftrightarrow> (was_empty mb \<longleftrightarrow> sys_msgs mb = [] \<and> user_msgs mb = [])"

definition mb_inv :: "mailbox \<Rightarrow> bool" where
  "mb_inv mb \<longleftrightarrow> mb_core mb \<and> flag_ok mb"

lemmas mb_inv_defs = mb_inv_def mb_core_def flag_ok_def books_ok_def sys_books_ok_def kinds_ok_def small_msg_def
  sys_msgs_def user_msgs_def

text \<open>The invariant reads only these fields.\<close>

lemma mb_core_cong:
  assumes "lanes mb' = lanes mb" "reservation mb' = reservation mb" "config mb' = config mb"
    "overflow mb' = overflow mb" "node_size mb' = node_size mb"
    "system_lane_reserved mb' = system_lane_reserved mb" "system_lane_bytes mb' = system_lane_bytes mb"
  shows "mb_core mb' = mb_core mb"
  using assms estimate_node_bytes_cong [OF assms(5)] by (simp add: mb_inv_defs)

lemma mb_inv_cong:
  assumes "lanes mb' = lanes mb" "reservation mb' = reservation mb" "config mb' = config mb"
    "overflow mb' = overflow mb" "was_empty mb' = was_empty mb" "node_size mb' = node_size mb"
    "system_lane_reserved mb' = system_lane_reserved mb" "system_lane_bytes mb' = system_lane_bytes mb"
  shows "mb_inv mb' = mb_inv mb"
  using assms mb_core_cong [of mb' mb] by (simp add: mb_inv_def flag_ok_def sys_msgs_def user_msgs_def)

lemma mb_inv_emit [simp]: "mb_inv (emit e mb) = mb_inv mb"
  by (rule mb_inv_cong) simp_all

lemma mb_inv_update_pressure [simp]: "mb_inv (update_pressure_state h mb) = mb_inv mb"
  by (rule mb_inv_cong) simp_all

lemma mb_empty_iff: "lanes_ok (lanes mb) \<Longrightarrow> mb_empty mb \<longleftrightarrow> sys_msgs mb = [] \<and> user_msgs mb = []"
  by (simp add: mb_empty_def ml_empty_list sys_msgs_def user_msgs_def)

lemma books_mset: "mset xs = mset ys \<Longrightarrow> books xs r = books ys r"
  unfolding books_def byte_total_def by (metis mset_map size_mset sum_mset_sum_list)

lemma byte_total_bound:
  assumes "\<forall>m\<in>set ms. unat (f m) < 2 ^ 32" and "length ms < 2 ^ 32"
  shows "byte_total (map f ms) \<le> (2 ^ 32 - 1) * 2 ^ 32"
proof -
  have "byte_total (map f ms) \<le> length (map f ms) * 2 ^ 32"
    using assms(1) by (intro byte_total_small) auto
  also have "\<dots> \<le> (2 ^ 32 - 1) * 2 ^ 32" using assms(2) by simp
  finally show ?thesis .
qed

lemma mailbox_init_inv: "mb_inv (mailbox_init aid sz cfg)"
proof -
  have "lanes_ok (set_num_user_lanes n (multi_lane_init []))" for n
    by (auto simp: lanes_ok_def set_num_user_lanes_def multi_lane_init_def kMaxUserLanes_def
        word_le_nat_alt)
  then show ?thesis
    by (simp add: mb_inv_defs mailbox_init_def books_def overflow_init_def oq_inv_def
        normalize_capacity_def reservation_init_def set_num_user_lanes_def multi_lane_init_def word_gt_0)
qed

section \<open>Storing and removing messages\<close>

lemma try_reserve_within:
  assumes "try_reserve b mm mx r = (Reserved, r')" and "mm > 0"
  shows "reserved_messages r' \<le> mm \<and> (mx > 0 \<longrightarrow> queued_bytes r' \<le> mx)"
  using assms by (auto simp: reservation_defs word_inc_le not_le split: if_splits option.splits)

lemma user_store:
  assumes "lanes_ok (lanes mb)" and "unat i < unat (num_user_lanes (lanes mb))"
    and "lanes mb' = ml_enqueue lane_enq m i (lanes mb)"
  shows "lanes_ok (lanes mb') \<and> sys_msgs mb' = sys_msgs mb \<and>
    mset (user_msgs mb') = add_mset m (mset (user_msgs mb))"
proof -
  have "i \<noteq> kSystemLaneSentinel" using assms(1,2) by (auto simp: kSystemLaneSentinel_def lanes_ok_def)
  then have L: "lanes mb' = (lanes mb)\<lparr>user_lanes := (user_lanes (lanes mb))[unat i := user_lanes (lanes mb) ! unat i @ [m]]\<rparr>"
    using assms(3) by (simp add: ml_enqueue_def lane_enq_def)
  have "unat i < length (user_lanes (lanes mb))" using assms(1,2) by (simp add: lanes_ok_def)
  then show ?thesis
    using assms(1,2) concat_snoc_mset [of "unat i" "user_lanes (lanes mb)" m]
    by (auto simp: L lanes_ok_def sys_msgs_def user_msgs_def nth_list_update)
qed

lemma no_byte_wrap:
  assumes "mb_core mb" and "small_msg mb m"
  shows "unat (queued_bytes (reservation mb)) + unat (estimate_node_bytes mb m) < 2 ^ 64"
proof -
  have b: "books (map (estimate_node_bytes mb) (user_msgs mb)) (reservation mb)"
    and sm: "\<forall>m\<in>set (user_msgs mb). unat (estimate_node_bytes mb m) < 2 ^ 32"
    using assms by (auto simp: mb_core_def books_ok_def kinds_ok_def small_msg_def)
  have "length (user_msgs mb) < 2 ^ 32"
    using b unsigned_less [of "reserved_messages (reservation mb)", where 'a = nat] by (simp add: books_def)
  from byte_total_bound [OF sm this] b assms(2) show ?thesis
    by (simp add: books_def small_msg_def)
qed

lemma store_user_core:
  assumes "mb_core mb" and "\<not> is_system_message (tag m)" and "small_msg mb m"
    and "unat i < unat (num_user_lanes (lanes mb))"
    and "try_reserve (estimate_node_bytes mb m) (max_messages (config mb)) (max_bytes (config mb)) (reservation mb)
           = (Reserved, r')"
  shows "mb_core (enqueue_reserved m meta i quiet (mb\<lparr>reservation := r'\<rparr>))"
proof -
  let ?mb = "enqueue_reserved m meta i quiet (mb\<lparr>reservation := r'\<rparr>)"
  have est: "estimate_node_bytes ?mb = estimate_node_bytes mb"
    by (rule estimate_node_bytes_cong) simp
  have st: "lanes_ok (lanes ?mb) \<and> sys_msgs ?mb = sys_msgs mb \<and>
      mset (user_msgs ?mb) = add_mset m (mset (user_msgs mb))"
    using assms(1,4) by (intro user_store) (simp_all add: mb_core_def)
  have pos: "max_messages (config mb) > 0" using assms(1) by (simp add: mb_core_def books_ok_def)
  have "books (estimate_node_bytes mb m # map (estimate_node_bytes mb) (user_msgs mb)) r'"
    using assms(1,5) pos no_byte_wrap [OF assms(1,3)]
    by (intro try_reserve_books) (simp_all add: mb_core_def books_ok_def)
  then have "books (map (estimate_node_bytes mb) (user_msgs ?mb)) r'"
    using st books_mset [of "map (estimate_node_bytes mb) (user_msgs ?mb)"
        "estimate_node_bytes mb m # map (estimate_node_bytes mb) (user_msgs mb)" r'] by simp
  moreover have "set (user_msgs ?mb) = insert m (set (user_msgs mb))"
    using st by (metis set_mset_add_mset_insert set_mset_mset)
  ultimately show ?thesis
    using assms(1,2,3) st est try_reserve_within [OF assms(5) pos] pos
    by (auto simp: mb_core_def books_ok_def sys_books_ok_def kinds_ok_def small_msg_def)
qed

lemma store_user_flag:
  assumes "lanes_ok (lanes mb)" and "unat i < unat (num_user_lanes (lanes mb))"
  shows "flag_ok (enqueue_reserved m meta i False (mb\<lparr>reservation := r'\<rparr>))"
proof -
  let ?mb = "enqueue_reserved m meta i False (mb\<lparr>reservation := r'\<rparr>)"
  have "mset (user_msgs ?mb) = add_mset m (mset (user_msgs mb))"
    using user_store [OF assms, of ?mb m] by simp
  then have "user_msgs ?mb \<noteq> []" by auto
  then show ?thesis by (simp add: flag_ok_def)
qed

lemma store_system_inv:
  assumes "mb_core mb" and "is_system_message (tag m)" and "small_msg mb m"
    and "\<not> system_lane_reserved mb \<ge> protected_system_messages (config mb)"
  shows "mb_inv (enqueue_reserved m meta kSystemLaneSentinel False
           (mb\<lparr>system_lane_reserved := system_lane_reserved mb + 1,
               system_lane_bytes := system_lane_bytes mb + estimate_node_bytes mb m\<rparr>))"
    (is "mb_inv ?mb")
proof -
  have est: "estimate_node_bytes ?mb = estimate_node_bytes mb"
    by (rule estimate_node_bytes_cong) simp
  have L: "lanes ?mb = (lanes mb)\<lparr>system_lane := system_lane (lanes mb) @ [m]\<rparr>"
    by (simp add: ml_enqueue_def lane_enq_def)
  have msgs: "sys_msgs ?mb = sys_msgs mb @ [m]" "user_msgs ?mb = user_msgs mb"
    by (simp_all only: sys_msgs_def user_msgs_def L) simp_all
  have cnt: "unat (system_lane_reserved mb) = length (sys_msgs mb)"
    and bytes: "unat (system_lane_bytes mb) = byte_total (map (estimate_node_bytes mb) (sys_msgs mb))"
    and sm: "\<forall>m\<in>set (sys_msgs mb). unat (estimate_node_bytes mb m) < 2 ^ 32"
    using assms(1) by (simp_all add: mb_core_def sys_books_ok_def kinds_ok_def small_msg_def)
  have "length (sys_msgs mb) < 2 ^ 32"
    using cnt unsigned_less [of "system_lane_reserved mb", where 'a = nat] by simp
  from byte_total_bound [OF sm this]
  have "unat (system_lane_bytes mb) + unat (estimate_node_bytes mb m) < 2 ^ 64"
    using bytes assms(3) by (simp add: small_msg_def)
  then have "unat (system_lane_bytes mb + estimate_node_bytes mb m) =
      unat (system_lane_bytes mb) + unat (estimate_node_bytes mb m)" by simp
  moreover have "unat (system_lane_reserved mb + 1) = Suc (unat (system_lane_reserved mb))"
    "system_lane_reserved mb + 1 \<le> protected_system_messages (config mb)"
    using assms(4) by (simp_all add: unat_inc_less word_inc_le not_le)
  moreover have "lanes_ok (lanes ?mb)" using assms(1) by (simp only: L) (simp add: mb_core_def lanes_ok_def)
  ultimately show ?thesis
    using assms(1,2,3) msgs est cnt bytes
    by (auto simp: mb_inv_def flag_ok_def mb_core_def books_ok_def sys_books_ok_def kinds_ok_def small_msg_def)
qed

lemma route_lane_in_range:
  assumes "lanes_ok (lanes mb)" and "\<not> is_system_message (type_tag_of meta)"
  shows "unat (route_lane meta mb) < unat (num_user_lanes (lanes mb))"
proof -
  let ?n = "num_user_lanes (lanes mb)"
  have n: "1 \<le> unat ?n" using assms(1) by (simp add: lanes_ok_def)
  then have "(1 :: u8) \<le> ?n" by (simp add: word_le_nat_alt)
  then have "unat (?n - 1) = unat ?n - 1" by (simp add: unat_minus_le)
  moreover have "unat (min (priority meta) (?n - 1)) \<le> unat (?n - 1)"
    by (simp add: min_def word_le_nat_alt)
  ultimately have "unat (min (priority meta) (?n - 1)) < unat ?n" using n by linarith
  then show ?thesis using assms(2) n by (simp add: route_lane_def)
qed

text \<open>
  Taking the oldest message of a user lane, as a dequeue or an eviction does, together with
  the release of its reservation.
\<close>

definition without_head :: "nat \<Rightarrow> mailbox \<Rightarrow> mailbox" where
  "without_head i mb =
     mb\<lparr>lanes := (lanes mb)\<lparr>user_lanes :=
          (user_lanes (lanes mb))[i := tl (user_lanes (lanes mb) ! i)]\<rparr>\<rparr>"

lemma without_head_frame [simp]:
  "config (without_head i mb) = config mb" "overflow (without_head i mb) = overflow mb"
  "node_size (without_head i mb) = node_size mb" "limiter (without_head i mb) = limiter mb"
  "num_user_lanes (lanes (without_head i mb)) = num_user_lanes (lanes mb)"
  "system_lane (lanes (without_head i mb)) = system_lane (lanes mb)"
  "notified (without_head i mb) = notified mb" "actor_id (without_head i mb) = actor_id mb"
  "reservation (without_head i mb) = reservation mb" "was_empty (without_head i mb) = was_empty mb"
  "total_dropped (without_head i mb) = total_dropped mb"
  by (simp_all add: without_head_def)

lemma user_take:
  assumes "lanes_ok (lanes mb)" and "i < 8" and "user_lanes (lanes mb) ! i \<noteq> []"
  shows "lanes_ok (lanes (without_head i mb)) \<and> sys_msgs (without_head i mb) = sys_msgs mb \<and>
    mset (user_msgs mb) =
      add_mset (hd (user_lanes (lanes mb) ! i)) (mset (user_msgs (without_head i mb)))"
proof -
  have "i < length (user_lanes (lanes mb))" using assms by (simp add: lanes_ok_def)
  from concat_take_mset [OF this assms(3)] show ?thesis
    using assms by (auto simp: without_head_def lanes_ok_def sys_msgs_def user_msgs_def nth_list_update)
qed

lemma release_le: "books hs r \<Longrightarrow> b \<in> set hs \<Longrightarrow>
    reserved_messages (release b r) \<le> reserved_messages r \<and> queued_bytes (release b r) \<le> queued_bytes r"
  using release_books [of hs r b] byte_total_remove1 [of b hs] length_remove1_Suc [of b hs]
  by (simp add: books_def word_le_nat_alt)

lemma take_user_core:
  assumes "mb_core mb" and "i < 8" and "user_lanes (lanes mb) ! i = m # ms"
  shows "mb_core ((without_head i mb)\<lparr>reservation := release (estimate_node_bytes mb m) (reservation mb)\<rparr>)"
    (is "mb_core ?mb")
proof -
  let ?e = "estimate_node_bytes mb"
  have tk: "lanes_ok (lanes ?mb)" "sys_msgs ?mb = sys_msgs mb"
    "mset (user_msgs mb) = add_mset m (mset (user_msgs ?mb))"
    using user_take [of mb i] assms by (auto simp: mb_core_def user_msgs_def sys_msgs_def)
  have est: "estimate_node_bytes ?mb = ?e"
    by (rule estimate_node_bytes_cong) (simp add: without_head_def)
  have held: "books (map ?e (user_msgs mb)) (reservation mb)"
    using assms(1) by (simp add: mb_core_def books_ok_def)
  have "m \<in> set (user_msgs mb)" using tk(3) by (metis set_mset_mset union_single_eq_member)
  then have mem: "?e m \<in> set (map ?e (user_msgs mb))" by simp
  have "mset (remove1 (?e m) (map ?e (user_msgs mb))) = mset (map ?e (user_msgs ?mb))"
    using tk(3) by simp
  then have "books (map ?e (user_msgs ?mb)) (release (?e m) (reservation mb))"
    using release_books [OF held mem] books_mset by blast
  moreover have "set (user_msgs ?mb) \<subseteq> set (user_msgs mb)"
    using tk(3) by (metis set_mset_add_mset_insert set_mset_mset subset_insertI)
  ultimately show ?thesis
    using assms(1) tk(1,2) est release_le [OF held mem]
    by (auto simp: mb_core_def books_ok_def sys_books_ok_def kinds_ok_def small_msg_def without_head_def
        intro: order_trans)
qed

lemma set_pending_free_lanes [simp]:
  "system_lane (set_pending_free n L) = system_lane L"
  "user_lanes (set_pending_free n L) = user_lanes L"
  "num_user_lanes (set_pending_free n L) = num_user_lanes L"
  by (simp_all add: set_pending_free_def free_node_def Let_def split: option.splits)

lemma lanes_ok_pending [simp]: "lanes_ok (set_pending_free n L) = lanes_ok L"
  by (simp add: lanes_ok_def)

lemma pending_core: "mb_core (mb\<lparr>lanes := set_pending_free n (lanes mb)\<rparr>) = mb_core mb"
proof -
  have "estimate_node_bytes (mb\<lparr>lanes := set_pending_free n (lanes mb)\<rparr>) = estimate_node_bytes mb"
    by (rule estimate_node_bytes_cong) simp
  then show ?thesis by (simp add: mb_core_def mb_inv_defs)
qed

lemma pending_inv: "mb_inv (mb\<lparr>lanes := set_pending_free n (lanes mb)\<rparr>) = mb_inv mb"
  by (simp add: mb_inv_def pending_core) (simp add: flag_ok_def sys_msgs_def user_msgs_def)

lemma evict_inv:
  assumes "mb_inv mb" and "i < 8" and "user_lanes (lanes mb) ! i = m # ms"
  shows "mb_inv (evict m (without_head i mb))"
proof -
  let ?mb1 = "(without_head i mb)\<lparr>reservation := release (estimate_node_bytes mb m) (reservation mb)\<rparr>"
  have core: "mb_core ?mb1" using assms by (intro take_user_core) (simp_all add: mb_inv_def)
  have "user_msgs mb \<noteq> []"
    using user_take [of mb i] assms by (auto simp: mb_inv_def mb_core_def)
  then have nw: "\<not> was_empty mb" using assms(1) by (simp add: mb_inv_def flag_ok_def)
  have est: "estimate_node_bytes (without_head i mb) = estimate_node_bytes mb"
    by (rule estimate_node_bytes_cong) (simp add: without_head_def)
  define mb2 where "mb2 = emit (metric kMailboxDropped 1) (update_pressure_state False
      (?mb1\<lparr>total_dropped := total_dropped mb + 1\<rparr>))"
  have core2: "mb_core mb2"
    using core mb_core_cong [of mb2 ?mb1] unfolding mb2_def by simp
  have w: "\<not> was_empty mb2" using nw by (simp add: mb2_def)
  have "evict m (without_head i mb) =
      (let mb3 = (if mb_empty mb2 then mb2\<lparr>was_empty := True\<rparr> else mb2)
       in mb3\<lparr>lanes := set_pending_free m (lanes mb3)\<rparr>)"
    by (simp only: evict_def est mb2_def Let_def without_head_frame)
  moreover have "mb_inv (if mb_empty mb2 then mb2\<lparr>was_empty := True\<rparr> else mb2)"
    using core2 w mb_empty_iff [of mb2] mb_core_cong [of "mb2\<lparr>was_empty := True\<rparr>" mb2]
    by (auto simp: mb_inv_def flag_ok_def mb_core_def sys_msgs_def user_msgs_def)
  ultimately show ?thesis by (simp add: Let_def pending_inv)
qed

text \<open>Both eviction callbacks: they fail on empty user lanes, else evict one message.\<close>

definition dropped :: "mailbox \<Rightarrow> bool \<Rightarrow> mailbox \<Rightarrow> bool" where
  "dropped mb ok mb' \<longleftrightarrow>
     (if ok then (\<exists>i m ms. i < 8 \<and> user_lanes (lanes mb) ! i = m # ms \<and> mb' = evict m (without_head i mb))
      else mb' = mb \<and> user_msgs mb = [])"

lemma take_user_lane_dropped:
  assumes "lanes_ok (lanes mb)" and "set is = {0..<unat (num_user_lanes (lanes mb))}"
  shows "case take_first lane_deq is (user_lanes (lanes mb)) of
      (None, ls) \<Rightarrow> dropped mb False (mb\<lparr>lanes := (lanes mb)\<lparr>user_lanes := ls\<rparr>\<rparr>)
    | (Some node, ls) \<Rightarrow> dropped mb True (evict node (mb\<lparr>lanes := (lanes mb)\<lparr>user_lanes := ls\<rparr>\<rparr>))"
proof -
  have r: "\<forall>i\<in>set is. i < length (user_lanes (lanes mb))"
    using assms by (auto simp: lanes_ok_def)
  from r show ?thesis
  proof (cases rule: spec_take_cases)
    case none
    then have "user_msgs mb = []"
      using assms concat_Nil_iff [OF assms(1)] by (simp add: user_msgs_def)
    then show ?thesis using none take_first_list [OF r] by (simp add: dropped_def)
  next
    case (some i)
    then obtain m ms where "user_lanes (lanes mb) ! i = m # ms" by (cases "user_lanes (lanes mb) ! i") auto
    moreover have "i < 8" using some assms(1) by (simp add: lanes_ok_def)
    ultimately show ?thesis
      using some take_first_list [OF r] by (auto simp: dropped_def without_head_def)
  qed
qed

lemma drop_one_oldest_dropped:
  assumes "lanes_ok (lanes mb)" and "drop_one_oldest_global mb = (ok, mb')"
  shows "dropped mb ok mb'"
  using take_user_lane_dropped [OF assms(1), of "[0..<unat (num_user_lanes (lanes mb))]"] assms(2)
  by (auto simp: drop_one_oldest_global_def try_drop_oldest_user_lane_def split: prod.splits option.splits)

lemma drop_one_lowest_dropped:
  assumes "lanes_ok (lanes mb)" and "drop_one_lowest_priority mb = (ok, mb')"
  shows "dropped mb ok mb'"
  using take_user_lane_dropped [OF assms(1), of "rev [0..<unat (num_user_lanes (lanes mb))]"] assms(2)
  by (auto simp: drop_one_lowest_priority_def try_drop_from_lowest_user_lane_def split: prod.splits option.splits)

lemma dropped_inv: "dropped mb ok mb' \<Longrightarrow> mb_inv mb \<Longrightarrow> mb_inv mb'"
  by (auto simp: dropped_def evict_inv split: if_splits)

lemma evict_frame [simp]:
  "config (evict m mb) = config mb" "overflow (evict m mb) = overflow mb"
  "node_size (evict m mb) = node_size mb" "limiter (evict m mb) = limiter mb"
  "num_user_lanes (lanes (evict m mb)) = num_user_lanes (lanes mb)"
  "user_lanes (lanes (evict m mb)) = user_lanes (lanes mb)"
  "system_lane (lanes (evict m mb)) = system_lane (lanes mb)"
  "notified (evict m mb) = notified mb" "actor_id (evict m mb) = actor_id mb"
  by (simp_all add: evict_def Let_def)

lemma dropped_frame:
  assumes "dropped mb ok mb'"
  shows "config mb' = config mb \<and> overflow mb' = overflow mb \<and> node_size mb' = node_size mb \<and>
    num_user_lanes (lanes mb') = num_user_lanes (lanes mb) \<and> sys_msgs mb' = sys_msgs mb \<and>
    notified mb' = notified mb \<and> actor_id mb' = actor_id mb"
  using assms by (auto simp: dropped_def sys_msgs_def split: if_splits)

end
