(* ===== verification/Overflow_Handlers.thy ===== *)
theory Overflow_Handlers
  imports Mailbox_State
begin

text \<open>
  The overflow handlers under \<open>include/hpactor/mailbox/detail/handlers/\<close> and their factory.
  A handler runs on the mailbox whose members its \<open>OverflowContext\<close> refers to; the depth
  and byte count captured in the context are arguments. \<open>overflow_handler\<close> is the contract
  \<open>IOverflowHandler\<close> has with \<open>try_push\<close>; every handler satisfies it.
\<close>

section \<open>Handlers\<close>

type_synonym handler =
  "typed_message \<Rightarrow> u32 \<Rightarrow> u64 \<Rightarrow> reservation_result \<Rightarrow> mailbox \<Rightarrow> enqueue_result \<times> mailbox"

definition build_result ::
  "enqueue_result_code \<Rightarrow> backpressure_reason \<Rightarrow> u32 \<Rightarrow> u64 \<Rightarrow> mailbox \<Rightarrow> enqueue_result"
where
  "build_result c why d b mb =
     default_result\<lparr>code := c, target := actor_id mb, depth := d,
       capacity := max_messages (config mb), result_bytes := b,
       byte_capacity := max_bytes (config mb), pressure_reason := why\<rparr>"

definition capacity_reason :: "reservation_result \<Rightarrow> backpressure_reason" where
  "capacity_reason r = (if r = ByteCapacity then ByteCapacityReason else HardCapacity)"

definition count_rejected :: "mailbox \<Rightarrow> mailbox" where
  "count_rejected mb = emit (metric kMailboxRejected 1) (mb\<lparr>total_rejected := total_rejected mb + 1\<rparr>)"

definition reject_newest_handle :: handler where
  "reject_newest_handle m d b r mb =
     (let mb' = count_rejected mb in (build_result Rejected (capacity_reason r) d b mb', mb'))"

definition drop_newest_handle :: handler where
  "drop_newest_handle m d b r mb =
     (let mb' = emit (metric kMailboxDropped 1) (mb\<lparr>total_dropped := total_dropped mb + 1\<rparr>)
      in (build_result DroppedNewest OverflowPolicyReason d b mb', mb'))"

definition drop_oldest_handle :: handler where
  "drop_oldest_handle m d b r mb =
     (let (ok, mb1) = drop_one_oldest_global mb in
      if ok then (build_result DroppedExisting OverflowPolicyReason d b mb1, mb1)
      else (let mb' = count_rejected mb1 in (build_result Rejected (capacity_reason r) d b mb', mb')))"

definition drop_lowest_priority_handle :: handler where
  "drop_lowest_priority_handle m d b r mb =
     (let (ok, mb1) = drop_one_lowest_priority mb in
      if ok then (build_result DroppedExisting OverflowPolicyReason d b mb1, mb1)
      else (let mb' = count_rejected mb1 in (build_result Rejected (capacity_reason r) d b mb', mb')))"

definition dead_letter_handle :: handler where
  "dead_letter_handle m d b r mb =
     (let mb' = emit (metric kMailboxDeadLetter 1) (mb\<lparr>total_dead_letters := total_dead_letters mb + 1\<rparr>)
      in (build_result ReroutedToDeadLetter OverflowPolicyReason d b mb', mb'))"

definition signal_only_handle :: handler where
  "signal_only_handle m d b r mb =
     (let mb' = count_rejected mb
      in ((build_result Rejected (capacity_reason r) d b mb')
            \<lparr>retry_after := unat (signal_min_interval_ms (config mb'))\<rparr>, mb'))"

definition spill_to_overflow_handle :: handler where
  "spill_to_overflow_handle m d b r mb =
     (let (ok, oq) = oq_try_push m (overflow mb); mb1 = mb\<lparr>overflow := oq\<rparr> in
      if ok then (build_result ReroutedToOverflow (capacity_reason r) d b mb1, mb1)
      else (let mb' = count_rejected mb1 in (build_result Rejected (capacity_reason r) d b mb', mb')))"

fun make_overflow_handler :: "overflow_policy \<Rightarrow> handler" where
  "make_overflow_handler RejectNewest = reject_newest_handle"
| "make_overflow_handler DropNewest = drop_newest_handle"
| "make_overflow_handler DropOldest = drop_oldest_handle"
| "make_overflow_handler DeadLetter = dead_letter_handle"
| "make_overflow_handler SignalOnly = signal_only_handle"
| "make_overflow_handler SpillToOverflowQueue = spill_to_overflow_handle"
| "make_overflow_handler DropLowestPriority = drop_lowest_priority_handle"
| "make_overflow_handler BlockWhenAllowed = reject_newest_handle"

text \<open>
  What \<open>try_push\<close> does once the reservation has failed: run the handler, complete its
  result, and after an eviction try to reserve once more.
\<close>

definition push_overflow ::
  "handler \<Rightarrow> typed_message \<Rightarrow> mailbox_envelope_meta \<Rightarrow> u8 \<Rightarrow> reservation_result \<Rightarrow> mailbox
     \<Rightarrow> enqueue_result \<times> mailbox"
where
  "push_overflow handle msg meta lane res mb0 =
     (let mb1 = update_pressure_state True mb0;
          (r0, mb2) = handle msg (of_int (mb_depth mb1)) (queued_bytes (reservation mb1)) res mb1;
          r1 = r0\<lparr>pressure_state_of := pressure_state mb2, pressure_ratio_of := pressure_ratio mb2\<rparr>;
          r2 = (if retry_after r1 = 0
                then r1\<lparr>retry_after := retry_after_of (config mb2) (pressure_state_of r1)\<rparr> else r1)
      in if code r2 = DroppedExisting then
           (let (res2, rm) = try_reserve (estimated_bytes meta) (max_messages (config mb2))
                               (max_bytes (config mb2)) (reservation mb2);
                mb3 = mb2\<lparr>reservation := rm\<rparr>
            in if res2 = Reserved
               then (let mb4 = enqueue_reserved msg meta lane False mb3
                     in (make_result (code_after_accept (pressure_state mb4)) HighWatermark mb4, mb4))
               else (r2\<lparr>code := Rejected\<rparr>,
                     update_pressure_state True (mb3\<lparr>total_rejected := total_rejected mb3 + 1\<rparr>)))
         else (r2, mb2))"

section \<open>The contract\<close>

definition handled_msgs :: "typed_message \<Rightarrow> enqueue_result_code \<Rightarrow> mailbox \<Rightarrow> mailbox \<Rightarrow> bool" where
  "handled_msgs m c mb mb' \<longleftrightarrow>
     (if c = DroppedExisting then
        overflow mb' = overflow mb \<and> (\<exists>x. mset (user_msgs mb) = add_mset x (mset (user_msgs mb')))
      else if c = ReroutedToOverflow then
        user_msgs mb' = user_msgs mb \<and> overflow mb' = snd (oq_try_push m (overflow mb))
      else user_msgs mb' = user_msgs mb \<and> overflow mb' = overflow mb)"

definition handled_frame :: "mailbox \<Rightarrow> mailbox \<Rightarrow> bool" where
  "handled_frame mb mb' \<longleftrightarrow>
     config mb' = config mb \<and> node_size mb' = node_size mb \<and>
     num_user_lanes (lanes mb') = num_user_lanes (lanes mb) \<and> sys_msgs mb' = sys_msgs mb \<and>
     notified mb' = notified mb \<and> actor_id mb' = actor_id mb"

text \<open>What a push on a full mailbox does to the queued messages, by the code it returns.\<close>

definition full_outcome :: "typed_message \<Rightarrow> enqueue_result_code \<Rightarrow> mailbox \<Rightarrow> mailbox \<Rightarrow> bool" where
  "full_outcome m c mb mb' \<longleftrightarrow>
     sys_msgs mb' = sys_msgs mb \<and>
     (if c \<in> {Accepted, AcceptedWithSoftPressure} then
        overflow mb' = overflow mb \<and>
        (\<exists>x \<in># mset (user_msgs mb). mset (user_msgs mb') = add_mset m (mset (user_msgs mb) - {#x#}))
      else if c = ReroutedToOverflow then
        user_msgs mb' = user_msgs mb \<and> overflow mb' = snd (oq_try_push m (overflow mb))
      else if c = Rejected then
        overflow mb' = overflow mb \<and>
        (user_msgs mb' = user_msgs mb \<or>
         (\<exists>x \<in># mset (user_msgs mb). mset (user_msgs mb') = mset (user_msgs mb) - {#x#}))
      else c \<in> {DroppedNewest, ReroutedToDeadLetter} \<and>
        user_msgs mb' = user_msgs mb \<and> overflow mb' = overflow mb)"

locale overflow_handler =
  fixes handle :: handler
  assumes handle_inv:
      "mb_inv mb \<Longrightarrow> \<not> is_system_message (tag m) \<Longrightarrow> small_msg mb m \<Longrightarrow> mb_inv (snd (handle m d b r mb))"
    and handle_frame: "mb_inv mb \<Longrightarrow> handled_frame mb (snd (handle m d b r mb))"
    and handle_code:
      "code (fst (handle m d b r mb)) \<in>
         {Rejected, DroppedNewest, DroppedExisting, ReroutedToDeadLetter, ReroutedToOverflow}"
    and handle_msgs:
      "mb_inv mb \<Longrightarrow> handled_msgs m (code (fst (handle m d b r mb))) mb (snd (handle m d b r mb))"
begin

lemma push_overflow_cases:
  assumes "mb_inv mb" and "handle m (of_int (mb_depth (update_pressure_state True mb)))
      (queued_bytes (reservation mb)) res (update_pressure_state True mb) = (r0, mb2)"
  obtains (stored) rm where "code r0 = DroppedExisting"
      "try_reserve (estimated_bytes meta) (max_messages (config mb2)) (max_bytes (config mb2)) (reservation mb2)
         = (Reserved, rm)"
      "snd (push_overflow handle m meta lane res mb) =
         enqueue_reserved m meta lane False (mb2\<lparr>reservation := rm\<rparr>)"
      "code (fst (push_overflow handle m meta lane res mb)) \<in> {Accepted, AcceptedWithSoftPressure}"
    | (lost) mb3 where "code r0 = DroppedExisting" "mb3 = update_pressure_state True (mb2\<lparr>total_rejected := total_rejected mb2 + 1\<rparr>)"
      "snd (push_overflow handle m meta lane res mb) = mb3"
      "code (fst (push_overflow handle m meta lane res mb)) = Rejected"
    | (answered) "code r0 \<noteq> DroppedExisting" "snd (push_overflow handle m meta lane res mb) = mb2"
      "code (fst (push_overflow handle m meta lane res mb)) = code r0"
proof (cases "code r0 = DroppedExisting")
  case False
  then show ?thesis using assms(2) by (intro answered) (simp_all add: push_overflow_def Let_def)
next
  case True
  obtain res2 rm where t: "try_reserve (estimated_bytes meta) (max_messages (config mb2))
      (max_bytes (config mb2)) (reservation mb2) = (res2, rm)" by force
  show ?thesis
  proof (cases "res2 = Reserved")
    case True
    then show ?thesis
      using \<open>code r0 = DroppedExisting\<close> t assms(2) code_after_accept_cases
      by (intro stored [of rm]) (simp_all add: push_overflow_def make_result_def Let_def)
  next
    case False
    then have "rm = reservation mb2" using try_reserve_rejects_unchanged [OF t] by simp
    then show ?thesis
      using \<open>code r0 = DroppedExisting\<close> t assms(2) False
      by (intro lost [OF _ refl]) (simp_all add: push_overflow_def Let_def)
  qed
qed

lemma push_overflow_inv:
  assumes "mb_inv mb" and "\<not> is_system_message (tag m)" and "small_msg mb m"
    and "unat lane < unat (num_user_lanes (lanes mb))"
    and "estimated_bytes meta = estimate_node_bytes mb m"
  shows "mb_inv (snd (push_overflow handle m meta lane res mb))"
proof -
  let ?mb1 = "update_pressure_state True mb"
  obtain r0 mb2 where h: "handle m (of_int (mb_depth ?mb1)) (queued_bytes (reservation mb)) res ?mb1
      = (r0, mb2)" by force
  have inv1: "mb_inv ?mb1" and sm1: "small_msg ?mb1 m"
    using assms(1,3) estimate_node_bytes_cong [of ?mb1 mb] by (simp_all add: small_msg_def)
  have inv2: "mb_inv mb2" and fr: "handled_frame ?mb1 mb2"
    using handle_inv [OF inv1 assms(2) sm1] handle_frame [OF inv1] h by (metis snd_conv)+
  have est: "estimate_node_bytes mb2 = estimate_node_bytes mb"
    using fr by (intro estimate_node_bytes_cong) (simp add: handled_frame_def)
  have sm2: "small_msg mb2 m" and lane2: "unat lane < unat (num_user_lanes (lanes mb2))"
    using assms(3,4) est fr by (simp_all add: small_msg_def handled_frame_def)
  from assms(1) h show ?thesis
  proof (cases rule: push_overflow_cases [where meta = meta and lane = lane])
    case (stored rm)
    have "mb_core (enqueue_reserved m meta lane False (mb2\<lparr>reservation := rm\<rparr>))"
      using inv2 assms(2,5) sm2 lane2 stored est by (intro store_user_core) (simp_all add: mb_inv_def)
    moreover have "flag_ok (enqueue_reserved m meta lane False (mb2\<lparr>reservation := rm\<rparr>))"
      using inv2 lane2 by (intro store_user_flag) (simp_all add: mb_inv_def mb_core_def)
    ultimately show ?thesis using stored by (simp add: mb_inv_def)
  next
    case (lost mb3)
    then show ?thesis
      using inv2 mb_inv_cong [of "mb2\<lparr>total_rejected := total_rejected mb2 + 1\<rparr>" mb2] by simp
  next
    case answered
    then show ?thesis using inv2 by simp
  qed
qed

lemma push_overflow_outcome:
  assumes "mb_inv mb" and "\<not> is_system_message (tag m)" and "small_msg mb m"
    and "unat lane < unat (num_user_lanes (lanes mb))"
    and "push_overflow handle m meta lane res mb = (r, mb')"
  shows "full_outcome m (code r) mb mb'"
proof -
  let ?mb1 = "update_pressure_state True mb"
  let ?d = "of_int (mb_depth ?mb1)" and ?b = "queued_bytes (reservation mb)"
  obtain r0 mb2 where h: "handle m ?d ?b res ?mb1 = (r0, mb2)" by force
  have inv1: "mb_inv ?mb1" and sm1: "small_msg ?mb1 m"
    using assms(1,3) estimate_node_bytes_cong [of ?mb1 mb] by (simp_all add: small_msg_def)
  have same1: "user_msgs ?mb1 = user_msgs mb" "sys_msgs ?mb1 = sys_msgs mb"
    by (simp_all add: user_msgs_def sys_msgs_def)
  have ok2: "lanes_ok (lanes mb2)" and fr: "handled_frame ?mb1 mb2"
    and ms: "handled_msgs m (code r0) ?mb1 mb2"
    using handle_inv [OF inv1 assms(2) sm1, of ?d ?b res] handle_frame [OF inv1, of m ?d ?b res]
      handle_msgs [OF inv1, of m ?d ?b res] h by (simp_all add: mb_inv_def mb_core_def)
  have sys2: "sys_msgs mb2 = sys_msgs mb" and lane2: "unat lane < unat (num_user_lanes (lanes mb2))"
    using fr assms(4) same1 by (simp_all add: handled_frame_def)
  from assms(1) h show ?thesis
  proof (cases rule: push_overflow_cases [where meta = meta and lane = lane])
    case (stored rm)
    obtain x where x: "mset (user_msgs mb) = add_mset x (mset (user_msgs mb2))"
      and oq: "overflow mb2 = overflow mb"
      using ms stored(1) same1 by (auto simp: handled_msgs_def)
    have mb': "mb' = enqueue_reserved m meta lane False (mb2\<lparr>reservation := rm\<rparr>)"
      using stored(3) assms(5) by simp
    have "sys_msgs mb' = sys_msgs mb2" "mset (user_msgs mb') = add_mset m (mset (user_msgs mb2))"
      using user_store [OF ok2 lane2, of mb' m] mb' by simp_all
    then show ?thesis
      using stored(4) assms(5) x oq sys2 mb' by (auto simp: full_outcome_def intro!: bexI [of _ x])
  next
    case (lost mb3)
    obtain x where x: "mset (user_msgs mb) = add_mset x (mset (user_msgs mb2))"
      and oq: "overflow mb2 = overflow mb"
      using ms lost(1) same1 by (auto simp: handled_msgs_def)
    have "user_msgs mb' = user_msgs mb2" "sys_msgs mb' = sys_msgs mb2" "overflow mb' = overflow mb2"
      using lost(2,3) assms(5) by (simp_all add: user_msgs_def sys_msgs_def)
    then show ?thesis
      using lost(4) assms(5) x oq sys2 by (auto simp: full_outcome_def)
  next
    case answered
    have "code r0 \<in> {Rejected, DroppedNewest, DroppedExisting, ReroutedToDeadLetter, ReroutedToOverflow}"
      using handle_code [of m ?d ?b res ?mb1] h by simp
    then show ?thesis
      using answered assms(5) ms sys2 same1 by (auto simp: full_outcome_def handled_msgs_def)
  qed
qed

end

section \<open>Every handler keeps the contract\<close>

lemma build_result_code [simp]: "code (build_result c why d b mb) = c"
  by (simp add: build_result_def)

lemma count_rejected_frame [simp]:
  "lanes (count_rejected mb) = lanes mb" "reservation (count_rejected mb) = reservation mb"
  "config (count_rejected mb) = config mb" "overflow (count_rejected mb) = overflow mb"
  "was_empty (count_rejected mb) = was_empty mb" "node_size (count_rejected mb) = node_size mb"
  "notified (count_rejected mb) = notified mb" "actor_id (count_rejected mb) = actor_id mb"
  "system_lane_reserved (count_rejected mb) = system_lane_reserved mb"
  "system_lane_bytes (count_rejected mb) = system_lane_bytes mb"
  by (simp_all add: count_rejected_def)

lemma count_rejected_inv [simp]: "mb_inv (count_rejected mb) = mb_inv mb"
  by (rule mb_inv_cong) simp_all

text \<open>Handlers that only count, and handlers that evict.\<close>

lemma counting_handler:
  assumes "\<And>m d b r mb. mb_inv (snd (h m d b r mb)) = mb_inv mb"
    and "\<And>m d b r mb. lanes (snd (h m d b r mb)) = lanes mb \<and> overflow (snd (h m d b r mb)) = overflow mb \<and>
      config (snd (h m d b r mb)) = config mb \<and> node_size (snd (h m d b r mb)) = node_size mb \<and>
      notified (snd (h m d b r mb)) = notified mb \<and> actor_id (snd (h m d b r mb)) = actor_id mb"
    and "\<And>m d b r mb. code (fst (h m d b r mb)) \<in> {Rejected, DroppedNewest, ReroutedToDeadLetter}"
  shows "overflow_handler h"
proof
  fix m d b r mb
  show "mb_inv mb \<Longrightarrow> mb_inv (snd (h m d b r mb))" using assms(1) by simp
  show "handled_frame mb (snd (h m d b r mb))"
    using assms(2) by (simp add: handled_frame_def sys_msgs_def)
  show "code (fst (h m d b r mb)) \<in>
      {Rejected, DroppedNewest, DroppedExisting, ReroutedToDeadLetter, ReroutedToOverflow}"
    using assms(3) [of m d b r mb] by auto
  show "handled_msgs m (code (fst (h m d b r mb))) mb (snd (h m d b r mb))"
    using assms(2,3) [of m d b r mb] by (auto simp: handled_msgs_def user_msgs_def)
qed

lemma counter_inv:
  "mb_inv (mb\<lparr>total_dropped := k\<rparr>) = mb_inv mb" "mb_inv (mb\<lparr>total_dead_letters := k\<rparr>) = mb_inv mb"
  by (rule mb_inv_cong; simp)+

lemma evicting_handler:
  assumes "\<And>mb ok mb'. lanes_ok (lanes mb) \<Longrightarrow> evict_fn mb = (ok, mb') \<Longrightarrow> dropped mb ok mb'"
    and "\<And>m d b r mb. h m d b r mb =
      (let (ok, mb1) = evict_fn mb in
       if ok then (build_result DroppedExisting OverflowPolicyReason d b mb1, mb1)
       else (let mb' = count_rejected mb1 in (build_result Rejected (capacity_reason r) d b mb', mb')))"
  shows "overflow_handler h"
proof
  fix m d b r mb
  obtain ok mb1 where e: "evict_fn mb = (ok, mb1)" by force
  have dr: "mb_inv mb \<Longrightarrow> dropped mb ok mb1" using assms(1) [OF _ e] by (simp add: mb_inv_def mb_core_def)
  show "mb_inv mb \<Longrightarrow> mb_inv (snd (h m d b r mb))"
    using dr dropped_inv [of mb ok mb1] e by (simp add: assms(2) Let_def)
  show "mb_inv mb \<Longrightarrow> handled_frame mb (snd (h m d b r mb))"
    using dropped_frame [OF dr] e by (simp add: assms(2) Let_def handled_frame_def sys_msgs_def)
  show "code (fst (h m d b r mb)) \<in>
      {Rejected, DroppedNewest, DroppedExisting, ReroutedToDeadLetter, ReroutedToOverflow}"
    using e by (simp add: assms(2) Let_def)
  assume inv: "mb_inv mb"
  show "handled_msgs m (code (fst (h m d b r mb))) mb (snd (h m d b r mb))"
  proof (cases ok)
    case False
    then show ?thesis using dr [OF inv] e by (simp add: assms(2) Let_def handled_msgs_def dropped_def user_msgs_def)
  next
    case True
    then obtain i x xs where i: "i < 8" "user_lanes (lanes mb) ! i = x # xs" "mb1 = evict x (without_head i mb)"
      using dr [OF inv] by (auto simp: dropped_def)
    have "mset (user_msgs mb) = add_mset x (mset (user_msgs (without_head i mb)))"
      using user_take [of mb i] i inv by (auto simp: mb_inv_def mb_core_def)
    moreover have "user_msgs mb1 = user_msgs (without_head i mb)"
      using i by (simp add: user_msgs_def)
    ultimately show ?thesis using i True e by (auto simp: assms(2) Let_def handled_msgs_def)
  qed
qed

interpretation reject_newest: overflow_handler reject_newest_handle
  by (rule counting_handler) (simp_all add: reject_newest_handle_def Let_def)

interpretation drop_newest: overflow_handler drop_newest_handle
  by (rule counting_handler) (simp_all add: drop_newest_handle_def Let_def counter_inv)

interpretation dead_letter: overflow_handler dead_letter_handle
  by (rule counting_handler) (simp_all add: dead_letter_handle_def Let_def counter_inv)

interpretation signal_only: overflow_handler signal_only_handle
  by (rule counting_handler) (simp_all add: signal_only_handle_def Let_def)

interpretation drop_oldest: overflow_handler drop_oldest_handle
  by (rule evicting_handler [OF drop_one_oldest_dropped]) (simp_all add: drop_oldest_handle_def)

interpretation drop_lowest: overflow_handler drop_lowest_priority_handle
  by (rule evicting_handler [OF drop_one_lowest_dropped]) (simp_all add: drop_lowest_priority_handle_def)

lemma oq_try_push_True [simp]: "fst (oq_try_push m q)"
  by (simp add: oq_try_push_def)

lemma oq_try_push_subset: "set (oq_queue (snd (oq_try_push m q))) \<subseteq> insert m (set (oq_queue q))"
  by (auto simp: oq_try_push_def dest: list.set_sel(2) [rotated])

lemma spill_eq:
  "spill_to_overflow_handle m d b r mb =
     (let mb1 = mb\<lparr>overflow := snd (oq_try_push m (overflow mb))\<rparr>
      in (build_result ReroutedToOverflow (capacity_reason r) d b mb1, mb1))"
  by (simp add: spill_to_overflow_handle_def oq_try_push_def Let_def)

interpretation spill: overflow_handler spill_to_overflow_handle
proof
  fix m d b r and mb :: mailbox
  let ?mb = "mb\<lparr>overflow := snd (oq_try_push m (overflow mb))\<rparr>"
  have est: "estimate_node_bytes ?mb = estimate_node_bytes mb" by (rule estimate_node_bytes_cong) simp
  assume "mb_inv mb" "\<not> is_system_message (tag m)" "small_msg mb m"
  moreover have "user_msgs ?mb = user_msgs mb" "sys_msgs ?mb = sys_msgs mb"
    by (simp_all add: user_msgs_def sys_msgs_def)
  moreover have "kinds_ok ?mb"
    using calculation oq_try_push_subset [of m "overflow mb"]
    unfolding kinds_ok_def small_msg_def mb_inv_def mb_core_def est by auto
  ultimately have "mb_inv ?mb"
    using oq_try_push_inv [of "overflow mb" m]
    unfolding mb_inv_def mb_core_def flag_ok_def books_ok_def sys_books_ok_def est by simp
  then show "mb_inv (snd (spill_to_overflow_handle m d b r mb))" by (simp add: spill_eq Let_def)
qed (simp_all add: spill_eq handled_frame_def handled_msgs_def sys_msgs_def user_msgs_def Let_def)

lemma make_overflow_handler_ok: "overflow_handler (make_overflow_handler p)"
  by (cases p) (simp_all add: reject_newest.overflow_handler_axioms drop_newest.overflow_handler_axioms
      drop_oldest.overflow_handler_axioms dead_letter.overflow_handler_axioms
      signal_only.overflow_handler_axioms spill.overflow_handler_axioms drop_lowest.overflow_handler_axioms)

end
