(* ===== verification/Actor_Mailbox.thy ===== *)
theory Actor_Mailbox
  imports Overflow_Handlers
begin

text \<open>
  The entry points of \<open>MPSCActorMailbox\<close>: pushing, batch pushing, dequeueing with rate
  limiting and overflow draining, reconfiguration. Clock readings (\<open>steady_now_ns\<close>) are
  arguments.
\<close>

section \<open>Producers\<close>

definition push_system :: "typed_message \<Rightarrow> mailbox_envelope_meta \<Rightarrow> mailbox \<Rightarrow> enqueue_result \<times> mailbox" where
  "push_system msg meta mb =
     (if system_lane_reserved mb \<ge> protected_system_messages (config mb) then
        (let mb1 = (update_pressure_state True mb)\<lparr>total_rejected := total_rejected mb + 1\<rparr>
         in (refused_result mb1, mb1))
      else
        (let mb1 = mb\<lparr>system_lane_reserved := system_lane_reserved mb + 1,
                      system_lane_bytes := system_lane_bytes mb + estimated_bytes meta\<rparr>;
             mb2 = enqueue_reserved msg meta kSystemLaneSentinel False mb1
         in (make_result (code_after_accept (pressure_state mb2)) HighWatermark mb2, mb2)))"

definition push_user ::
  "typed_message \<Rightarrow> mailbox_envelope_meta \<Rightarrow> u8 \<Rightarrow> mailbox \<Rightarrow> enqueue_result \<times> mailbox"
where
  "push_user msg meta lane mb =
     (let (res, rm) = try_reserve (estimated_bytes meta) (max_messages (config mb))
                        (max_bytes (config mb)) (reservation mb);
          mb1 = mb\<lparr>reservation := rm\<rparr>
      in if res \<noteq> Reserved
         then push_overflow (make_overflow_handler (overflow_policy_of (config mb))) msg meta lane res mb1
         else (let mb2 = enqueue_reserved msg meta lane False mb1
               in (make_result (code_after_accept (pressure_state mb2)) HighWatermark mb2, mb2)))"

definition admit :: "u64 \<Rightarrow> mailbox_envelope_meta \<Rightarrow> mailbox \<Rightarrow> admission_result \<times> mailbox" where
  "admit now meta mb =
     (case policies mb of
        None \<Rightarrow> (default_admission, mb)
      | Some ps \<Rightarrow> (let (r, ps') = evaluate_policy_chain now meta ps in (r, mb\<lparr>policies := Some ps'\<rparr>)))"

definition try_push ::
  "u64 \<Rightarrow> typed_message \<Rightarrow> mailbox_envelope_meta \<Rightarrow> mailbox \<Rightarrow> enqueue_result \<times> mailbox"
where
  "try_push now msg meta0 mb =
     (let meta = meta0\<lparr>estimated_bytes := estimate_node_bytes mb msg\<rparr>;
          (adm, mb1) = admit now meta mb
      in if decision adm \<noteq> Accept then
           (let mb2 = mb1\<lparr>admission_rejected_total := admission_rejected_total mb1 + 1\<rparr>
            in (refused_result mb2, mb2))
         else
           (let lane = route_lane meta mb1 in
            if lane = kSystemLaneSentinel then push_system msg meta mb1
            else push_user msg meta lane mb1))"

definition push :: "u64 \<Rightarrow> typed_message \<Rightarrow> mailbox \<Rightarrow> mailbox" where
  "push now msg mb = snd (try_push now msg default_meta mb)"

fun push_each ::
  "u64 \<Rightarrow> typed_message list \<Rightarrow> mailbox_envelope_meta \<Rightarrow> enqueue_result \<Rightarrow> mailbox \<Rightarrow> enqueue_result \<times> mailbox"
where
  "push_each now [] meta last_result mb = (last_result, mb)"
| "push_each now (m # ms) meta last_result mb =
     (let (r, mb') = try_push now m meta mb in push_each now ms meta r mb')"

fun store_each ::
  "typed_message list \<Rightarrow> mailbox_envelope_meta \<Rightarrow> u8 \<Rightarrow> bool \<Rightarrow> mailbox \<Rightarrow> mailbox"
where
  "store_each [] meta lane first mb = mb"
| "store_each (m # ms) meta lane first mb =
     store_each ms meta lane False (enqueue_reserved m meta lane (\<not> first) mb)"

definition try_push_batch ::
  "u64 \<Rightarrow> typed_message list \<Rightarrow> mailbox_envelope_meta \<Rightarrow> mailbox \<Rightarrow> enqueue_result \<times> mailbox"
where
  "try_push_batch now msgs meta0 mb =
     (if msgs = [] then (make_result (code_after_accept (pressure_state mb)) HighWatermark mb, mb)
      else
        (let total_bytes = sum_list (map (estimate_node_bytes mb) msgs);
             meta = meta0\<lparr>estimated_bytes := total_bytes\<rparr>;
             (res, rm) = try_reserve total_bytes (max_messages (config mb)) (max_bytes (config mb))
                           (reservation mb);
             mb1 = mb\<lparr>reservation := rm\<rparr>
         in if res \<noteq> Reserved
            then push_each now msgs meta default_result (update_pressure_state True mb1)
            else (let lane = route_lane meta mb1;
                      mb2 = store_each msgs meta lane True mb1
                  in (make_result (code_after_accept (pressure_state mb2)) HighWatermark mb2, mb2))))"

definition enqueue_node :: "typed_message \<Rightarrow> mailbox \<Rightarrow> mailbox" where
  "enqueue_node node mb =
     (let bytes = estimate_node_bytes mb node;
          (res, rm) = try_reserve bytes (max_messages (config mb)) (max_bytes (config mb)) (reservation mb);
          mb1 = mb\<lparr>reservation := rm\<rparr>
      in if res \<noteq> Reserved then
           (let mb2 = update_pressure_state True mb1
            in emit (metric kMailboxRejected 1) (mb2\<lparr>total_rejected := total_rejected mb2 + 1\<rparr>))
         else enqueue_reserved node (default_meta\<lparr>estimated_bytes := bytes\<rparr>) 0 False mb1)"

section \<open>The consumer\<close>

function drain_overflow :: "mailbox \<Rightarrow> mailbox" where
  "drain_overflow mb =
     (if overflow_policy_of (config mb) = SpillToOverflowQueue then
        (case oq_try_pop (overflow mb) of
           (None, oq) \<Rightarrow> mb\<lparr>overflow := oq\<rparr>
         | (Some m, oq) \<Rightarrow>
             (let mb1 = mb\<lparr>overflow := oq\<rparr>;
                  bytes = estimate_node_bytes mb1 m;
                  (res, rm) = try_reserve bytes (max_messages (config mb1)) (max_bytes (config mb1))
                                (reservation mb1);
                  mb2 = mb1\<lparr>reservation := rm\<rparr>
              in if res \<noteq> Reserved then
                   (let (ok, oq') = oq_try_push m (overflow mb2); mb3 = mb2\<lparr>overflow := oq'\<rparr>
                    in if ok then mb3 else mb3\<lparr>total_dropped := total_dropped mb3 + 1\<rparr>)
                 else drain_overflow
                   (enqueue_reserved m (default_meta\<lparr>estimated_bytes := bytes\<rparr>) 0 True mb2)))
      else mb)"
  by pat_completeness auto
termination
  by (relation "measure (\<lambda>mb. length (oq_queue (overflow mb)))")
    (auto simp: oq_try_pop_def split: list.splits)

declare drain_overflow.simps [simp del]

definition settle_node :: "typed_message \<Rightarrow> mailbox \<Rightarrow> mailbox" where
  "settle_node node mb =
     (let bytes = estimate_node_bytes mb node in
      if \<not> is_system_message (tag node) then mb\<lparr>reservation := release bytes (reservation mb)\<rparr>
      else mb\<lparr>system_lane_bytes := system_lane_bytes mb - bytes,
              system_lane_reserved := system_lane_reserved mb - 1\<rparr>)"

definition finish_dequeue :: "typed_message option \<Rightarrow> mailbox \<Rightarrow> mailbox" where
  "finish_dequeue node mb =
     (let mb1 = (case node of
                   None \<Rightarrow> mb
                 | Some n \<Rightarrow>
                     (let a = settle_node n mb;
                          b = update_pressure_state False (a\<lparr>total_dequeued := total_dequeued a + 1\<rparr>);
                          c = (if \<not> mb_empty b then b\<lparr>was_empty := False\<rparr> else b)
                      in drain_overflow c));
          mb2 = (if \<not> mb_empty mb1 \<and> was_empty mb1 then notify Ready (mb1\<lparr>was_empty := False\<rparr>) else mb1)
      in emit (metric kMailboxDequeue 1) mb2)"

definition rate_limited :: "u64 \<Rightarrow> typed_message option \<Rightarrow> mailbox \<Rightarrow> bool \<times> mailbox" where
  "rate_limited now node mb =
     (case (limiter mb, node) of
        (Some l, Some n) \<Rightarrow>
          (if is_system_message (tag n) then (False, mb)
           else (let (ok, l') = try_consume now l in (\<not> ok, mb\<lparr>limiter := Some l'\<rparr>)))
      | _ \<Rightarrow> (False, mb))"

definition dequeue :: "u64 \<Rightarrow> mailbox \<Rightarrow> typed_message option \<times> mailbox" where
  "dequeue now mb =
     (let (node, L) = ml_dequeue lane_deq (lanes mb);
          mb1 = mb\<lparr>was_empty := True, lanes := L\<rparr>;
          (denied, mb2) = rate_limited now node mb1
      in if denied then
           (None, (enqueue_reserved (the node) default_meta 0 True mb2)\<lparr>was_empty := False\<rparr>)
         else (node, finish_dequeue node mb2))"

definition try_pop :: "u64 \<Rightarrow> mailbox \<Rightarrow> typed_message option \<times> mailbox" where
  "try_pop now mb =
     (case dequeue now mb of
        (None, mb1) \<Rightarrow> (None, mb1)
      | (Some node, mb1) \<Rightarrow> (Some node, mb1\<lparr>lanes := set_pending_free node (lanes mb1)\<rparr>))"

section \<open>Administration\<close>

definition set_config :: "mailbox_config \<Rightarrow> mailbox \<Rightarrow> mailbox" where
  "set_config cfg mb =
     (let c1 = normalize_capacity cfg;
          c2 = (if critical_watermark c1 \<le> 0
                then c1\<lparr>critical_watermark := (if high_watermark c1 > 0 then high_watermark c1 * 2 else 1)\<rparr>
                else c1);
          c3 = (if critical_watermark c2 < high_watermark c2
                then c2\<lparr>critical_watermark := high_watermark c2\<rparr> else c2)
      in emit (metric kMailboxCapacity (max_messages c3))
           (mb\<lparr>config := c3, overflow := set_max_depth (max_overflow_depth c3) (overflow mb),
               lanes := set_num_user_lanes (priority_levels c3) (lanes mb)\<rparr>))"

definition set_rate_limiter :: "rate_limiter option \<Rightarrow> mailbox \<Rightarrow> mailbox" where
  "set_rate_limiter l mb = mb\<lparr>limiter := l\<rparr>"

definition set_admission_policies :: "admission_policy list option \<Rightarrow> mailbox \<Rightarrow> mailbox" where
  "set_admission_policies ps mb = mb\<lparr>policies := ps\<rparr>"

definition inject_for_test :: "typed_message \<Rightarrow> mailbox \<Rightarrow> mailbox" where
  "inject_for_test node mb =
     (let bytes = estimate_node_bytes mb node;
          sys = is_system_message (tag node);
          lane = (if sys then kSystemLaneSentinel else 0);
          mb1 = (if sys then mb\<lparr>system_lane_bytes := system_lane_bytes mb + bytes\<rparr>
                 else mb\<lparr>reservation := inject_count bytes (reservation mb)\<rparr>)
      in mb1\<lparr>total_enqueued := total_enqueued mb1 + 1, lanes := ml_enqueue lane_enq node lane (lanes mb1),
             was_empty := False\<rparr>)"

definition try_acquire_backpressure_signal ::
  "u64 \<Rightarrow> mailbox_pressure_state \<Rightarrow> bool \<Rightarrow> mailbox \<Rightarrow> u64 option \<times> mailbox"
where
  "try_acquire_backpressure_signal now st force mb =
     (let (r, g) = try_acquire now st (signal_min_interval_ms (config mb)) force (signal_gate_state mb)
      in (r, mb\<lparr>signal_gate_state := g\<rparr>))"

section \<open>Pushing keeps the invariant\<close>

lemma admit_frame [simp]:
  "lanes (snd (admit now meta mb)) = lanes mb" "config (snd (admit now meta mb)) = config mb"
  "node_size (snd (admit now meta mb)) = node_size mb" "overflow (snd (admit now meta mb)) = overflow mb"
  "notified (snd (admit now meta mb)) = notified mb" "was_empty (snd (admit now meta mb)) = was_empty mb"
  "limiter (snd (admit now meta mb)) = limiter mb" "reservation (snd (admit now meta mb)) = reservation mb"
  "has_continuation (snd (admit now meta mb)) = has_continuation mb"
  by (cases "policies mb"; simp add: admit_def split: prod.splits)+

lemma admit_inv: "mb_inv (snd (admit now meta mb)) = mb_inv mb"
proof (rule mb_inv_cong)
  show "system_lane_reserved (snd (admit now meta mb)) = system_lane_reserved mb"
    "system_lane_bytes (snd (admit now meta mb)) = system_lane_bytes mb"
    by (cases "policies mb"; simp add: admit_def split: prod.splits)+
qed simp_all

lemma push_system_inv:
  assumes "mb_inv mb" and "is_system_message (tag m)" and "small_msg mb m"
    and "estimated_bytes meta = estimate_node_bytes mb m"
  shows "mb_inv (snd (push_system m meta mb))"
proof (cases "system_lane_reserved mb \<ge> protected_system_messages (config mb)")
  case True
  have "mb_inv ((update_pressure_state True mb)\<lparr>total_rejected := total_rejected mb + 1\<rparr>) = mb_inv mb"
    by (rule mb_inv_cong) simp_all
  then show ?thesis using assms(1) True by (simp add: push_system_def Let_def)
next
  case False
  then show ?thesis
    using store_system_inv [of mb m meta] assms by (simp add: push_system_def Let_def mb_inv_def)
qed

lemma push_user_inv:
  assumes "mb_inv mb" and "\<not> is_system_message (tag m)" and "small_msg mb m"
    and "unat lane < unat (num_user_lanes (lanes mb))"
    and "estimated_bytes meta = estimate_node_bytes mb m"
  shows "mb_inv (snd (push_user m meta lane mb))"
proof -
  obtain res rm where t: "try_reserve (estimated_bytes meta) (max_messages (config mb)) (max_bytes (config mb))
      (reservation mb) = (res, rm)" by force
  show ?thesis
  proof (cases "res = Reserved")
    case True
    have "mb_core (enqueue_reserved m meta lane False (mb\<lparr>reservation := rm\<rparr>))"
      using assms t True by (intro store_user_core) (simp_all add: mb_inv_def)
    moreover have "flag_ok (enqueue_reserved m meta lane False (mb\<lparr>reservation := rm\<rparr>))"
      using assms by (intro store_user_flag) (simp_all add: mb_inv_def mb_core_def)
    ultimately show ?thesis using t True by (simp add: push_user_def Let_def mb_inv_def)
  next
    case False
    then have "rm = reservation mb" using try_reserve_rejects_unchanged [OF t] by simp
    then show ?thesis
      using t False overflow_handler.push_overflow_inv [OF make_overflow_handler_ok assms]
      by (simp add: push_user_def Let_def)
  qed
qed

lemma route_lane_sentinel:
  assumes "lanes_ok (lanes mb)"
  shows "route_lane meta mb = kSystemLaneSentinel \<longleftrightarrow> is_system_message (type_tag_of meta)"
proof (cases "is_system_message (type_tag_of meta)")
  case True
  then show ?thesis by (simp add: route_lane_def)
next
  case False
  have "unat (num_user_lanes (lanes mb)) \<le> 8" using assms by (simp add: lanes_ok_def)
  then have "unat (route_lane meta mb) < unat kSystemLaneSentinel"
    using route_lane_in_range [OF assms False] by (simp add: kSystemLaneSentinel_def)
  then show ?thesis using False by auto
qed

lemma try_push_inv:
  assumes "mb_inv mb" and "type_tag_of meta = tag m" and "small_msg mb m"
  shows "mb_inv (snd (try_push now m meta mb))"
proof -
  let ?meta = "meta\<lparr>estimated_bytes := estimate_node_bytes mb m\<rparr>"
  obtain adm mb1 where a: "admit now ?meta mb = (adm, mb1)" by force
  have mb1: "mb_inv mb1" "lanes mb1 = lanes mb" "node_size mb1 = node_size mb"
    using admit_inv [of now ?meta mb] admit_frame [of now ?meta mb] a assms(1) by simp_all
  have est: "estimate_node_bytes mb1 = estimate_node_bytes mb"
    using mb1(3) by (rule estimate_node_bytes_cong)
  have ok: "lanes_ok (lanes mb1)" using mb1(1) by (simp add: mb_inv_def mb_core_def)
  have sm: "small_msg mb1 m" using assms(3) est by (simp add: small_msg_def)
  show ?thesis
  proof (cases "decision adm = Accept")
    case False
    have "mb_inv (mb1\<lparr>admission_rejected_total := admission_rejected_total mb1 + 1\<rparr>) = mb_inv mb1"
      by (rule mb_inv_cong) simp_all
    then show ?thesis using False a mb1(1) by (simp add: try_push_def Let_def)
  next
    case True
    show ?thesis
    proof (cases "is_system_message (tag m)")
      case sys: True
      then have "mb_inv (snd (push_system m ?meta mb1))"
        using mb1(1) sm est by (intro push_system_inv) simp_all
      then show ?thesis
        using True a sys assms(2) route_lane_sentinel [OF ok, of ?meta] by (simp add: try_push_def Let_def)
    next
      case usr: False
      have "unat (route_lane ?meta mb1) < unat (num_user_lanes (lanes mb1))"
        using ok usr assms(2) by (intro route_lane_in_range) simp_all
      then have "mb_inv (snd (push_user m ?meta (route_lane ?meta mb1) mb1))"
        using mb1(1) sm est usr by (intro push_user_inv) simp_all
      then show ?thesis
        using True a usr assms(2) route_lane_sentinel [OF ok, of ?meta] by (simp add: try_push_def Let_def)
    qed
  qed
qed

lemma enqueue_node_inv:
  assumes "mb_inv mb" and "\<not> is_system_message (tag m)" and "small_msg mb m"
  shows "mb_inv (enqueue_node m mb)"
proof -
  let ?e = "estimate_node_bytes mb m"
  obtain res rm where t: "try_reserve ?e (max_messages (config mb)) (max_bytes (config mb)) (reservation mb)
      = (res, rm)" by force
  have lane: "unat (0 :: u8) < unat (num_user_lanes (lanes mb))" "lanes_ok (lanes mb)"
    using assms(1) by (simp_all add: mb_inv_def mb_core_def lanes_ok_def)
  show ?thesis
  proof (cases "res = Reserved")
    case True
    then show ?thesis
      using store_user_core [OF _ assms(2,3) lane(1)] store_user_flag [OF lane(2,1)] t assms(1)
      by (simp add: enqueue_node_def Let_def mb_inv_def)
  next
    case False
    then have "rm = reservation mb" using try_reserve_rejects_unchanged [OF t] by simp
    moreover have "mb_inv ((update_pressure_state True mb)\<lparr>total_rejected := k\<rparr>) = mb_inv mb" for k
      by (rule mb_inv_cong) simp_all
    ultimately show ?thesis using t False assms(1) by (simp add: enqueue_node_def Let_def)
  qed
qed

section \<open>Draining the overflow queue\<close>

definition stored :: "mailbox \<Rightarrow> typed_message multiset" where
  "stored mb = mset (sys_msgs mb) + mset (user_msgs mb) + mset (oq_queue (overflow mb))"

definition same_frame :: "mailbox \<Rightarrow> mailbox \<Rightarrow> bool" where
  "same_frame mb mb' \<longleftrightarrow> config mb' = config mb \<and> node_size mb' = node_size mb \<and>
     was_empty mb' = was_empty mb \<and> sys_msgs mb' = sys_msgs mb \<and> notified mb' = notified mb \<and>
     num_user_lanes (lanes mb') = num_user_lanes (lanes mb) \<and> limiter mb' = limiter mb \<and>
     has_continuation mb' = has_continuation mb"

lemma overflow_change_core:
  assumes "mb_core mb" and "oq_inv oq" and "set (oq_queue oq) \<subseteq> set (oq_queue (overflow mb))"
  shows "mb_core (mb\<lparr>overflow := oq\<rparr>)"
proof -
  have est: "estimate_node_bytes (mb\<lparr>overflow := oq\<rparr>) = estimate_node_bytes mb"
    by (rule estimate_node_bytes_cong) simp
  have "user_msgs (mb\<lparr>overflow := oq\<rparr>) = user_msgs mb" "sys_msgs (mb\<lparr>overflow := oq\<rparr>) = sys_msgs mb"
    by (simp_all add: user_msgs_def sys_msgs_def)
  moreover from this have "kinds_ok (mb\<lparr>overflow := oq\<rparr>)"
    using assms unfolding mb_core_def kinds_ok_def small_msg_def est by auto
  ultimately show ?thesis
    using assms unfolding mb_core_def books_ok_def sys_books_ok_def est by simp
qed

lemma oq_pop_push_back:
  assumes "oq_inv q" and "oq_queue q = m # ms"
  shows "oq_queue (snd (oq_try_push m (snd (oq_try_pop q)))) = ms @ [m]"
  using assms by (auto simp: oq_inv_def oq_try_pop_def oq_try_push_def)

lemma overflow_upd_frame [simp]:
  "user_msgs (mb\<lparr>overflow := oq\<rparr>) = user_msgs mb" "sys_msgs (mb\<lparr>overflow := oq\<rparr>) = sys_msgs mb"
  "user_msgs (mb\<lparr>reservation := r\<rparr>) = user_msgs mb" "sys_msgs (mb\<lparr>reservation := r\<rparr>) = sys_msgs mb"
  "user_msgs (mb\<lparr>was_empty := w\<rparr>) = user_msgs mb" "sys_msgs (mb\<lparr>was_empty := w\<rparr>) = sys_msgs mb"
  by (simp_all add: user_msgs_def sys_msgs_def)

text \<open>One round of the drain loop: nothing to pop, no room, or one message moved.\<close>

lemma drain_overflow_cases:
  assumes "mb_core mb"
  obtains (idle) "drain_overflow mb = mb"
      "overflow_policy_of (config mb) = SpillToOverflowQueue \<longrightarrow> oq_queue (overflow mb) = []"
    | (full) m ms res mb' where "oq_queue (overflow mb) = m # ms" "drain_overflow mb = mb'"
      "try_reserve (estimate_node_bytes mb m) (max_messages (config mb)) (max_bytes (config mb)) (reservation mb)
         = (res, reservation mb)" "res \<noteq> Reserved"
      "mb' = mb\<lparr>overflow := snd (oq_try_push m (snd (oq_try_pop (overflow mb))))\<rparr>"
      "oq_queue (overflow mb') = ms @ [m]" "mb_core mb'"
    | (moved) m ms rm mb' where "oq_queue (overflow mb) = m # ms"
      "mb' = enqueue_reserved m (default_meta\<lparr>estimated_bytes := estimate_node_bytes mb m\<rparr>) 0 True
         (mb\<lparr>overflow := snd (oq_try_pop (overflow mb)), reservation := rm\<rparr>)"
      "drain_overflow mb = drain_overflow mb'" "mb_core mb'" "oq_queue (overflow mb') = ms"
      "mset (user_msgs mb') = add_mset m (mset (user_msgs mb))" "same_frame mb mb'"
proof (cases "overflow_policy_of (config mb) = SpillToOverflowQueue \<and> oq_queue (overflow mb) \<noteq> []")
  case False
  then have "drain_overflow mb = mb"
    by (subst drain_overflow.simps) (auto simp: oq_try_pop_def split: list.splits)
  then show ?thesis using False by (intro idle) auto
next
  case True
  then obtain m ms where q: "oq_queue (overflow mb) = m # ms" by (cases "oq_queue (overflow mb)") auto
  define oq where "oq = snd (oq_try_pop (overflow mb))"
  let ?mb1 = "mb\<lparr>overflow := oq\<rparr>"
  have oqi: "oq_inv (overflow mb)" using assms by (simp add: mb_core_def)
  have pop: "oq_try_pop (overflow mb) = (Some m, oq)" "oq_queue oq = ms"
    using q by (simp_all add: oq_try_pop_def oq_def)
  have core1: "mb_core ?mb1"
    using assms oq_try_pop_inv [OF oqi, folded oq_def] pop(2) q by (intro overflow_change_core) auto
  have est: "estimate_node_bytes ?mb1 = estimate_node_bytes mb" by (rule estimate_node_bytes_cong) simp
  obtain res rm where t: "try_reserve (estimate_node_bytes mb m) (max_messages (config mb))
      (max_bytes (config mb)) (reservation mb) = (res, rm)" by force
  show ?thesis
  proof (cases "res = Reserved")
    case False
    then have rm: "rm = reservation mb" using try_reserve_rejects_unchanged [OF t] by simp
    define oq2 where "oq2 = snd (oq_try_push m oq)"
    have push: "oq_try_push m oq = (True, oq2)"
      using oq_try_push_True [of m oq] by (cases "oq_try_push m oq") (simp add: oq2_def)
    have pushed: "oq_queue oq2 = ms @ [m]"
      unfolding oq2_def oq_def by (rule oq_pop_push_back [OF oqi q])
    have "mb_core (mb\<lparr>overflow := oq2\<rparr>)"
      using assms oq_try_push_inv [OF oq_try_pop_inv [OF oqi], of m, folded oq_def oq2_def] pushed q by (intro overflow_change_core) auto
    moreover have "drain_overflow mb = mb\<lparr>overflow := oq2\<rparr>"
      using True pop(1) t False rm est push by (subst drain_overflow.simps) (simp add: Let_def)
    ultimately show ?thesis
      using q t rm False pushed
      by (intro full [of m ms "mb\<lparr>overflow := oq2\<rparr>" res]) (simp_all add: oq2_def oq_def)
  next
    case res: True
    let ?mb' = "enqueue_reserved m (default_meta\<lparr>estimated_bytes := estimate_node_bytes mb m\<rparr>) 0 True
         (?mb1\<lparr>reservation := rm\<rparr>)"
    have k: "\<not> is_system_message (tag m)" "small_msg ?mb1 m"
      using assms q est by (auto simp: mb_core_def kinds_ok_def small_msg_def)
    have ok: "lanes_ok (lanes ?mb1)" "unat (0 :: u8) < unat (num_user_lanes (lanes ?mb1))"
      using core1 by (auto simp: mb_core_def lanes_ok_def)
    have "mb_core ?mb'"
      using core1 k ok(2) t res est by (intro store_user_core) simp_all
    moreover have "sys_msgs ?mb' = sys_msgs mb" "mset (user_msgs ?mb') = add_mset m (mset (user_msgs mb))"
      using user_store [OF ok, of ?mb' m] by simp_all
    moreover have "notified ?mb' = notified mb"
      by (simp add: enqueue_reserved_def Let_def)
    moreover have "drain_overflow mb = drain_overflow ?mb'"
      using True pop(1) t res est by (subst drain_overflow.simps) (simp add: Let_def)
    ultimately show ?thesis
      using q pop(2) by (intro moved [of m ms ?mb' rm]) (simp_all add: same_frame_def ml_enqueue_def oq_def)
  qed
qed

lemma drain_overflow_core:
  "mb_core mb \<Longrightarrow> mb_core (drain_overflow mb) \<and> same_frame mb (drain_overflow mb) \<and>
     stored (drain_overflow mb) = stored mb \<and>
     mset (user_msgs mb) \<subseteq># mset (user_msgs (drain_overflow mb))"
proof (induction "length (oq_queue (overflow mb))" arbitrary: mb rule: less_induct)
  case less
  from less.prems show ?case
  proof (cases rule: drain_overflow_cases)
    case idle
    then show ?thesis using less.prems by (simp add: same_frame_def)
  next
    case (full m ms res mb')
    then show ?thesis by (simp add: same_frame_def stored_def)
  next
    case (moved m ms rm mb')
    then have "mb_core (drain_overflow mb') \<and> same_frame mb' (drain_overflow mb') \<and>
        stored (drain_overflow mb') = stored mb' \<and>
        mset (user_msgs mb') \<subseteq># mset (user_msgs (drain_overflow mb'))"
      using less.hyps [of mb'] by simp
    moreover have "stored mb' = stored mb"
      using moved by (simp add: stored_def same_frame_def)
    moreover from calculation have "mset (user_msgs mb) \<subseteq># mset (user_msgs (drain_overflow mb'))"
      using moved(6) subset_mset.order_trans [of "mset (user_msgs mb)" "mset (user_msgs mb')"] by simp
    ultimately show ?thesis using moved(3,7) unfolding same_frame_def by metis
  qed
qed

section \<open>Dequeueing keeps the invariant\<close>

text \<open>
  The lanes of a mailbox: nothing to take, the oldest system message, or the oldest message
  of the first non-empty user lane.
\<close>

definition without_sys_head :: "mailbox \<Rightarrow> mailbox" where
  "without_sys_head mb = mb\<lparr>lanes := (lanes mb)\<lparr>system_lane := tl (system_lane (lanes mb))\<rparr>\<rparr>"

lemma ml_dequeue_cases:
  assumes "lanes_ok (lanes mb)"
  obtains (none) "ml_dequeue lane_deq (lanes mb) = (None, lanes mb)" "sys_msgs mb = []" "user_msgs mb = []"
    | (sys) m ms where "sys_msgs mb = m # ms"
      "ml_dequeue lane_deq (lanes mb) = (Some m, lanes (without_sys_head mb))"
    | (user) i m ms where "sys_msgs mb = []" "i < unat (num_user_lanes (lanes mb))" "i < 8"
      "\<forall>j < i. user_lanes (lanes mb) ! j = []" "user_lanes (lanes mb) ! i = m # ms"
      "ml_dequeue lane_deq (lanes mb) = (Some m, lanes (without_head i mb))"
proof (cases "system_lane (lanes mb)")
  case (Cons m ms)
  then show ?thesis
    by (intro sys) (simp_all add: sys_msgs_def ml_dequeue_def lane_deq_def without_sys_head_def)
next
  case Nil
  let ?n = "unat (num_user_lanes (lanes mb))" and ?ls = "user_lanes (lanes mb)"
  have r: "\<forall>i\<in>set [0..<?n]. i < length ?ls" using assms by (auto simp: lanes_ok_def)
  have d: "ml_dequeue lane_deq (lanes mb) =
      (fst (spec_take [0..<?n] ?ls), (lanes mb)\<lparr>user_lanes := snd (spec_take [0..<?n] ?ls)\<rparr>)"
    using Nil take_first_list [OF r] by (simp add: ml_dequeue_def lane_deq_def Let_def split: prod.splits)
  show ?thesis
  proof (cases "first_nonempty [0..<?n] ?ls")
    case None
    moreover from this have "user_msgs mb = []"
      using concat_Nil_iff [OF assms] by (simp add: user_msgs_def first_nonempty_None)
    ultimately show ?thesis using d Nil by (intro none) (simp_all add: spec_take_def sys_msgs_def)
  next
    case (Some i)
    then have i: "i < ?n" "?ls ! i \<noteq> []" "\<forall>j < i. ?ls ! j = []"
      using first_nonempty_Some [OF Some] first_nonempty_least [OF Some] by auto
    then obtain m ms where "?ls ! i = m # ms" by (cases "?ls ! i") auto
    then show ?thesis
      using i d Nil Some assms
      by (intro user [of i m ms]) (simp_all add: spec_take_def sys_msgs_def without_head_def lanes_ok_def)
  qed
qed

lemma take_sys_core:
  assumes "mb_core mb" and "sys_msgs mb = m # ms"
  shows "mb_core ((without_sys_head mb)\<lparr>system_lane_bytes := system_lane_bytes mb - estimate_node_bytes mb m,
      system_lane_reserved := system_lane_reserved mb - 1\<rparr>)" (is "mb_core ?mb")
proof -
  let ?e = "estimate_node_bytes mb"
  have est: "estimate_node_bytes ?mb = ?e"
    by (rule estimate_node_bytes_cong) (simp add: without_sys_head_def)
  have msgs: "sys_msgs ?mb = ms" "user_msgs ?mb = user_msgs mb" "lanes_ok (lanes ?mb)"
    using assms by (simp_all add: sys_msgs_def user_msgs_def without_sys_head_def mb_core_def lanes_ok_def)
  have cnt: "unat (system_lane_reserved mb) = Suc (length ms)"
    "unat (system_lane_bytes mb) = unat (?e m) + byte_total (map ?e ms)"
    "system_lane_reserved mb \<le> protected_system_messages (config mb)"
    using assms by (simp_all add: mb_core_def sys_books_ok_def)
  have "unat (system_lane_reserved mb - 1) = length ms"
    using cnt(1) by (subst unat_minus_le) (simp_all add: word_le_nat_alt)
  moreover have "unat (system_lane_bytes mb - ?e m) = byte_total (map ?e ms)"
    using cnt(2) by (subst unat_minus_le) (simp_all add: word_le_nat_alt)
  moreover have "system_lane_reserved mb - 1 \<le> protected_system_messages (config mb)"
    using cnt calculation(1) by (simp add: word_le_nat_alt)
  moreover have "config ?mb = config mb" "overflow ?mb = overflow mb" "reservation ?mb = reservation mb"
    by (simp_all add: without_sys_head_def)
  ultimately show ?thesis
    using assms msgs unfolding mb_core_def books_ok_def sys_books_ok_def kinds_ok_def small_msg_def est
    by simp
qed

text \<open>The end of a dequeue: the flag is exact again, whatever it was.\<close>

lemma finish_flag:
  assumes "mb_core mb1"
  shows "mb_inv (emit e (if \<not> mb_empty mb1 \<and> was_empty mb1 then notify Ready (mb1\<lparr>was_empty := False\<rparr>) else mb1))
    \<longleftrightarrow> (was_empty mb1 \<or> \<not> mb_empty mb1)"
proof -
  have ok: "lanes_ok (lanes mb1)" using assms by (simp add: mb_core_def)
  have "mb_core (notify Ready (mb1\<lparr>was_empty := False\<rparr>)) = mb_core mb1"
    by (rule mb_core_cong) (simp_all add: notify_def)
  then show ?thesis
    using assms mb_empty_iff [OF ok] unfolding mb_inv_emit
    by (simp add: mb_inv_def flag_ok_def notify_def sys_msgs_def user_msgs_def)
qed

text \<open>
  What a dequeue leaves to be finished: the node is out of the lanes, its reservation is
  still held, the flag is raised.
\<close>

definition taken :: "typed_message \<Rightarrow> mailbox \<Rightarrow> mailbox \<Rightarrow> bool" where
  "taken m mb mb' \<longleftrightarrow>
     mb_core (settle_node m mb') \<and> stored mb = add_mset m (stored mb') \<and>
     mset (user_msgs mb') \<subseteq># mset (user_msgs mb) \<and> config mb' = config mb \<and> was_empty mb'"

lemma finish_dequeue_some:
  assumes "taken m mb mb'"
  shows "mb_inv (finish_dequeue (Some m) mb') \<and> stored (finish_dequeue (Some m) mb') = stored mb' \<and>
    config (finish_dequeue (Some m) mb') = config mb"
proof -
  let ?a = "settle_node m mb'"
  define b where "b = update_pressure_state False (?a\<lparr>total_dequeued := total_dequeued ?a + 1\<rparr>)"
  define c where "c = (if \<not> mb_empty b then b\<lparr>was_empty := False\<rparr> else b)"
  define d where "d = drain_overflow c"
  have a: "lanes ?a = lanes mb'" "config ?a = config mb'" "was_empty ?a = was_empty mb'"
    "overflow ?a = overflow mb'"
    by (simp_all add: settle_node_def Let_def)
  have core_b: "mb_core b" unfolding b_def
    using assms mb_core_cong [of "update_pressure_state False (?a\<lparr>total_dequeued := total_dequeued ?a + 1\<rparr>)" ?a]
    by (simp add: taken_def)
  then have core_c: "mb_core c" unfolding c_def
    using mb_core_cong [of "b\<lparr>was_empty := False\<rparr>" b] by simp
  have cb: "sys_msgs c = sys_msgs mb'" "user_msgs c = user_msgs mb'" "overflow c = overflow mb'"
    "config c = config mb'"
    using a by (simp_all add: c_def b_def sys_msgs_def user_msgs_def)
  note dr = drain_overflow_core [OF core_c, folded d_def]
  have eb: "mb_empty c \<longleftrightarrow> mb_empty b" by (simp add: c_def mb_empty_def)
  have flag: "was_empty d \<or> \<not> mb_empty d"
  proof (cases "mb_empty b")
    case True
    then have "was_empty c" using assms a by (simp add: c_def b_def taken_def)
    then show ?thesis using dr by (simp add: same_frame_def)
  next
    case False
    have "sys_msgs d = sys_msgs c" using dr by (simp add: same_frame_def)
    moreover have "user_msgs d = [] \<Longrightarrow> user_msgs c = []" using dr by auto
    moreover have "\<not> mb_empty c" using False eb by simp
    ultimately show ?thesis
      using mb_empty_iff [of d] mb_empty_iff [of c] core_c dr by (auto simp: mb_core_def)
  qed
  have f: "finish_dequeue (Some m) mb' = emit (metric kMailboxDequeue 1)
      (if \<not> mb_empty d \<and> was_empty d then notify Ready (d\<lparr>was_empty := False\<rparr>) else d)"
    by (simp add: finish_dequeue_def Let_def d_def c_def b_def)
  have "mb_inv (finish_dequeue (Some m) mb')"
    unfolding f using finish_flag flag dr by blast
  moreover have "stored (finish_dequeue (Some m) mb') = stored d"
    by (simp add: f stored_def sys_msgs_def user_msgs_def notify_def)
  moreover have "stored d = stored mb'" using dr cb by (simp add: stored_def)
  moreover have "config (finish_dequeue (Some m) mb') = config mb"
    using dr cb assms by (simp add: f notify_def same_frame_def taken_def)
  ultimately show ?thesis by simp
qed

lemma take_user_taken:
  assumes "mb_inv mb" and "i < 8" and "user_lanes (lanes mb) ! i = m # ms"
    and "lanes mb' = lanes (without_head i mb)" "reservation mb' = reservation mb" "config mb' = config mb"
      "overflow mb' = overflow mb" "node_size mb' = node_size mb" "was_empty mb'"
      "system_lane_reserved mb' = system_lane_reserved mb" "system_lane_bytes mb' = system_lane_bytes mb"
  shows "taken m mb mb'"
proof -
  have core: "mb_core mb" using assms(1) by (simp add: mb_inv_def)
  have tk: "sys_msgs mb' = sys_msgs mb" "mset (user_msgs mb) = add_mset m (mset (user_msgs mb'))"
    using user_take [of mb i] assms(2-4) core by (auto simp: mb_core_def user_msgs_def sys_msgs_def)
  have "m \<in># mset (user_msgs mb)" using tk(2) by simp
  then have nsys: "\<not> is_system_message (tag m)" using core by (auto simp: mb_core_def kinds_ok_def)
  have est: "estimate_node_bytes mb' = estimate_node_bytes mb"
    using assms(8) by (rule estimate_node_bytes_cong)
  have "mb_core (settle_node m mb') =
      mb_core ((without_head i mb)\<lparr>reservation := release (estimate_node_bytes mb m) (reservation mb)\<rparr>)"
    using nsys est assms(4-) by (intro mb_core_cong) (simp_all add: settle_node_def Let_def without_head_def)
  then have "mb_core (settle_node m mb')" using take_user_core [OF core assms(2,3)] by simp
  then show ?thesis
    using tk assms(6,7,9) by (simp add: taken_def stored_def)
qed

lemma take_sys_taken:
  assumes "mb_inv mb" and "sys_msgs mb = m # ms"
    and "lanes mb' = lanes (without_sys_head mb)" "reservation mb' = reservation mb" "config mb' = config mb"
      "overflow mb' = overflow mb" "node_size mb' = node_size mb" "was_empty mb'"
      "system_lane_reserved mb' = system_lane_reserved mb" "system_lane_bytes mb' = system_lane_bytes mb"
  shows "taken m mb mb'"
proof -
  have core: "mb_core mb" using assms(1) by (simp add: mb_inv_def)
  have tk: "sys_msgs mb' = ms" "user_msgs mb' = user_msgs mb"
    using assms(2,3) by (simp_all add: user_msgs_def sys_msgs_def without_sys_head_def)
  have sys: "is_system_message (tag m)" using core assms(2) by (simp add: mb_core_def kinds_ok_def)
  have est: "estimate_node_bytes mb' = estimate_node_bytes mb"
    using assms(7) by (rule estimate_node_bytes_cong)
  have "mb_core (settle_node m mb') =
      mb_core ((without_sys_head mb)\<lparr>system_lane_bytes := system_lane_bytes mb - estimate_node_bytes mb m,
        system_lane_reserved := system_lane_reserved mb - 1\<rparr>)"
    using sys est assms(3-) by (intro mb_core_cong) (simp_all add: settle_node_def Let_def without_sys_head_def)
  then have "mb_core (settle_node m mb')" using take_sys_core [OF core assms(2)] by simp
  then show ?thesis
    using tk assms(2,5,6,8) by (simp add: taken_def stored_def)
qed

lemma requeue_inv:
  fixes meta :: mailbox_envelope_meta
  assumes "mb_inv mb" and "i < 8" and "user_lanes (lanes mb) ! i = m # ms"
    and "lanes mb' = lanes (without_head i mb)" "reservation mb' = reservation mb" "config mb' = config mb"
      "overflow mb' = overflow mb" "node_size mb' = node_size mb"
      "system_lane_reserved mb' = system_lane_reserved mb" "system_lane_bytes mb' = system_lane_bytes mb"
  defines "mb2 \<equiv> (enqueue_reserved m meta 0 True mb')\<lparr>was_empty := False\<rparr>"
  shows "mb_inv mb2 \<and> stored mb2 = stored mb \<and> config mb2 = config mb"
proof -
  have core: "mb_core mb" using assms(1) by (simp add: mb_inv_def)
  have ok': "lanes_ok (lanes mb')" and tk: "sys_msgs mb' = sys_msgs mb"
    "mset (user_msgs mb) = add_mset m (mset (user_msgs mb'))"
    using user_take [of mb i] assms(2-4) core by (auto simp: mb_core_def user_msgs_def sys_msgs_def)
  have "unat (0 :: u8) < unat (num_user_lanes (lanes mb'))" using ok' by (simp add: lanes_ok_def)
  from user_store [OF ok' this, of mb2 m]
  have st: "lanes_ok (lanes mb2)" "sys_msgs mb2 = sys_msgs mb" "mset (user_msgs mb2) = mset (user_msgs mb)"
    using tk by (simp_all add: mb2_def)
  have est: "estimate_node_bytes mb2 = estimate_node_bytes mb"
    using assms(8) by (intro estimate_node_bytes_cong) (simp add: mb2_def)
  have "books (map (estimate_node_bytes mb) (user_msgs mb2)) r = books (map (estimate_node_bytes mb) (user_msgs mb)) r"
    for r using st(3) by (intro books_mset) simp
  moreover have "set (user_msgs mb2) = set (user_msgs mb)" "user_msgs mb2 \<noteq> []"
    using st(3) tk(2) by (metis set_mset_mset, auto)
  moreover have "reservation mb2 = reservation mb" "config mb2 = config mb" "overflow mb2 = overflow mb"
    "system_lane_reserved mb2 = system_lane_reserved mb" "system_lane_bytes mb2 = system_lane_bytes mb"
    "\<not> was_empty mb2"
    using assms(5-10) by (simp_all add: mb2_def)
  ultimately show ?thesis
    using core st
    unfolding mb_inv_def mb_core_def flag_ok_def books_ok_def sys_books_ok_def kinds_ok_def small_msg_def est
      stored_def by simp
qed

lemma rate_limited_frame:
  assumes "rate_limited now node mb = (denied, mb')"
  shows "lanes mb' = lanes mb \<and> reservation mb' = reservation mb \<and> config mb' = config mb \<and>
    overflow mb' = overflow mb \<and> node_size mb' = node_size mb \<and> was_empty mb' = was_empty mb \<and>
    system_lane_reserved mb' = system_lane_reserved mb \<and> system_lane_bytes mb' = system_lane_bytes mb \<and>
    notified mb' = notified mb \<and>
    (denied \<longrightarrow> (\<exists>n. node = Some n \<and> \<not> is_system_message (tag n)))"
  using assms
  by (auto simp: rate_limited_def split: option.splits if_splits prod.splits)

lemma rate_limited_simps:
  "rate_limited now None mb = (False, mb)"
  "is_system_message (tag m) \<Longrightarrow> rate_limited now (Some m) mb = (False, mb)"
  "limiter mb = None \<Longrightarrow> rate_limited now node mb = (False, mb)"
  by (simp_all add: rate_limited_def split: option.splits)

lemma dequeue_inv:
  assumes "mb_inv mb" and "dequeue now mb = (r, mb')"
  shows "mb_inv mb' \<and> config mb' = config mb \<and>
    stored mb = (case r of None \<Rightarrow> {#} | Some m \<Rightarrow> {#m#}) + stored mb'"
proof -
  have core: "mb_core mb" and ok: "lanes_ok (lanes mb)"
    using assms(1) by (simp_all add: mb_inv_def mb_core_def)
  from ok show ?thesis
  proof (cases rule: ml_dequeue_cases)
    case none
    let ?mb1 = "mb\<lparr>was_empty := True\<rparr>"
    have "mb_core ?mb1" using core mb_core_cong [of ?mb1 mb] by simp
    moreover have "mb_empty ?mb1" using none mb_empty_iff [OF ok] by (simp add: mb_empty_def)
    moreover from calculation have "mb_inv ?mb1" using none by (simp add: mb_inv_def flag_ok_def)
    ultimately have "mb_inv (finish_dequeue None ?mb1)" by (simp add: finish_dequeue_def)
    moreover have "r = None" "mb' = finish_dequeue None ?mb1"
      using assms(2) none by (simp_all add: dequeue_def rate_limited_simps Let_def)
    ultimately show ?thesis
      using \<open>mb_empty ?mb1\<close>
      by (simp add: finish_dequeue_def stored_def sys_msgs_def user_msgs_def)
  next
    case (sys m ms)
    let ?mb1 = "mb\<lparr>was_empty := True, lanes := lanes (without_sys_head mb)\<rparr>"
    have "is_system_message (tag m)" using core sys(1) by (simp add: mb_core_def kinds_ok_def)
    then have "r = Some m" "mb' = finish_dequeue (Some m) ?mb1"
      using assms(2) sys by (auto simp: dequeue_def rate_limited_simps Let_def)
    moreover have "taken m mb ?mb1" using assms(1) sys(1) by (rule take_sys_taken) simp_all
    ultimately show ?thesis using finish_dequeue_some [of m mb ?mb1] by (simp add: taken_def)
  next
    case (user i m ms)
    let ?mb1 = "mb\<lparr>was_empty := True, lanes := lanes (without_head i mb)\<rparr>"
    obtain denied mb2 where rl: "rate_limited now (Some m) ?mb1 = (denied, mb2)" by force
    note fr = rate_limited_frame [OF rl]
    show ?thesis
    proof (cases denied)
      case True
      then have "r = None" "mb' = (enqueue_reserved m default_meta 0 True mb2)\<lparr>was_empty := False\<rparr>"
        using assms(2) user rl by (auto simp: dequeue_def Let_def)
      then show ?thesis
        using requeue_inv [OF assms(1) user(3,5), of mb2 default_meta] fr by simp
    next
      case False
      then have "r = Some m" "mb' = finish_dequeue (Some m) mb2"
        using assms(2) user rl by (auto simp: dequeue_def Let_def)
      moreover have "taken m mb mb2" using assms(1) user(3,5) by (rule take_user_taken) (use fr in simp_all)
      ultimately show ?thesis using finish_dequeue_some [of m mb mb2] by (simp add: taken_def)
    qed
  qed
qed

lemma try_pop_inv:
  assumes "mb_inv mb" and "try_pop now mb = (r, mb')"
  shows "mb_inv mb' \<and> config mb' = config mb \<and>
    stored mb = (case r of None \<Rightarrow> {#} | Some m \<Rightarrow> {#m#}) + stored mb'"
proof -
  obtain r1 mb1 where d: "dequeue now mb = (r1, mb1)" by force
  note inv = dequeue_inv [OF assms(1) d]
  show ?thesis
    using assms(2) d inv
    by (cases r1) (auto simp: try_pop_def pending_inv stored_def sys_msgs_def user_msgs_def)
qed

end
