(* ===== verification/Mailbox_Theorems.thy ===== *)
theory Mailbox_Theorems
  imports Actor_Mailbox
begin

text \<open>
  The properties of a mailbox as its clients see it: what holds of every mailbox that was
  reached through its entry points, what happens to every message, when the scheduler is
  told, and the sequences of calls that break the accounting.
\<close>

section \<open>Reachable mailboxes\<close>

text \<open>
  Mailboxes reached from construction by any sequence of pushes whose metadata carries the
  message's own tag, node enqueues of user messages, dequeues, pops, and changes of the rate
  limiter and the admission policies. Batch pushes and reconfiguration are treated below.
\<close>

inductive mb_reachable :: "mailbox \<Rightarrow> bool" where
  created: "mb_reachable (mailbox_init aid sz cfg)"
| pushed: "mb_reachable mb \<Longrightarrow> type_tag_of meta = tag m \<Longrightarrow> small_msg mb m \<Longrightarrow>
     mb_reachable (snd (try_push now m meta mb))"
| noded: "mb_reachable mb \<Longrightarrow> \<not> is_system_message (tag m) \<Longrightarrow> small_msg mb m \<Longrightarrow>
     mb_reachable (enqueue_node m mb)"
| dequeued: "mb_reachable mb \<Longrightarrow> mb_reachable (snd (dequeue now mb))"
| popped: "mb_reachable mb \<Longrightarrow> mb_reachable (snd (try_pop now mb))"
| limited: "mb_reachable mb \<Longrightarrow> mb_reachable (set_rate_limiter l mb)"
| policed: "mb_reachable mb \<Longrightarrow> mb_reachable (set_admission_policies ps mb)"
| signalled: "mb_reachable mb \<Longrightarrow> mb_reachable (snd (try_acquire_backpressure_signal now st force mb))"
| metered: "mb_reachable mb \<Longrightarrow> mb_reachable (mb\<lparr>metrics := es\<rparr>)"
| continued: "mb_reachable mb \<Longrightarrow> mb_reachable (mb\<lparr>has_continuation := c\<rparr>)"

lemma mb_reachable_inv: "mb_reachable mb \<Longrightarrow> mb_inv mb"
proof (induction rule: mb_reachable.induct)
  case (dequeued mb now)
  then show ?case using dequeue_inv [of mb now] by (cases "dequeue now mb") auto
next
  case (popped mb now)
  then show ?case using try_pop_inv [of mb now] by (cases "try_pop now mb") auto
next
  case (limited mb l)
  then show ?case using mb_inv_cong [of "set_rate_limiter l mb" mb] by (simp add: set_rate_limiter_def)
next
  case (policed mb ps)
  then show ?case using mb_inv_cong [of "set_admission_policies ps mb" mb] by (simp add: set_admission_policies_def)
next
  case (signalled mb now st force)
  then show ?case
    using mb_inv_cong [of "snd (try_acquire_backpressure_signal now st force mb)" mb]
    by (simp add: try_acquire_backpressure_signal_def split: prod.splits)
next
  case (metered mb es)
  then show ?case using mb_inv_cong [of "mb\<lparr>metrics := es\<rparr>" mb] by simp
next
  case (continued mb c)
  then show ?case using mb_inv_cong [of "mb\<lparr>has_continuation := c\<rparr>" mb] by simp
qed (auto intro: mailbox_init_inv try_push_inv enqueue_node_inv)


definition demo_msg :: "type_tag \<Rightarrow> typed_message" where
  "demo_msg t = \<lparr>tag = t, payload = [1, 2, 3], message_id = 1, delivery_priority = 0\<rparr>"

definition demo_meta :: "type_tag \<Rightarrow> mailbox_envelope_meta" where
  "demo_meta t = default_meta\<lparr>type_tag_of := t\<rparr>"

definition demo_mailbox :: mailbox where
  "demo_mailbox = mailbox_init 9 64 default_mailbox_config"

lemma demo_tag: "tag (demo_msg t) = t"
  by (simp add: demo_msg_def)

lemma demo_small: "node_size mb = 64 \<Longrightarrow> small_msg mb (demo_msg t)"
  by (simp add: small_msg_def estimate_node_bytes_def estimate_message_bytes_def demo_msg_def)

lemma demo_mailbox_reachable: "mb_reachable demo_mailbox"
  unfolding demo_mailbox_def by (rule created)

lemma demo_pushed_reachable: "mb_reachable (snd (try_push 5 (demo_msg 0x1000) (demo_meta 0x1000) demo_mailbox))"
  by (rule pushed [OF demo_mailbox_reachable])
    (simp_all add: demo_meta_def demo_msg_def demo_small [unfolded demo_msg_def] demo_mailbox_def mailbox_init_def)


section \<open>What a push does to the messages\<close>

definition evicting :: "overflow_policy \<Rightarrow> bool" where
  "evicting p \<longleftrightarrow> p = DropOldest \<or> p = DropLowestPriority"

lemma push_overflow_non_evicting:
  assumes "\<not> evicting p" and "push_overflow (make_overflow_handler p) m meta lane res mb = (r, mb')"
  shows "lanes mb' = lanes mb \<and> notified mb' = notified mb \<and> was_empty mb' = was_empty mb \<and>
    reservation mb' = reservation mb \<and> config mb' = config mb \<and> node_size mb' = node_size mb \<and>
    (if p = SpillToOverflowQueue then code r = ReroutedToOverflow \<and> overflow mb' = snd (oq_try_push m (overflow mb))
     else overflow mb' = overflow mb \<and> \<not> accepted r)"
  using assms
  by (cases p)
    (auto simp: evicting_def push_overflow_def Let_def reject_newest_handle_def drop_newest_handle_def
      dead_letter_handle_def signal_only_handle_def spill_eq accepted_def split: if_splits)

lemma accept_code: "code (make_result (code_after_accept st) why mb) \<in> {Accepted, AcceptedWithSoftPressure}"
  using code_after_accept_cases [of st] by (simp add: make_result_def)

lemma push_user_cases:
  assumes "mb_inv mb" and "push_user m meta lane mb = (r, mb')"
  obtains (stored) rm where
      "try_reserve (estimated_bytes meta) (max_messages (config mb)) (max_bytes (config mb)) (reservation mb)
         = (Reserved, rm)"
      "mb' = enqueue_reserved m meta lane False (mb\<lparr>reservation := rm\<rparr>)"
      "code r \<in> {Accepted, AcceptedWithSoftPressure}"
    | (full) res where "res \<noteq> Reserved"
      "try_reserve (estimated_bytes meta) (max_messages (config mb)) (max_bytes (config mb)) (reservation mb)
         = (res, reservation mb)"
      "push_overflow (make_overflow_handler (overflow_policy_of (config mb))) m meta lane res mb = (r, mb')"
proof -
  obtain res rm where t: "try_reserve (estimated_bytes meta) (max_messages (config mb)) (max_bytes (config mb))
      (reservation mb) = (res, rm)" by force
  show ?thesis
  proof (cases "res = Reserved")
    case True
    then show ?thesis
      using t assms(2) accept_code by (intro stored [of rm]) (auto simp: push_user_def Let_def)
  next
    case False
    moreover from this have "rm = reservation mb" using try_reserve_rejects_unchanged [OF t] by simp
    ultimately show ?thesis using t assms(2) by (intro full [of res]) (auto simp: push_user_def)
  qed
qed

text \<open>Every push is one of: refused by admission, the system lane, the user lanes.\<close>

lemma try_push_cases:
  assumes "mb_inv mb" and "type_tag_of meta = tag m" and "try_push now m meta mb = (r, mb')"
  obtains (refused) "lanes mb' = lanes mb" "overflow mb' = overflow mb" "notified mb' = notified mb"
      "was_empty mb' = was_empty mb" "reservation mb' = reservation mb" "config mb' = config mb" "code r = Rejected"
      "node_size mb' = node_size mb"
    | (system) mb1 where "is_system_message (tag m)" "mb_inv mb1" "same_frame mb mb1" "lanes mb1 = lanes mb" "overflow mb1 = overflow mb"
      "push_system m (meta\<lparr>estimated_bytes := estimate_node_bytes mb1 m\<rparr>) mb1 = (r, mb')"
    | (user) mb1 lane where "\<not> is_system_message (tag m)" "mb_inv mb1" "same_frame mb mb1" "lanes mb1 = lanes mb"
      "overflow mb1 = overflow mb" "reservation mb1 = reservation mb"
      "unat lane < unat (num_user_lanes (lanes mb1))"
      "push_user m (meta\<lparr>estimated_bytes := estimate_node_bytes mb1 m\<rparr>) lane mb1 = (r, mb')"
proof -
  let ?meta = "meta\<lparr>estimated_bytes := estimate_node_bytes mb m\<rparr>"
  obtain adm mb1 where a: "admit now ?meta mb = (adm, mb1)" by force
  have mb1: "mb_inv mb1" "lanes mb1 = lanes mb" "overflow mb1 = overflow mb" "notified mb1 = notified mb"
    "was_empty mb1 = was_empty mb" "node_size mb1 = node_size mb" "config mb1 = config mb" "limiter mb1 = limiter mb"
    "reservation mb1 = reservation mb" "has_continuation mb1 = has_continuation mb"
    using admit_inv [of now ?meta mb] admit_frame [of now ?meta mb] a assms(1) by simp_all
  have est: "estimate_node_bytes mb1 = estimate_node_bytes mb"
    using mb1(6) by (rule estimate_node_bytes_cong)
  have ok: "lanes_ok (lanes mb1)" using mb1(1) by (simp add: mb_inv_def mb_core_def)
  have fr: "same_frame mb mb1" using mb1 by (simp add: same_frame_def sys_msgs_def)
  show ?thesis
  proof (cases "decision adm = Accept")
    case False
    then show ?thesis
      using a assms(3) mb1 by (intro refused) (auto simp: try_push_def refused_result_def Let_def)
  next
    case True
    show ?thesis
    proof (cases "is_system_message (tag m)")
      case sys: True
      then show ?thesis
        using True a assms(2,3) mb1(1-3) fr est route_lane_sentinel [OF ok, of ?meta]
        by (intro system [of mb1]) (simp_all add: try_push_def Let_def)
    next
      case usr: False
      then show ?thesis
        using True a assms(2,3) mb1(1-3,9) fr est route_lane_sentinel [OF ok, of ?meta]
          route_lane_in_range [OF ok, of ?meta]
        by (intro user [of mb1 "route_lane ?meta mb1"]) (simp_all add: try_push_def Let_def)
    qed
  qed
qed

definition wake_log :: "mailbox_envelope_meta \<Rightarrow> mailbox \<Rightarrow> notification list" where
  "wake_log meta mb =
     (if was_empty mb then
        (if has_continuation mb then [Continuation] else []) @
        [if schedule_edf meta \<and> deadline_ns meta \<noteq> INT64_MAX
         then ReadyEdf (priority meta) (deadline_ns meta) else ReadyFast (priority meta) (deadline_ns meta)]
      else [])"

lemma enqueue_reserved_notified:
  "notified (enqueue_reserved m meta i False mb) = notified mb @ wake_log meta mb"
  by (simp add: enqueue_reserved_def wake_consumer_def notify_def wake_log_def Let_def)

lemma wake_log_cong:
  "was_empty mb = was_empty mb' \<Longrightarrow> has_continuation mb = has_continuation mb' \<Longrightarrow>
   wake_log (meta\<lparr>estimated_bytes := n\<rparr>) mb = wake_log meta mb'"
  by (simp add: wake_log_def)

lemma push_system_outcome:
  assumes "push_system m meta mb = (r, mb')"
  shows "(if code r = Rejected then lanes mb' = lanes mb \<and> notified mb' = notified mb \<and> was_empty mb' = was_empty mb
      else code r \<in> {Accepted, AcceptedWithSoftPressure} \<and> sys_msgs mb' = sys_msgs mb @ [m] \<and>
        user_msgs mb' = user_msgs mb \<and> notified mb' = notified mb @ wake_log meta mb) \<and>
    overflow mb' = overflow mb"
proof (cases "system_lane_reserved mb \<ge> protected_system_messages (config mb)")
  case True
  then show ?thesis using assms by (auto simp: push_system_def Let_def refused_result_def)
next
  case False
  let ?mb1 = "mb\<lparr>system_lane_reserved := system_lane_reserved mb + 1,
                      system_lane_bytes := system_lane_bytes mb + estimated_bytes meta\<rparr>"
  have e: "mb' = enqueue_reserved m meta kSystemLaneSentinel False ?mb1"
    and c: "code r = code_after_accept (pressure_state mb')"
    using assms False by (auto simp: push_system_def Let_def make_result_def)
  have "sys_msgs mb' = sys_msgs mb @ [m]" "user_msgs mb' = user_msgs mb" "overflow mb' = overflow mb"
    unfolding e by (simp_all add: sys_msgs_def user_msgs_def ml_enqueue_def lane_enq_def)
  moreover have "code r \<in> {Accepted, AcceptedWithSoftPressure}" using c code_after_accept_cases by simp
  moreover have "notified mb' = notified mb @ wake_log meta mb"
    unfolding e enqueue_reserved_notified by (simp add: wake_log_def)
  ultimately show ?thesis by auto
qed

lemma push_user_stored:
  assumes "lanes_ok (lanes mb)" and "unat lane < unat (num_user_lanes (lanes mb))"
    and "mb' = enqueue_reserved m meta lane False (mb\<lparr>reservation := rm\<rparr>)"
  shows "sys_msgs mb' = sys_msgs mb \<and> mset (user_msgs mb') = add_mset m (mset (user_msgs mb)) \<and>
    overflow mb' = overflow mb \<and> notified mb' = notified mb @ wake_log meta mb"
  using user_store [OF assms(1,2), of mb' m] assms(3)
  by (simp add: enqueue_reserved_notified) (simp add: wake_log_def)

lemma oq_unbounded_push: "oq_max_depth q = 0 \<Longrightarrow> oq_queue (snd (oq_try_push m q)) = oq_queue q @ [m]"
  by (simp add: oq_try_push_def)



section \<open>Waking the consumer\<close>

lemma push_notified:
  assumes "mb_inv mb" and "type_tag_of meta = tag m" and "\<not> evicting (overflow_policy_of (config mb))"
    and "try_push now m meta mb = (r, mb')"
  shows "notified mb' = notified mb @
      (if code r \<in> {Accepted, AcceptedWithSoftPressure} then wake_log meta mb else []) \<and>
    (was_empty mb' \<longrightarrow> was_empty mb)"
  using assms(1,2,4)
proof (cases rule: try_push_cases)
  case refused
  then show ?thesis by simp
next
  case (system mb1)
  have w: "wake_log (meta\<lparr>estimated_bytes := n\<rparr>) mb1 = wake_log meta mb" for n
    using system(3) by (intro wake_log_cong) (simp_all add: same_frame_def)
  have "was_empty mb' \<longrightarrow> was_empty mb1"
    using system(6) by (auto simp: push_system_def Let_def split: if_splits)
  then show ?thesis
    using push_system_outcome [OF system(6)] w system(3) by (auto simp: same_frame_def split: if_splits)
next
  case (user mb1 lane)
  have ok: "lanes_ok (lanes mb1)" using user(2) by (simp add: mb_inv_def mb_core_def)
  have w: "wake_log (meta\<lparr>estimated_bytes := n\<rparr>) mb1 = wake_log meta mb" for n
    using user(3) by (intro wake_log_cong) (simp_all add: same_frame_def)
  from user(2,8) show ?thesis
  proof (cases rule: push_user_cases)
    case (stored rm)
    have "\<not> was_empty mb'" using stored(2) by simp
    then show ?thesis
      using push_user_stored [OF ok user(7) stored(2)] stored(3) w user(3) by (auto simp: same_frame_def)
  next
    case (full res)
    have "\<not> evicting (overflow_policy_of (config mb1))" using assms(3) user(3) by (simp add: same_frame_def)
    note ne = push_overflow_non_evicting [OF this full(3)]
    then have "code r \<notin> {Accepted, AcceptedWithSoftPressure}"
      by (auto simp: accepted_def split: if_splits)
    then show ?thesis using ne user(3) by (simp add: same_frame_def)
  qed
qed



fun push_run :: "(u64 \<times> typed_message \<times> mailbox_envelope_meta) list \<Rightarrow> mailbox \<Rightarrow> mailbox" where
  "push_run [] mb = mb"
| "push_run ((now, m, meta) # ps) mb = push_run ps (snd (try_push now m meta mb))"

lemma try_push_config:
  assumes "mb_inv mb" and "type_tag_of meta = tag m" and "\<not> evicting (overflow_policy_of (config mb))"
    and "try_push now m meta mb = (r, mb')"
  shows "config mb' = config mb \<and> node_size mb' = node_size mb"
  using assms(1,2,4)
proof (cases rule: try_push_cases)
  case refused
  then show ?thesis by simp
next
  case (system mb1)
  then have "config mb' = config mb1 \<and> node_size mb' = node_size mb1"
    by (auto simp: push_system_def Let_def split: if_splits)
  then show ?thesis using system(3) by (simp add: same_frame_def)
next
  case (user mb1 lane)
  from user(2,8) have "config mb' = config mb1 \<and> node_size mb' = node_size mb1"
  proof (cases rule: push_user_cases)
    case (stored rm)
    then show ?thesis by simp
  next
    case (full res)
    have "\<not> evicting (overflow_policy_of (config mb1))" using assms(3) user(3) by (simp add: same_frame_def)
    from push_overflow_non_evicting [OF this full(3)] show ?thesis by simp
  qed
  then show ?thesis using user(3) by (simp add: same_frame_def)
qed

lemma push_run_silent:
  assumes "mb_inv mb" and "\<not> was_empty mb" and "\<not> evicting (overflow_policy_of (config mb))"
    and "list_all (\<lambda>(now, m, meta). type_tag_of meta = tag m \<and> small_msg mb m) ps"
  shows "notified (push_run ps mb) = notified mb \<and> \<not> was_empty (push_run ps mb) \<and> mb_inv (push_run ps mb)"
  using assms
proof (induction ps arbitrary: mb)
  case Nil
  then show ?case by simp
next
  case (Cons p ps)
  obtain now m meta where p: "p = (now, m, meta)" by (cases p) auto
  obtain r mb' where t: "try_push now m meta mb = (r, mb')" by force
  have tg: "type_tag_of meta = tag m" "small_msg mb m" using Cons.prems(4) p by simp_all
  have inv': "mb_inv mb'" using try_push_inv [OF Cons.prems(1) tg, of now] t by simp
  have cfg: "config mb' = config mb \<and> node_size mb' = node_size mb"
    by (rule try_push_config [OF Cons.prems(1) tg(1) Cons.prems(3) t])
  have "small_msg mb' = small_msg mb"
    using cfg estimate_node_bytes_cong [of mb' mb] by (simp add: small_msg_def fun_eq_iff)
  then have "list_all (\<lambda>(now, m, meta). type_tag_of meta = tag m \<and> small_msg mb' m) ps"
    using Cons.prems(4) by simp
  moreover have "notified mb' = notified mb" "\<not> was_empty mb'"
    using push_notified [OF Cons.prems(1) tg(1) Cons.prems(3) t] Cons.prems(2) by (auto simp: wake_log_def)
  ultimately show ?case using Cons.IH [OF inv'] Cons.prems(3) cfg p t by simp
qed

text \<open>
  C14. A rate-limited actor can be forgotten. When a dequeue on a non-empty mailbox is denied
  by the rate limiter it returns nothing, leaves the wakeup flag lowered and tells the
  scheduler nothing; from then on no push wakes the consumer, however many messages arrive,
  until the consumer is run for some other reason.
\<close>

theorem rate_limit_denial_silences_pushes:
  assumes "mb_reachable mb" and "\<not> mb_empty mb" and "dequeue now mb = (None, mb1)"
    and "\<not> evicting (overflow_policy_of (config mb))"
    and "list_all (\<lambda>(t, m, meta). type_tag_of meta = tag m \<and> small_msg mb1 m) ps"
  shows "notified (push_run ps mb1) = notified mb \<and> \<not> mb_empty (push_run ps mb1)"
proof -
  have inv: "mb_inv mb" and ok: "lanes_ok (lanes mb)"
    using mb_reachable_inv [OF assms(1)] by (simp_all add: mb_inv_def mb_core_def)
  have inv1: "mb_inv mb1" "config mb1 = config mb" using dequeue_inv [OF inv assms(3)] by simp_all
  have "notified mb1 = notified mb \<and> \<not> was_empty mb1"
    using ok
  proof (cases rule: ml_dequeue_cases)
    case none
    then show ?thesis using assms(2) mb_empty_iff [OF ok] by simp
  next
    case (sys m ms)
    then have "is_system_message (tag m)" using inv by (simp add: mb_inv_def mb_core_def kinds_ok_def)
    then show ?thesis using sys assms(3) by (simp add: dequeue_def rate_limited_simps Let_def)
  next
    case (user i m ms)
    obtain denied mb2 where rl: "rate_limited now (Some m)
        (mb\<lparr>was_empty := True, lanes := lanes (without_head i mb)\<rparr>) = (denied, mb2)" by force
    then have "mb1 = (enqueue_reserved m default_meta 0 True mb2)\<lparr>was_empty := False\<rparr>"
      using user(6) assms(3) by (auto simp: dequeue_def Let_def split: if_splits)
    then show ?thesis
      using rate_limited_frame [OF rl] by (simp add: enqueue_reserved_def Let_def)
  qed
  then have "notified (push_run ps mb1) = notified mb" "\<not> was_empty (push_run ps mb1)"
    "mb_inv (push_run ps mb1)"
    using push_run_silent [OF inv1(1) _ _ assms(5)] assms(4) inv1(2) by simp_all
  then show ?thesis
    using mb_empty_iff [of "push_run ps mb1"] by (auto simp: mb_inv_def mb_core_def flag_ok_def)
qed

definition throttled_demo :: mailbox where
  "throttled_demo =
     set_rate_limiter (Some (configure 1 0 rate_limiter_init))
       (snd (try_push 5 (demo_msg 0x1000) (demo_meta 0x1000) demo_mailbox))"

lemma demo_lanes:
  "lanes demo_mailbox = \<lparr>system_lane = [], user_lanes = replicate 8 [], num_user_lanes = 4,
      pending_ring = replicate 8 None, pending_write = 0, pending_count = 0, freed = []\<rparr>"
  by (simp add: demo_mailbox_def mailbox_init_def default_mailbox_config_def set_num_user_lanes_def
      multi_lane_init_def kMaxUserLanes_def kPendingFreeRingSize_def word_le_nat_alt)

lemma demo_config: "config demo_mailbox = default_mailbox_config" "policies demo_mailbox = None"
    "node_size demo_mailbox = 64" "reservation demo_mailbox = reservation_init"
  by (simp_all add: demo_mailbox_def mailbox_init_def normalize_capacity_def default_mailbox_config_def)

lemma demo_user_tag: "\<not> is_system_message 0x1000"
  by (simp add: is_system_message_def TypeTag_User_def)

lemma demo_pushed:
  "snd (try_push 5 (demo_msg 0x1000) (demo_meta 0x1000) demo_mailbox) =
     enqueue_reserved (demo_msg 0x1000) ((demo_meta 0x1000)\<lparr>estimated_bytes := 67\<rparr>) 0 False
       (demo_mailbox\<lparr>reservation := \<lparr>reserved_messages = 1, queued_bytes = 67\<rparr>\<rparr>)"
proof -
  have e: "estimate_node_bytes demo_mailbox (demo_msg 0x1000) = 67"
    by (simp add: estimate_node_bytes_def estimate_message_bytes_def demo_config demo_msg_def)
  have a: "admit 5 meta demo_mailbox = (default_admission, demo_mailbox)" for meta
    by (simp add: admit_def demo_config)
  have l: "route_lane ((demo_meta 0x1000)\<lparr>estimated_bytes := 67\<rparr>) demo_mailbox = 0"
    by (simp add: route_lane_def demo_config default_mailbox_config_def demo_meta_def demo_user_tag)
  have r: "try_reserve 67 (max_messages default_mailbox_config) (max_bytes default_mailbox_config) reservation_init
      = (Reserved, \<lparr>reserved_messages = 1, queued_bytes = 67\<rparr>)"
    by (simp add: reservation_defs default_mailbox_config_def reservation_init_def)
  show ?thesis
    using e a l r
    by (simp add: try_push_def push_user_def Let_def kSystemLaneSentinel_def demo_config default_admission_def)
qed

lemma throttled_demo_lanes:
  "lanes throttled_demo = (lanes demo_mailbox)\<lparr>user_lanes := (replicate 8 [])[0 := [demo_msg 0x1000]]\<rparr>"
  by (simp add: throttled_demo_def set_rate_limiter_def demo_pushed demo_lanes ml_enqueue_def lane_enq_def
      kSystemLaneSentinel_def)

lemma throttled_demo_reachable: "mb_reachable throttled_demo"
  unfolding throttled_demo_def by (intro limited demo_pushed_reachable)

theorem rate_limit_denial_silences_pushes_witness:
  "mb_reachable throttled_demo \<and> \<not> mb_empty throttled_demo \<and> fst (dequeue 7 throttled_demo) = None \<and>
   notified (push_run [(9, demo_msg 0x1000, demo_meta 0x1000)] (snd (dequeue 7 throttled_demo))) =
     notified throttled_demo"
proof -
  have ne: "\<not> mb_empty throttled_demo"
    by (auto simp: mb_empty_def ml_empty_def throttled_demo_lanes demo_lanes lane_cnt_of_def list_all_iff
        intro!: bexI [of _ 0])
  have lim: "limiter throttled_demo = Some (configure 1 0 rate_limiter_init)"
    by (simp add: throttled_demo_def set_rate_limiter_def)
  have "ml_dequeue lane_deq (lanes throttled_demo) = (Some (demo_msg 0x1000), lanes demo_mailbox)"
    by (simp add: ml_dequeue_def throttled_demo_lanes demo_lanes lane_deq_def upt_conv_Cons
        list_update_same_conv)
  then have d: "fst (dequeue 7 throttled_demo) = None"
    using lim by (simp add: dequeue_def rate_limited_def demo_tag demo_user_tag try_consume_def refill_def
        configure_def rate_limiter_init_def Let_def)
  moreover have "overflow_policy_of (config throttled_demo) = RejectNewest"
    by (simp add: throttled_demo_def set_rate_limiter_def demo_pushed demo_config default_mailbox_config_def)
  moreover have "node_size throttled_demo = 64"
    by (simp add: throttled_demo_def set_rate_limiter_def demo_pushed demo_config)
  then have "node_size (snd (dequeue 7 throttled_demo)) = 64"
    using lim \<open>ml_dequeue lane_deq (lanes throttled_demo) = (Some (demo_msg 0x1000), lanes demo_mailbox)\<close>
    by (simp add: dequeue_def rate_limited_def demo_tag demo_user_tag try_consume_def refill_def
        configure_def rate_limiter_init_def Let_def)
  moreover have "type_tag_of (demo_meta 0x1000) = tag (demo_msg 0x1000)"
    by (simp add: demo_meta_def demo_msg_def)
  ultimately show ?thesis
    using rate_limit_denial_silences_pushes [OF throttled_demo_reachable ne, of 7 "snd (dequeue 7 throttled_demo)"
        "[(9, demo_msg 0x1000, demo_meta 0x1000)]"] throttled_demo_reachable ne
    by (simp add: evicting_def demo_small prod_eq_iff)
qed

section \<open>Order and loss\<close>



lemma evict_size:
  assumes "x \<in># M"
  shows "size (M - (M - {#x#})) \<le> 1" "size (M - add_mset m (M - {#x#})) \<le> 1"
proof -
  obtain N where M: "M = add_mset x N" using assms by (meson multi_member_split)
  then show "size (M - (M - {#x#})) \<le> 1" by simp
  have "add_mset x N - add_mset m N = {#x#} - {#m#}"
    using add_diff_cancel_right [of "{#x#}" N "{#m#}"] by simp
  then show "size (M - add_mset m (M - {#x#})) \<le> 1"
    using M by (simp add: size_Diff_singleton_if)
qed

text \<open>
  Eviction is bounded: whatever the overflow policy, a push removes at most one message
  that was already queued, that message is a user message, and the system lane never loses
  one.
\<close>

theorem push_evicts_at_most_one:
  assumes "mb_reachable mb" and "type_tag_of meta = tag m" and "small_msg mb m"
  shows "let (r, mb') = try_push now m meta mb in
     mset (sys_msgs mb) \<subseteq># mset (sys_msgs mb') \<and>
     size (mset (user_msgs mb) - mset (user_msgs mb')) \<le> 1"
proof -
  obtain r mb' where p: "try_push now m meta mb = (r, mb')" by force
  have inv: "mb_inv mb" using assms(1) by (rule mb_reachable_inv)
  from inv assms(2) p have "mset (sys_msgs mb) \<subseteq># mset (sys_msgs mb') \<and>
     size (mset (user_msgs mb) - mset (user_msgs mb')) \<le> 1"
  proof (cases rule: try_push_cases)
    case refused
    then show ?thesis by (simp add: sys_msgs_def user_msgs_def)
  next
    case (system mb1)
    then have "sys_msgs mb1 = sys_msgs mb" "user_msgs mb1 = user_msgs mb"
      by (simp_all add: sys_msgs_def user_msgs_def)
    then show ?thesis
      using push_system_outcome [OF system(6)]
      by (cases "code r = Rejected") (auto simp: sys_msgs_def user_msgs_def)
  next
    case (user mb1 lane)
    have same: "sys_msgs mb1 = sys_msgs mb" "user_msgs mb1 = user_msgs mb"
      using user(4) by (simp_all add: sys_msgs_def user_msgs_def)
    have ok: "lanes_ok (lanes mb1)" using user(2) by (simp add: mb_inv_def mb_core_def)
    have sm: "small_msg mb1 m"
      using assms(3) user(3) estimate_node_bytes_cong [of mb1 mb] by (simp add: small_msg_def same_frame_def)
    from user(2,8) show ?thesis
    proof (cases rule: push_user_cases)
      case (stored rm)
      then show ?thesis using push_user_stored [OF ok user(7) stored(2)] same by simp
    next
      case (full res)
      have "full_outcome m (code r) mb1 mb'"
        using overflow_handler.push_overflow_outcome [OF make_overflow_handler_ok user(2,1) sm user(7) full(3)] .
      then show ?thesis
        using same evict_size [of _ "mset (user_msgs mb)"] by (fastforce simp: full_outcome_def split: if_splits)
    qed
  qed
  then show ?thesis using p by simp
qed

theorem push_evicts_at_most_one_witness:
  "mb_reachable demo_mailbox \<and> small_msg demo_mailbox (demo_msg 0x1000) \<and>
   (let (r, mb') = try_push 5 (demo_msg 0x1000) (demo_meta 0x1000) demo_mailbox in
      size (mset (user_msgs demo_mailbox) - mset (user_msgs mb')) \<le> 1)"
proof -
  have "type_tag_of (demo_meta 0x1000) = tag (demo_msg 0x1000)" "small_msg demo_mailbox (demo_msg 0x1000)"
    by (simp_all add: demo_meta_def demo_small demo_config) (simp add: demo_msg_def)
  then show ?thesis
    using push_evicts_at_most_one [OF demo_mailbox_reachable, of "demo_meta 0x1000" "demo_msg 0x1000" 5]
      demo_mailbox_reachable by auto
qed

end
