(* ===== verification/Mailbox_Hazards.thy ===== *)
theory Mailbox_Hazards
  imports Mailbox_Theorems
begin

text \<open>
  Calls of the mailbox interface after which its accounting or its service no longer matches
  the queued messages: batch pushes, pushes whose metadata lacks the message's tag, and a
  reconfiguration to fewer priority levels; and the order in which spilled messages come
  back.
\<close>

section \<open>Batch pushes\<close>

lemma store_each_effect:
  assumes "lanes_ok (lanes mb)" and "unat lane < unat (num_user_lanes (lanes mb))"
  shows "lanes_ok (lanes (store_each ms meta lane first mb)) \<and>
    sys_msgs (store_each ms meta lane first mb) = sys_msgs mb \<and>
    mset (user_msgs (store_each ms meta lane first mb)) = mset ms + mset (user_msgs mb) \<and>
    reservation (store_each ms meta lane first mb) = reservation mb \<and>
    config (store_each ms meta lane first mb) = config mb \<and>
    limiter (store_each ms meta lane first mb) = limiter mb"
  using assms
proof (induction ms arbitrary: mb first)
  case Nil
  then show ?case by simp
next
  case (Cons m ms)
  let ?mb = "enqueue_reserved m meta lane (\<not> first) mb"
  have st: "lanes_ok (lanes ?mb)" "sys_msgs ?mb = sys_msgs mb" "mset (user_msgs ?mb) = add_mset m (mset (user_msgs mb))"
    using user_store [OF Cons.prems, of ?mb m] by simp_all
  have "unat lane < unat (num_user_lanes (lanes ?mb))"
    using Cons.prems(2) by (auto simp: ml_enqueue_def)
  from Cons.IH [OF st(1) this, of False] st show ?case by simp
qed

text \<open>
  A batch reserves capacity for one message: whenever a batch of user messages passes
  its reservation, all of its messages are queued while the reservation counter grows by
  one. A batch larger than the free capacity is therefore stored past the limit.
\<close>

theorem batch_reserves_one:
  assumes "mb_reachable mb" and "msgs \<noteq> []" and "\<not> is_system_message (type_tag_of meta)"
    and "try_reserve (sum_list (map (estimate_node_bytes mb) msgs)) (max_messages (config mb))
           (max_bytes (config mb)) (reservation mb) = (Reserved, rm)"
  shows "let mb' = snd (try_push_batch now msgs meta mb) in
     length (user_msgs mb') = length (user_msgs mb) + length msgs \<and>
     unat (reserved_messages (reservation mb')) = Suc (length (user_msgs mb))"
proof -
  let ?meta = "meta\<lparr>estimated_bytes := sum_list (map (estimate_node_bytes mb) msgs)\<rparr>"
  let ?mb1 = "mb\<lparr>reservation := rm\<rparr>"
  have inv: "mb_inv mb" using assms(1) by (rule mb_reachable_inv)
  have ok: "lanes_ok (lanes ?mb1)" using inv by (simp add: mb_inv_def mb_core_def)
  have "unat (route_lane ?meta ?mb1) < unat (num_user_lanes (lanes ?mb1))"
    using assms(3) by (intro route_lane_in_range [OF ok]) simp
  note st = store_each_effect [OF ok this, of msgs ?meta True]
  have b: "snd (try_push_batch now msgs meta mb) = store_each msgs ?meta (route_lane ?meta ?mb1) True ?mb1"
    using assms(2,4) by (simp add: try_push_batch_def Let_def)
  have pos: "max_messages (config mb) > 0" and cnt: "unat (reserved_messages (reservation mb)) = length (user_msgs mb)"
    using inv by (simp_all add: mb_inv_def mb_core_def books_ok_def books_def)
  have "unat (reserved_messages rm) = Suc (unat (reserved_messages (reservation mb)))"
    using assms(4) pos
    by (auto simp: reservation_defs unat_inc_less not_le split: if_splits option.splits)
  moreover have "length (user_msgs (snd (try_push_batch now msgs meta mb))) = length (user_msgs mb) + length msgs"
    using st b by (simp flip: size_mset)
  ultimately show ?thesis using st b cnt by simp
qed

definition tiny_mailbox :: mailbox where
  "tiny_mailbox = mailbox_init 9 64 (default_mailbox_config\<lparr>max_messages := 1\<rparr>)"

theorem batch_reserves_one_witness:
  "mb_reachable tiny_mailbox \<and>
   (let mb' = snd (try_push_batch 5 [demo_msg 0x1000, demo_msg 0x1001, demo_msg 0x1002] default_meta tiny_mailbox) in
    max_messages (config tiny_mailbox) = 1 \<and> length (user_msgs mb') = 3 \<and>
    unat (reserved_messages (reservation mb')) = 1)"
proof -
  let ?ms = "[demo_msg 0x1000, demo_msg 0x1001, demo_msg 0x1002]"
  have reach: "mb_reachable tiny_mailbox" unfolding tiny_mailbox_def by (rule created)
  have cfg: "max_messages (config tiny_mailbox) = 1" "max_bytes (config tiny_mailbox) = 0"
    "reservation tiny_mailbox = reservation_init" "user_msgs tiny_mailbox = []"
    by (simp_all add: tiny_mailbox_def mailbox_init_def normalize_capacity_def default_mailbox_config_def
        user_msgs_def set_num_user_lanes_def multi_lane_init_def)
  have usr: "\<not> is_system_message (type_tag_of default_meta)"
    by (simp add: is_system_message_def default_meta_def)
  have "try_reserve (sum_list (map (estimate_node_bytes tiny_mailbox) ?ms)) (max_messages (config tiny_mailbox))
      (max_bytes (config tiny_mailbox)) (reservation tiny_mailbox) =
    (Reserved, \<lparr>reserved_messages = 1, queued_bytes = sum_list (map (estimate_node_bytes tiny_mailbox) ?ms)\<rparr>)"
    unfolding cfg by (simp add: reservation_defs reservation_init_def)
  from batch_reserves_one [OF reach _ usr this, of 5] reach cfg show ?thesis by (simp add: Let_def)
qed

text \<open>One user dequeue without rate limiter and spilling, whatever the books say.\<close>

lemma dequeue_user_reserved:
  assumes "lanes_ok (lanes mb)" and "sys_msgs mb = []" and "user_msgs mb \<noteq> []"
    and "\<forall>m\<in>set (user_msgs mb). \<not> is_system_message (tag m)" and "limiter mb = None"
    and "overflow_policy_of (config mb) \<noteq> SpillToOverflowQueue"
  obtains m mb' where "dequeue now mb = (Some m, mb')" "lanes_ok (lanes mb')" "sys_msgs mb' = []"
    "mset (user_msgs mb) = add_mset m (mset (user_msgs mb'))" "limiter mb' = None" "config mb' = config mb"
    "reserved_messages (reservation mb') = reserved_messages (reservation mb) - 1"
proof -
  from assms(1) show ?thesis
  proof (cases rule: ml_dequeue_cases)
    case none
    then show ?thesis using assms(3) by simp
  next
    case (sys m ms)
    then show ?thesis using assms(2) by simp
  next
    case (user i m ms)
    let ?mb1 = "mb\<lparr>was_empty := True, lanes := lanes (without_head i mb)\<rparr>"
    have tk: "lanes_ok (lanes ?mb1)" "sys_msgs ?mb1 = []" "mset (user_msgs mb) = add_mset m (mset (user_msgs ?mb1))"
      using user_take [OF assms(1) user(3)] user(5) assms(2) by (auto simp: sys_msgs_def user_msgs_def)
    have "m \<in># mset (user_msgs mb)" using tk(3) by simp
    then have usr: "\<not> is_system_message (tag m)" using assms(4) by simp
    have drain: "drain_overflow x = x" if "overflow_policy_of (config x) \<noteq> SpillToOverflowQueue" for x
      using that by (subst drain_overflow.simps) simp
    have d: "dequeue now mb = (Some m, finish_dequeue (Some m) ?mb1)"
      using user(6) assms(5) by (simp add: dequeue_def rate_limited_simps Let_def)
    let ?mb' = "finish_dequeue (Some m) ?mb1"
    have f: "lanes ?mb' = lanes ?mb1" "limiter ?mb' = None" "config ?mb' = config mb"
      "reserved_messages (reservation ?mb') = reserved_messages (reservation mb) - 1"
      using usr assms(5,6)
      by (simp_all add: finish_dequeue_def Let_def drain settle_node_def notify_def release_def)
    have "sys_msgs ?mb' = []" "user_msgs ?mb' = user_msgs ?mb1"
      using tk(2) f(1) by (simp_all add: sys_msgs_def user_msgs_def)
    then show ?thesis using d f tk that [of m ?mb'] by simp
  qed
qed



section \<open>Spilled messages\<close>

text \<open>
  C16. Draining goes as far as it can: with the spill policy a drain ends with an empty
  overflow queue, or with a message for which there is no room, which it has put at the back
  of the overflow queue.
\<close>

theorem drain_overflow_complete:
  assumes "mb_reachable mb" and "overflow_policy_of (config mb) = SpillToOverflowQueue"
  shows "let mb' = drain_overflow mb in
     oq_queue (overflow mb') = [] \<or>
     fst (try_reserve (estimate_node_bytes mb' (last (oq_queue (overflow mb')))) (max_messages (config mb'))
            (max_bytes (config mb')) (reservation mb')) \<noteq> Reserved"
proof -
  have "mb_core mb" using mb_reachable_inv [OF assms(1)] by (simp add: mb_inv_def)
  then have "oq_queue (overflow (drain_overflow mb)) = [] \<or>
     fst (try_reserve (estimate_node_bytes (drain_overflow mb) (last (oq_queue (overflow (drain_overflow mb)))))
       (max_messages (config (drain_overflow mb))) (max_bytes (config (drain_overflow mb)))
       (reservation (drain_overflow mb))) \<noteq> Reserved"
    using assms(2)
  proof (induction "length (oq_queue (overflow mb))" arbitrary: mb rule: less_induct)
    case less
    from less.prems(1) show ?case
    proof (cases rule: drain_overflow_cases)
      case idle
      then show ?thesis using less.prems(2) by simp
    next
      case (full m ms res mb')
      moreover have "estimate_node_bytes mb' = estimate_node_bytes mb"
        using full(5) by (intro estimate_node_bytes_cong) simp
      ultimately show ?thesis by simp
    next
      case (moved m ms rm mb')
      then show ?thesis using less.hyps [of mb'] less.prems(2) by (simp add: same_frame_def)
    qed
  qed
  then show ?thesis by (simp add: Let_def)
qed

theorem drain_overflow_complete_witness:
  "let mb = mailbox_init 9 64 (default_mailbox_config\<lparr>overflow_policy_of := SpillToOverflowQueue\<rparr>) in
   mb_reachable mb \<and> oq_queue (overflow (drain_overflow mb)) = []"
proof -
  let ?mb = "mailbox_init 9 64 (default_mailbox_config\<lparr>overflow_policy_of := SpillToOverflowQueue\<rparr>)"
  have r: "mb_reachable ?mb" by (rule created)
  have p: "overflow_policy_of (config ?mb) = SpillToOverflowQueue" "overflow ?mb = overflow_init 0"
    by (simp_all add: mailbox_init_def normalize_capacity_def default_mailbox_config_def)
  have "drain_overflow ?mb = ?mb"
    using p by (subst drain_overflow.simps) (simp add: oq_try_pop_def overflow_init_def)
  then show ?thesis
    using drain_overflow_complete [OF r p(1)] r p by (simp add: overflow_init_def Let_def)
qed

text \<open>
  The message that did not fit loses its place: the drain rotates the overflow queue, so
  spilled messages do not come back in the order they were spilled.
\<close>

lemma drain_overflow_rotates:
  assumes "mb_reachable mb" and "overflow_policy_of (config mb) = SpillToOverflowQueue"
    and "oq_queue (overflow mb) = m # ms"
    and "fst (try_reserve (estimate_node_bytes mb m) (max_messages (config mb)) (max_bytes (config mb))
           (reservation mb)) \<noteq> Reserved"
  shows "oq_queue (overflow (drain_overflow mb)) = ms @ [m]"
proof -
  have inv: "oq_inv (overflow mb)" using mb_reachable_inv [OF assms(1)] by (simp add: mb_inv_def mb_core_def)
  define oq where "oq = snd (oq_try_pop (overflow mb))"
  define oq2 where "oq2 = snd (oq_try_push m oq)"
  have pop: "oq_try_pop (overflow mb) = (Some m, oq)" using assms(3) by (simp add: oq_try_pop_def oq_def)
  have push: "oq_try_push m oq = (True, oq2)"
    using oq_try_push_True [of m oq] by (cases "oq_try_push m oq") (simp add: oq2_def)
  obtain res rm where t: "try_reserve (estimate_node_bytes mb m) (max_messages (config mb)) (max_bytes (config mb))
      (reservation mb) = (res, rm)" by force
  have est: "estimate_node_bytes (mb\<lparr>overflow := oq\<rparr>) = estimate_node_bytes mb"
    by (rule estimate_node_bytes_cong) simp
  have "overflow (drain_overflow mb) = oq2"
    using assms(2,4) pop push t est by (subst drain_overflow.simps) (simp add: Let_def)
  then show ?thesis
    using oq_pop_push_back [OF inv assms(3)] by (simp add: oq2_def oq_def)
qed

section \<open>Fewer priority levels\<close>

text \<open>
  Lanes beyond a reduced number of priority levels are no longer counted or served: their
  messages stay queued and reserved, and the mailbox reports itself empty.
\<close>

lemma set_config_strands_messages:
  assumes "mb_reachable mb" and "sys_msgs mb = []" and "1 \<le> priority_levels cfg" "unat (priority_levels cfg) \<le> 8"
    and "\<forall>j < unat (priority_levels cfg). user_lanes (lanes mb) ! j = []"
  shows "mb_empty (set_config cfg mb) \<and> fst (dequeue now (set_config cfg mb)) = None \<and>
    user_msgs (set_config cfg mb) = user_msgs mb"
proof -
  let ?mb = "set_config cfg mb" and ?n = "unat (priority_levels cfg)"
  have pl: "priority_levels (normalize_capacity cfg) = priority_levels cfg"
    by (simp add: normalize_capacity_def)
  have L: "lanes ?mb = set_num_user_lanes (priority_levels cfg) (lanes mb)"
    by (simp add: set_config_def Let_def pl)
  have num: "num_user_lanes (lanes ?mb) = priority_levels cfg" "system_lane (lanes ?mb) = []"
    "user_lanes (lanes ?mb) = user_lanes (lanes mb)"
    using assms(2-4) by (simp_all add: L set_num_user_lanes_def kMaxUserLanes_def sys_msgs_def)
  have len: "length (user_lanes (lanes mb)) = 8"
    using mb_reachable_inv [OF assms(1)] by (simp add: mb_inv_def mb_core_def lanes_ok_def)
  have "spec_take [0..<?n] (user_lanes (lanes mb)) = (None, user_lanes (lanes mb))"
  proof -
    have "first_nonempty [0..<?n] (user_lanes (lanes mb)) = None"
      using assms(5) by (simp add: first_nonempty_None)
    then show ?thesis by (simp add: spec_take_def)
  qed
  then have "take_first lane_deq [0..<?n] (user_lanes (lanes mb)) = (None, user_lanes (lanes mb))"
    using take_first_list [of "[0..<?n]" "user_lanes (lanes mb)"] len assms(4) by simp
  then have "fst (ml_dequeue lane_deq (lanes ?mb)) = None"
    using num by (simp add: ml_dequeue_def lane_deq_def)
  then have "fst (dequeue now ?mb) = None"
    by (cases "ml_dequeue lane_deq (lanes ?mb)") (simp add: dequeue_def rate_limited_simps Let_def)
  moreover have "mb_empty ?mb"
    using assms(5) num by (simp add: mb_empty_def ml_empty_def lane_cnt_of_def list_all_iff)
  moreover have "user_msgs ?mb = user_msgs mb" using num by (simp add: user_msgs_def)
  ultimately show ?thesis by simp
qed

end
