(* ===== verification/Endpoint.thy ===== *)
theory Endpoint
  imports HPA_Prelude
begin

text \<open>
  Endpoints and actor addresses: the types of \<^verbatim>\<open>types/types.hpp\<close> and \<^verbatim>\<open>ref/actor_address.hpp\<close>,
  their text form in \<^verbatim>\<open>src/net/endpoint.cpp\<close> and their protobuf form in \<^verbatim>\<open>src/msg/frame_protobuf.cpp\<close>.

  The socket library is a parameter: \<open>ntoa\<close> and \<open>pton4\<close> for \<^verbatim>\<open>inet_ntoa\<close> and
  \<^verbatim>\<open>inet_pton(AF_INET)\<close> with the byte swap around them, \<open>ntop6\<close> and \<open>pton6\<close> for their IPv6
  counterparts, \<open>resolve4\<close> and \<open>resolve6\<close> for \<^verbatim>\<open>getaddrinfo\<close>.  A protobuf message is the value
  of its fields; a \<^verbatim>\<open>oneof\<close> is a datatype with a constructor for the unset case.  The host is
  little endian.
\<close>

unbundle bit_operations_syntax

section \<open>Endpoints\<close>

definition bswap16 :: "u16 \<Rightarrow> u16" where
  "bswap16 x = push_bit 8 x OR drop_bit 8 x"

definition net_to_host_u16 :: "u16 \<Rightarrow> u16" where
  "net_to_host_u16 net_val = bswap16 net_val"

definition htons :: "u16 \<Rightarrow> u16" where
  "htons host_val = bswap16 host_val"

datatype end_point = Ipv4Endpoint (addr4: u32) (port_nw: u16) | Ipv6Endpoint (addr6: "u8 list") (port_nw: u16)

definition port :: "end_point \<Rightarrow> u16" where
  "port ep = net_to_host_u16 (port_nw ep)"

definition ipv4_is_loopback :: "u32 \<Rightarrow> bool" where
  "ipv4_is_loopback addr \<longleftrightarrow> drop_bit 24 addr = 0x7F"

definition ipv4_is_private_network :: "u32 \<Rightarrow> bool" where
  "ipv4_is_private_network addr \<longleftrightarrow>
     (let b1 = (ucast (drop_bit 24 addr AND 0xFF) :: u8); b2 = (ucast (drop_bit 16 addr AND 0xFF) :: u8)
      in b1 = 10 \<or> b1 = 172 \<and> b2 AND 0xF0 = 16 \<or> b1 = 192 \<and> b2 = 168)"

definition ipv6_is_loopback :: "u8 list \<Rightarrow> bool" where
  "ipv6_is_loopback addr \<longleftrightarrow> (\<forall>i \<in> set [0..<15]. addr ! i = 0) \<and> addr ! 15 = 1"

definition ipv6_is_private_network :: "u8 list \<Rightarrow> bool" where
  "ipv6_is_private_network addr \<longleftrightarrow> addr ! 0 AND 0xFE = 0xFC"

definition ipv6_is_unspecified :: "u8 list \<Rightarrow> bool" where
  "ipv6_is_unspecified addr \<longleftrightarrow> (\<forall>i \<in> set [0..<16]. addr ! i = 0)"

definition LocalEndpoint :: end_point where
  "LocalEndpoint = Ipv4Endpoint 0x7F000001 0"

definition endpoint_wf :: "end_point \<Rightarrow> bool" where
  "endpoint_wf ep \<longleftrightarrow> (case ep of Ipv4Endpoint _ _ \<Rightarrow> True | Ipv6Endpoint a _ \<Rightarrow> length a = 16)"

lemma bswap16_involution [simp]: "bswap16 (bswap16 x) = x"
  unfolding bswap16_def by (rule bit_word_eqI) (auto simp: bit_simps)

lemma ucast_16_32 [simp]: "ucast (ucast (x :: u16) :: u32) = x"
  by (rule bit_word_eqI) (auto simp: bit_simps)

section \<open>Text form\<close>

fun decimal :: "nat \<Rightarrow> string" where
  "decimal n = (if n < 10 then [char_of (48 + n)] else decimal (n div 10) @ [char_of (48 + n mod 10)])"

declare decimal.simps [simp del]

definition endpoint_to_string :: "(u32 \<Rightarrow> string) \<Rightarrow> (u8 list \<Rightarrow> string) \<Rightarrow> end_point \<Rightarrow> string" where
  "endpoint_to_string ntoa ntop6 ep =
     (case ep of
        Ipv4Endpoint a _ \<Rightarrow> ntoa a @ '':'' @ decimal (unat (port ep))
      | Ipv6Endpoint a _ \<Rightarrow> ''['' @ ntop6 a @ '']:'' @ decimal (unat (port ep)))"

fun parse_port :: "string \<Rightarrow> u32 \<Rightarrow> u32 option" where
  "parse_port [] p = Some p"
| "parse_port (c # cs) p =
     (if 48 \<le> (of_char c :: nat) \<and> (of_char c :: nat) \<le> 57
      then let p = p * 10 + of_nat (of_char c - 48)
           in if p > 65535 then None else parse_port cs p
      else None)"

definition parse_endpoint ::
    "(string \<Rightarrow> u32 option) \<Rightarrow> (string \<Rightarrow> u8 list option) \<Rightarrow> (string \<Rightarrow> u32 option) \<Rightarrow>
     (string \<Rightarrow> u8 list option) \<Rightarrow> string \<Rightarrow> end_point" where
  "parse_endpoint pton4 pton6 resolve4 resolve6 node_id =
     (if node_id = [] then LocalEndpoint
      else if CHR '':'' \<notin> set node_id then Ipv4Endpoint 0 0
      else
        let host = takeWhile (\<lambda>c. c \<noteq> CHR '':'') node_id;
            port_str = tl (dropWhile (\<lambda>c. c \<noteq> CHR '':'') node_id)
        in case parse_port port_str 0 of
             None \<Rightarrow> Ipv4Endpoint 0 0
           | Some p \<Rightarrow>
               case pton4 host of Some a \<Rightarrow> Ipv4Endpoint a (htons (ucast p)) | None \<Rightarrow>
               case pton6 host of Some a \<Rightarrow> Ipv6Endpoint a (htons (ucast p)) | None \<Rightarrow>
               case resolve4 host of Some a \<Rightarrow> Ipv4Endpoint a (htons (ucast p)) | None \<Rightarrow>
               case resolve6 host of Some a \<Rightarrow> Ipv6Endpoint a (htons (ucast p)) | None \<Rightarrow>
               Ipv4Endpoint 0 0)"

lemma decimal_digits: "c \<in> set (decimal n) \<Longrightarrow> 48 \<le> (of_char c :: nat) \<and> (of_char c :: nat) \<le> 57"
proof (induction n rule: decimal.induct)
  case (1 n)
  have m: "n mod 10 < 10" by simp
  show ?case
  proof (cases "n < 10")
    case True
    then show ?thesis using "1.prems" by (subst (asm) decimal.simps) (auto simp: of_char_of)
  next
    case False
    then have "c \<in> set (decimal (n div 10)) \<or> c = char_of (48 + n mod 10)"
      using "1.prems" by (subst (asm) decimal.simps) auto
    then show ?thesis using "1.IH" False m by (auto simp: of_char_of)
  qed
qed

lemma parse_port_append:
  "parse_port cs p = Some r \<Longrightarrow> parse_port (cs @ ds) p = parse_port ds r"
  by (induction cs arbitrary: p) (auto simp: Let_def split: if_splits)

lemma parse_port_digit:
  assumes "d < 10" and "n * 10 + d \<le> 65535"
  shows "parse_port [char_of (48 + d)] (of_nat n) = Some (of_nat (n * 10 + d))"
proof -
  let ?p = "of_nat n * 10 + of_nat d :: u32"
  have p: "?p = of_nat (n * 10 + d)" by simp
  have "unat ?p = n * 10 + d" unfolding p using assms(2) by (intro unat_of_nat_less) simp
  then have "\<not> ?p > 65535" using assms(2) by (simp add: word_less_nat_alt)
  moreover have "(of_char (char_of (48 + d)) :: nat) = 48 + d" using assms(1) by (simp add: of_char_of)
  ultimately show ?thesis using assms(1) by (simp add: Let_def)
qed

lemma parse_port_decimal: "n \<le> 65535 \<Longrightarrow> parse_port (decimal n) 0 = Some (of_nat n)"
proof (induction n rule: decimal.induct)
  case (1 n)
  show ?case
  proof (cases "n < 10")
    case True
    then show ?thesis using parse_port_digit [of n 0] by (subst decimal.simps) simp
  next
    case False
    then have "parse_port (decimal (n div 10)) 0 = Some (of_nat (n div 10))" using "1.IH" "1.prems" by simp
    moreover have "n div 10 * 10 + n mod 10 = n" by simp
    then have "parse_port [char_of (48 + n mod 10)] (of_nat (n div 10)) = Some (of_nat n)"
      using parse_port_digit [of "n mod 10" "n div 10"] "1.prems" by (metis mod_less_divisor zero_less_numeral)
    ultimately show ?thesis using False by (subst decimal.simps) (simp add: parse_port_append)
  qed
qed

lemma parse_port_digits: "parse_port cs p = Some r \<Longrightarrow> c \<in> set cs \<Longrightarrow> c \<noteq> CHR '']''"
  by (induction cs p rule: parse_port.induct) (auto simp: Let_def split: if_splits)

definition undecimal :: "string \<Rightarrow> nat" where
  "undecimal s = foldl (\<lambda>n c. 10 * n + (of_char c - 48)) 0 s"

lemma undecimal_decimal [simp]: "undecimal (decimal n) = n"
proof (induction n rule: decimal.induct)
  case (1 n)
  have "n mod 10 < 10" by simp
  then show ?case
    using 1 by (subst decimal.simps) (auto simp: undecimal_def of_char_of)
qed

text \<open>
  The text form of an IPv4 endpoint parses back to the same endpoint, for every port, as long as
  the socket library reads its own dotted form.
\<close>

theorem ipv4_text_roundtrip:
  assumes "\<And>a. pton4 (ntoa a) = Some a" and "\<And>a. CHR '':'' \<notin> set (ntoa a)"
  shows "parse_endpoint pton4 pton6 resolve4 resolve6 (endpoint_to_string ntoa ntop6 (Ipv4Endpoint a p)) =
    Ipv4Endpoint a p"
proof -
  let ?p = "bswap16 p" and ?s = "endpoint_to_string ntoa ntop6 (Ipv4Endpoint a p)"
  have s: "?s = ntoa a @ CHR '':'' # decimal (unat ?p)" by (simp add: endpoint_to_string_def port_def net_to_host_u16_def)
  have "unat ?p < 2 ^ 16" using unsigned_less [of ?p] by simp
  then have "unat ?p \<le> 65535" by simp
  then have "parse_port (decimal (unat ?p)) 0 = Some (of_nat (unat ?p))" by (rule parse_port_decimal)
  moreover have "takeWhile (\<lambda>c. c \<noteq> CHR '':'') ?s = ntoa a" "dropWhile (\<lambda>c. c \<noteq> CHR '':'') ?s = CHR '':'' # decimal (unat ?p)"
    unfolding s using assms(2) [of a] by (auto simp: takeWhile_append dropWhile_append)
  moreover have "ucast (of_nat (unat ?p) :: u32) = ?p" by (simp add: unsigned_of_nat ucast_16_32)
  ultimately show ?thesis
    using assms(1) by (simp add: parse_endpoint_def Let_def s htons_def)
qed

theorem ipv4_text_roundtrip_witness:
  "parse_endpoint (\<lambda>s. Some (of_nat (undecimal s))) (\<lambda>_. None) (\<lambda>_. None) (\<lambda>_. None)
     (endpoint_to_string (\<lambda>a. decimal (unat a)) (\<lambda>_. '':'') (Ipv4Endpoint 0x7F000001 0x5000)) =
   Ipv4Endpoint 0x7F000001 0x5000"
  by (rule ipv4_text_roundtrip) (auto dest: decimal_digits)

text \<open>
  The text form of an IPv6 endpoint never parses back: the parser splits at the first colon,
  which lies inside the bracketed address, and answers with the unspecified IPv4 endpoint.
\<close>

theorem ipv6_text_unreadable:
  assumes "\<And>a. CHR '':'' \<in> set (ntop6 a)"
  shows "parse_endpoint pton4 pton6 resolve4 resolve6 (endpoint_to_string ntoa ntop6 (Ipv6Endpoint a p)) =
    Ipv4Endpoint 0 0"
proof -
  let ?s = "endpoint_to_string ntoa ntop6 (Ipv6Endpoint a p)"
  obtain xs ys where x: "ntop6 a = xs @ CHR '':'' # ys" "CHR '':'' \<notin> set xs"
    using split_list_first [OF assms [of a]] by blast
  have s: "?s = (CHR ''['' # xs) @ CHR '':'' # (ys @ '']:'' @ decimal (unat (port (Ipv6Endpoint a p))))"
    by (simp add: endpoint_to_string_def x(1))
  have "dropWhile (\<lambda>c. c \<noteq> CHR '':'') ?s = CHR '':'' # (ys @ '']:'' @ decimal (unat (port (Ipv6Endpoint a p))))"
    unfolding s using x(2) by (auto simp: dropWhile_append)
  moreover have "parse_port (ys @ '']:'' @ ds) 0 = None" for ds
    using parse_port_digits [of "ys @ '']:'' @ ds" 0 _ "CHR '']''"] by (cases "parse_port (ys @ '']:'' @ ds) 0") auto
  ultimately show ?thesis by (simp add: parse_endpoint_def Let_def s)
qed

theorem ipv6_text_unreadable_witness:
  "parse_endpoint (\<lambda>_. None) (\<lambda>_. Some (replicate 15 0 @ [1])) (\<lambda>_. None) (\<lambda>_. None)
     (endpoint_to_string (\<lambda>_. ''0.0.0.0'') (\<lambda>_. ''::1'') (Ipv6Endpoint (replicate 15 0 @ [1]) 0x5000)) =
   Ipv4Endpoint 0 0"
  by (rule ipv6_text_unreadable) simp

section \<open>Protobuf form of an address\<close>

record actor_address =
  address_endpoint :: end_point
  address_type :: u32
  address_id :: u64
  address_incarnation :: u64

datatype pb_endpoint = PbIpv4 u32 u32 | PbIpv6 "u8 list" u32 | PbEndpointUnset

record pb_local_address =
  pb_actor_type :: u32
  pb_actor_id :: u64
  pb_incarnation :: u64

datatype pb_address = PbLocalAddr pb_local_address | PbGlobalAddr pb_endpoint pb_local_address | PbAddressUnset

definition default_address :: actor_address where
  "default_address = \<lparr>address_endpoint = Ipv4Endpoint 0x7F000001 0, address_type = 0, address_id = 0,
     address_incarnation = 0\<rparr>"

definition endpoint_to_proto :: "end_point \<Rightarrow> pb_endpoint" where
  "endpoint_to_proto ep =
     (case ep of Ipv4Endpoint a p \<Rightarrow> PbIpv4 a (ucast p) | Ipv6Endpoint a p \<Rightarrow> PbIpv6 a (ucast p))"

definition fill_local_addr :: "actor_address \<Rightarrow> pb_local_address" where
  "fill_local_addr addr = \<lparr>pb_actor_type = address_type addr, pb_actor_id = address_id addr,
     pb_incarnation = address_incarnation addr\<rparr>"

definition fill_global_addr :: "actor_address \<Rightarrow> pb_address" where
  "fill_global_addr addr = PbGlobalAddr (endpoint_to_proto (address_endpoint addr)) (fill_local_addr addr)"

definition is_default_local_endpoint :: "end_point \<Rightarrow> bool" where
  "is_default_local_endpoint ep \<longleftrightarrow>
     (case ep of
        Ipv4Endpoint a _ \<Rightarrow> ipv4_is_loopback a \<and> port ep = 0
      | Ipv6Endpoint a _ \<Rightarrow> ipv6_is_loopback a \<and> port ep = 0)"

definition address_to_proto :: "actor_address \<Rightarrow> pb_address" where
  "address_to_proto addr =
     (if is_default_local_endpoint (address_endpoint addr) \<or> address_id addr = 0
      then PbLocalAddr (fill_local_addr addr)
      else fill_global_addr addr)"

definition endpoint_from_proto :: "pb_endpoint \<Rightarrow> end_point" where
  "endpoint_from_proto pb =
     (case pb of
        PbIpv4 a p \<Rightarrow> Ipv4Endpoint a (ucast p)
      | PbIpv6 a p \<Rightarrow> Ipv6Endpoint (take 16 a) (ucast p)
      | PbEndpointUnset \<Rightarrow> Ipv4Endpoint 0 0)"

definition from_local_addr :: "pb_local_address \<Rightarrow> actor_address" where
  "from_local_addr l = \<lparr>address_endpoint = Ipv4Endpoint 0x7F000001 0, address_type = pb_actor_type l,
     address_id = pb_actor_id l, address_incarnation = pb_incarnation l\<rparr>"

definition from_global_addr :: "pb_endpoint \<Rightarrow> pb_local_address \<Rightarrow> actor_address" where
  "from_global_addr ep l = \<lparr>address_endpoint = endpoint_from_proto ep, address_type = pb_actor_type l,
     address_id = pb_actor_id l, address_incarnation = pb_incarnation l\<rparr>"

definition address_from_proto :: "pb_address \<Rightarrow> actor_address" where
  "address_from_proto pb =
     (case pb of
        PbLocalAddr l \<Rightarrow> from_local_addr l
      | PbGlobalAddr ep l \<Rightarrow> from_global_addr ep l
      | PbAddressUnset \<Rightarrow> default_address)"

text \<open>
  An address survives the protobuf form unchanged when it names a remote endpoint and a real
  actor; otherwise everything but the endpoint survives, and the endpoint becomes 127.0.0.1:0.
\<close>

theorem address_proto_roundtrip:
  assumes "endpoint_wf (address_endpoint a)"
  shows "address_from_proto (address_to_proto a) =
    (if is_default_local_endpoint (address_endpoint a) \<or> address_id a = 0
     then a\<lparr>address_endpoint := LocalEndpoint\<rparr> else a)"
  using assms
  by (cases "address_endpoint a")
    (auto simp: address_to_proto_def address_from_proto_def fill_local_addr_def fill_global_addr_def
      from_local_addr_def from_global_addr_def endpoint_to_proto_def endpoint_from_proto_def
      endpoint_wf_def LocalEndpoint_def)

theorem address_proto_roundtrip_witness:
  "let a = \<lparr>address_endpoint = Ipv6Endpoint (replicate 16 7) 0x5000, address_type = 3, address_id = 9, address_incarnation = 2\<rparr>
   in address_from_proto (address_to_proto a) = a"
proof -
  have "endpoint_wf (Ipv6Endpoint (replicate 16 7) 0x5000)"
    "\<not> is_default_local_endpoint (Ipv6Endpoint (replicate 16 7) 0x5000)" by code_simp+
  then show ?thesis
    using address_proto_roundtrip [of "\<lparr>address_endpoint = Ipv6Endpoint (replicate 16 7) 0x5000, address_type = 3,
      address_id = 9, address_incarnation = 2\<rparr>"] by (simp add: Let_def)
qed

end
