(* ===== verification/Gossip_Types.thy ===== *)
theory Gossip_Types
  imports Endpoint "HOL-Library.AList"
begin

text \<open>
  The data of the gossip protocol of \<^verbatim>\<open>src/net/gossip_membership.cpp\<close>: members, piggyback
  entries and configuration, their protobuf forms and the conversions between them.
\<close>

section \<open>Data\<close>

record acceptor_info =
  acc_port :: u16
  acc_handshake_version :: u8
  acc_protocol_version :: u8
  acc_tls_required :: bool

record node_identity =
  ni_endpoint :: end_point
  ni_host :: string
  ni_uds_path :: string
  ni_acceptors :: "acceptor_info list"

datatype member_status = Alive | Suspicious | Dead | Left | OtherStatus u8

record member =
  identity :: node_identity
  actor_types :: "string list"
  status :: member_status
  incarnation :: u64
  last_seen :: int

datatype piggyback_type = PiggyAlive | PiggySuspicious | PiggyDead | PiggyMetadata | PiggyOther u8

record piggyback_entry =
  pe_type :: piggyback_type
  pe_identity :: node_identity
  pe_incarnation :: u64
  pe_actor_types :: "string list"
  pe_load :: u32

record gossip_config =
  ping_timeout :: int
  suspicion_timeout :: int
  dead_timeout :: int
  fanout :: nat
  indirect_probes :: nat
  seeds :: "end_point list"
  local_state :: member

record pending_ping =
  expires_at :: int
  indirect_requested :: bool
  indirect_expires_at :: int

definition default_identity :: "end_point \<Rightarrow> node_identity" where
  "default_identity ep = \<lparr>ni_endpoint = ep, ni_host = [], ni_uds_path = [], ni_acceptors = []\<rparr>"

definition seen_member :: "end_point \<Rightarrow> u64 \<Rightarrow> int \<Rightarrow> member" where
  "seen_member ep inc now = \<lparr>identity = default_identity ep, actor_types = [], status = Alive,
     incarnation = inc, last_seen = now\<rparr>"

section \<open>Messages\<close>

datatype message_type = Ping | Ack | PingReq | IndirectAck | Join | SyncRsp | Leave

fun type_number :: "message_type \<Rightarrow> u8" where
  "type_number Ping = 1"
| "type_number Ack = 2"
| "type_number PingReq = 3"
| "type_number IndirectAck = 4"
| "type_number Join = 5"
| "type_number SyncRsp = 6"
| "type_number Leave = 7"

fun piggy_number :: "piggyback_type \<Rightarrow> u8" where
  "piggy_number PiggyAlive = 1"
| "piggy_number PiggySuspicious = 2"
| "piggy_number PiggyDead = 3"
| "piggy_number PiggyMetadata = 4"
| "piggy_number (PiggyOther n) = n"

record pb_acceptor =
  pa_port :: u32
  pa_handshake_version :: u32
  pa_protocol_version :: u32
  pa_tls_required :: bool

record pb_piggyback =
  pp_type :: u32
  pp_endpoint :: pb_endpoint
  pp_incarnation :: u64
  pp_actor_types :: "string list"
  pp_load :: u32
  pp_acceptors :: "pb_acceptor list"

record pb_member =
  pm_endpoint :: pb_endpoint
  pm_host :: string
  pm_uds_path :: string
  pm_incarnation :: u64
  pm_status :: u32
  pm_actor_types :: "string list"
  pm_acceptors :: "pb_acceptor list"

datatype gossip_body =
    PbPing pb_endpoint u64 u32 "pb_piggyback list"
  | PbAck pb_endpoint u64 "pb_piggyback list"
  | PbPingReq pb_endpoint pb_endpoint u64
  | PbIndirectAck pb_endpoint pb_endpoint u64
  | PbJoin pb_endpoint u64 string string "string list" "pb_acceptor list"
  | PbLeave pb_endpoint u64
  | PbNoBody

record pb_gossip_envelope =
  env_magic :: u32
  env_version :: u32
  env_type :: u32
  env_flags :: u32
  env_body :: gossip_body

record pb_sync_rsp =
  rsp_sender :: pb_endpoint
  rsp_incarnation :: u64
  rsp_members :: "pb_member list"

datatype packet = GossipPacket pb_gossip_envelope | SyncPacket pb_sync_rsp

definition GossipMagic :: u32 where
  "GossipMagic = 0x48504743"

definition GossipVersion :: u32 where
  "GossipVersion = 1"

definition ep_to_pb_endpoint :: "end_point \<Rightarrow> pb_endpoint" where
  "ep_to_pb_endpoint ep =
     (case ep of
        Ipv4Endpoint a _ \<Rightarrow> PbIpv4 a (ucast (port ep))
      | Ipv6Endpoint a _ \<Rightarrow> PbIpv6 a (ucast (port ep)))"

definition pb_endpoint_to_ep :: "pb_endpoint \<Rightarrow> end_point" where
  "pb_endpoint_to_ep pb =
     (case pb of
        PbIpv4 a p \<Rightarrow> Ipv4Endpoint a (htons (ucast p))
      | PbIpv6 a p \<Rightarrow> Ipv6Endpoint (if length a = 16 then a else replicate 16 0) (htons (ucast p))
      | PbEndpointUnset \<Rightarrow> Ipv4Endpoint 0 0)"

definition to_pb_acceptor :: "acceptor_info \<Rightarrow> pb_acceptor" where
  "to_pb_acceptor acc = \<lparr>pa_port = ucast (acc_port acc), pa_handshake_version = ucast (acc_handshake_version acc),
     pa_protocol_version = ucast (acc_protocol_version acc), pa_tls_required = acc_tls_required acc\<rparr>"

definition from_pb_acceptor :: "pb_acceptor \<Rightarrow> acceptor_info" where
  "from_pb_acceptor a = \<lparr>acc_port = ucast (pa_port a), acc_handshake_version = ucast (pa_handshake_version a),
     acc_protocol_version = ucast (pa_protocol_version a), acc_tls_required = pa_tls_required a\<rparr>"

definition to_pb_piggyback :: "piggyback_entry \<Rightarrow> pb_piggyback" where
  "to_pb_piggyback e = \<lparr>pp_type = ucast (piggy_number (pe_type e)), pp_endpoint = ep_to_pb_endpoint (ni_endpoint (pe_identity e)),
     pp_incarnation = pe_incarnation e, pp_actor_types = pe_actor_types e, pp_load = pe_load e,
     pp_acceptors = map to_pb_acceptor (ni_acceptors (pe_identity e))\<rparr>"

text \<open>The casts keep a number outside an enumeration; it matches no case of the switches.\<close>

definition piggy_of_number :: "u32 \<Rightarrow> piggyback_type" where
  "piggy_of_number x =
     (let n = (ucast x :: u8)
      in if n = 1 then PiggyAlive else if n = 2 then PiggySuspicious
         else if n = 3 then PiggyDead else if n = 4 then PiggyMetadata else PiggyOther n)"

definition status_number :: "member_status \<Rightarrow> u32" where
  "status_number s =
     (case s of Alive \<Rightarrow> 0 | Suspicious \<Rightarrow> 1 | Dead \<Rightarrow> 2 | Left \<Rightarrow> 3 | OtherStatus n \<Rightarrow> ucast n)"

definition status_of_number :: "u32 \<Rightarrow> member_status" where
  "status_of_number x =
     (let n = (ucast x :: u8)
      in if n = 0 then Alive else if n = 1 then Suspicious else if n = 2 then Dead
         else if n = 3 then Left else OtherStatus n)"

definition from_pb_piggyback :: "pb_piggyback \<Rightarrow> piggyback_entry" where
  "from_pb_piggyback pb =
     \<lparr>pe_type = piggy_of_number (pp_type pb),
      pe_identity = (default_identity (pb_endpoint_to_ep (pp_endpoint pb)))
        \<lparr>ni_acceptors := map from_pb_acceptor (pp_acceptors pb)\<rparr>,
      pe_incarnation = pp_incarnation pb, pe_actor_types = pp_actor_types pb, pe_load = pp_load pb\<rparr>"

definition to_pb_member :: "member \<Rightarrow> pb_member" where
  "to_pb_member m = \<lparr>pm_endpoint = ep_to_pb_endpoint (ni_endpoint (identity m)), pm_host = ni_host (identity m),
     pm_uds_path = ni_uds_path (identity m), pm_incarnation = incarnation m, pm_status = status_number (status m),
     pm_actor_types = actor_types m, pm_acceptors = map to_pb_acceptor (ni_acceptors (identity m))\<rparr>"

definition from_pb_member :: "pb_member \<Rightarrow> member" where
  "from_pb_member pb = \<lparr>identity = \<lparr>ni_endpoint = pb_endpoint_to_ep (pm_endpoint pb), ni_host = pm_host pb,
     ni_uds_path = pm_uds_path pb, ni_acceptors = map from_pb_acceptor (pm_acceptors pb)\<rparr>,
     actor_types = pm_actor_types pb, status = status_of_number (pm_status pb), incarnation = pm_incarnation pb,
     last_seen = 0\<rparr>"

end
