(* ===== verification/Gossip.thy ===== *)
theory Gossip
  imports Gossip_Types
begin

text \<open>
  The SWIM-style membership protocol of \<^verbatim>\<open>src/net/gossip_membership.cpp\<close>: the member table and
  its merge rules, the message handlers, the periodic protocol round and the message codec.

  The unordered maps are association lists in iteration order, which the standard leaves
  open; a new key goes to the end.  Readings of the clock are arguments.  What is handed to the
  transport and to the member change callback is recorded in \<open>sent\<close> and \<open>changes\<close>.  Random choice is
  the parameter \<open>shuffle\<close>, applied to the number of earlier shuffles.  A protobuf message is the
  value of its fields; serialising and parsing bytes is protobuf's and is left out: a received packet
  is the pair of what its bytes parse to as an envelope and as a sync response.  Timers
  of the event loop appear as the state they set.
\<close>

section \<open>State\<close>

record gossip =
  config :: gossip_config
  own_incarnation :: u64
  seq_no :: u32
  members :: "(end_point \<times> member) list"
  pending_pings :: "(end_point \<times> pending_ping) list"
  needs_dissemination :: bool
  forwarded_pings :: "(end_point \<times> end_point) list"
  join_retry_timer :: bool
  join_seed_index :: nat
  has_transport :: bool
  has_callback :: bool
  shuffles :: nat
  sent :: "(packet \<times> end_point) list"
  changes :: "(member \<times> bool) list"

definition local_endpoint :: "gossip \<Rightarrow> end_point" where
  "local_endpoint g = ni_endpoint (identity (local_state (config g)))"

definition transmit :: "packet \<Rightarrow> end_point \<Rightarrow> gossip \<Rightarrow> gossip" where
  "transmit pkt target g = (if has_transport g then g\<lparr>sent := sent g @ [(pkt, target)]\<rparr> else g)"

definition put_member :: "end_point \<Rightarrow> member \<Rightarrow> gossip \<Rightarrow> gossip" where
  "put_member ep m g = g\<lparr>members := AList.update ep m (members g)\<rparr>"

definition encode_message ::
    "message_type \<Rightarrow> u64 \<Rightarrow> u32 \<Rightarrow> end_point \<Rightarrow> piggyback_entry list \<Rightarrow> gossip \<Rightarrow> packet" where
  "encode_message ty inc seq ping_target pb g =
     (let self = local_state (config g);
          me = ep_to_pb_endpoint (ni_endpoint (identity self));
          pbs = map to_pb_piggyback pb;
          body = (case ty of
             Ping \<Rightarrow> PbPing me inc seq pbs
           | Ack \<Rightarrow> PbAck me inc pbs
           | PingReq \<Rightarrow> PbPingReq me (ep_to_pb_endpoint ping_target) inc
           | IndirectAck \<Rightarrow> PbIndirectAck me (ep_to_pb_endpoint ping_target) inc
           | Join \<Rightarrow> PbJoin me inc (ni_host (identity self)) (ni_uds_path (identity self)) (actor_types self)
               (map to_pb_acceptor (ni_acceptors (identity self)))
           | Leave \<Rightarrow> PbLeave me inc
           | SyncRsp \<Rightarrow> PbNoBody)
      in GossipPacket \<lparr>env_magic = GossipMagic, env_version = GossipVersion, env_type = ucast (type_number ty),
           env_flags = 0, env_body = body\<rparr>)"

record decoded =
  dec_type :: u8
  dec_sender :: end_point
  dec_inc :: u64
  dec_seq :: u32
  dec_target :: end_point
  dec_pb :: "piggyback_entry list"

definition no_endpoint :: end_point where
  "no_endpoint = Ipv4Endpoint 0 0"

definition decode_message :: "pb_gossip_envelope option \<Rightarrow> decoded option" where
  "decode_message data =
     (case data of
        None \<Rightarrow> None
      | Some env \<Rightarrow>
          if env_magic env \<noteq> GossipMagic \<or> env_version env \<noteq> GossipVersion then None
          else
            let ty = (ucast (env_type env) :: u8);
                d = \<lparr>dec_type = ty, dec_sender = no_endpoint, dec_inc = 0, dec_seq = 0,
                     dec_target = no_endpoint, dec_pb = []\<rparr>
            in if ty = type_number Ping then
                 (case env_body env of
                    PbPing ep inc seq pbs \<Rightarrow> Some (d\<lparr>dec_sender := pb_endpoint_to_ep ep, dec_inc := inc, dec_seq := seq,
                      dec_pb := map from_pb_piggyback pbs\<rparr>)
                  | _ \<Rightarrow> None)
               else if ty = type_number Ack then
                 (case env_body env of
                    PbAck ep inc pbs \<Rightarrow> Some (d\<lparr>dec_sender := pb_endpoint_to_ep ep, dec_inc := inc,
                      dec_pb := map from_pb_piggyback pbs\<rparr>)
                  | _ \<Rightarrow> None)
               else if ty = type_number PingReq then
                 (case env_body env of
                    PbPingReq ep target inc \<Rightarrow> Some (d\<lparr>dec_sender := pb_endpoint_to_ep ep,
                      dec_target := pb_endpoint_to_ep target, dec_inc := inc\<rparr>)
                  | _ \<Rightarrow> None)
               else if ty = type_number IndirectAck then
                 (case env_body env of
                    PbIndirectAck ep orig inc \<Rightarrow> Some (d\<lparr>dec_sender := pb_endpoint_to_ep ep,
                      dec_target := pb_endpoint_to_ep orig, dec_inc := inc\<rparr>)
                  | _ \<Rightarrow> None)
               else if ty = type_number Join then
                 (case env_body env of
                    PbJoin ep inc _ _ _ _ \<Rightarrow> Some (d\<lparr>dec_sender := pb_endpoint_to_ep ep, dec_inc := inc\<rparr>)
                  | _ \<Rightarrow> None)
               else if ty = type_number SyncRsp then None
               else if ty = type_number Leave then
                 (case env_body env of
                    PbLeave ep inc \<Rightarrow> Some (d\<lparr>dec_sender := pb_endpoint_to_ep ep, dec_inc := inc\<rparr>)
                  | _ \<Rightarrow> None)
               else Some d)"

definition encode_sync_rsp :: "member list \<Rightarrow> gossip \<Rightarrow> packet" where
  "encode_sync_rsp ms g = SyncPacket \<lparr>rsp_sender = ep_to_pb_endpoint (local_endpoint g),
     rsp_incarnation = own_incarnation g, rsp_members = map to_pb_member ms\<rparr>"

definition decode_sync_rsp :: "int \<Rightarrow> pb_sync_rsp option \<Rightarrow> member list option" where
  "decode_sync_rsp now data =
     map_option (\<lambda>rsp. map (\<lambda>pb. (from_pb_member pb)\<lparr>last_seen := now\<rparr>) (rsp_members rsp)) data"

section \<open>The member table\<close>

definition mark_suspicious :: "int \<Rightarrow> end_point \<Rightarrow> gossip \<Rightarrow> gossip" where
  "mark_suspicious now ep g =
     (case map_of (members g) ep of
        None \<Rightarrow> g
      | Some m \<Rightarrow> put_member ep (m\<lparr>status := Suspicious, last_seen := now\<rparr>) g)"

definition mark_dead :: "int \<Rightarrow> end_point \<Rightarrow> gossip \<Rightarrow> gossip" where
  "mark_dead now ep g =
     (case map_of (members g) ep of
        None \<Rightarrow> g
      | Some m \<Rightarrow>
          let m = m\<lparr>status := Dead, last_seen := now\<rparr>;
              g = put_member ep m g
          in if has_callback g then g\<lparr>changes := changes g @ [(m, False)]\<rparr> else g)"

definition merged :: "int \<Rightarrow> member \<Rightarrow> member \<Rightarrow> member" where
  "merged now remote existing =
     (let e = (if status existing = Dead \<and> incarnation remote > incarnation existing
               then existing\<lparr>status := Alive\<rparr> else existing);
          e = e\<lparr>incarnation := incarnation remote\<rparr>;
          e = (if status remote = Suspicious \<or> status remote = Dead \<or> status remote = Left
               then e\<lparr>status := status remote\<rparr> else e);
          e = (if actor_types remote \<noteq> [] then e\<lparr>actor_types := actor_types remote\<rparr> else e);
          e = (if ni_host (identity remote) \<noteq> []
               then e\<lparr>identity := (identity e)\<lparr>ni_host := ni_host (identity remote)\<rparr>\<rparr> else e);
          e = (if ni_acceptors (identity remote) \<noteq> []
               then e\<lparr>identity := (identity e)\<lparr>ni_acceptors := ni_acceptors (identity remote)\<rparr>\<rparr> else e)
      in if status e = Alive then e\<lparr>last_seen := now\<rparr> else e)"

definition merge_member :: "int \<Rightarrow> member \<Rightarrow> gossip \<Rightarrow> gossip" where
  "merge_member now remote g =
     (let ep = ni_endpoint (identity remote)
      in case map_of (members g) ep of
           None \<Rightarrow> put_member ep (remote\<lparr>last_seen := now\<rparr>) g
         | Some existing \<Rightarrow>
             if incarnation remote \<le> incarnation existing then g
             else put_member ep (merged now remote existing) g)"

definition new_from_piggyback :: "int \<Rightarrow> piggyback_entry \<Rightarrow> member" where
  "new_from_piggyback now entry =
     (let m = seen_member (ni_endpoint (pe_identity entry)) (pe_incarnation entry) now
      in case pe_type entry of
           PiggyAlive \<Rightarrow> m\<lparr>status := Alive\<rparr>
         | PiggySuspicious \<Rightarrow> m\<lparr>status := Suspicious\<rparr>
         | PiggyDead \<Rightarrow> m\<lparr>status := Dead\<rparr>
         | PiggyMetadata \<Rightarrow> m\<lparr>status := Alive, actor_types := pe_actor_types entry,
             identity := (identity m)\<lparr>ni_acceptors := ni_acceptors (pe_identity entry)\<rparr>\<rparr>
         | PiggyOther _ \<Rightarrow> m)"

definition update_from_piggyback :: "int \<Rightarrow> piggyback_entry \<Rightarrow> member \<Rightarrow> member" where
  "update_from_piggyback now entry existing =
     (let e = existing\<lparr>incarnation := pe_incarnation entry, last_seen := now\<rparr>
      in case pe_type entry of
           PiggyAlive \<Rightarrow> (if status e = Suspicious \<or> status e = Dead then e\<lparr>status := Alive\<rparr> else e)
         | PiggySuspicious \<Rightarrow> e\<lparr>status := Suspicious\<rparr>
         | PiggyDead \<Rightarrow> e\<lparr>status := Dead\<rparr>
         | PiggyMetadata \<Rightarrow>
             let e = (if pe_actor_types entry \<noteq> [] then e\<lparr>actor_types := pe_actor_types entry\<rparr> else e)
             in if ni_acceptors (pe_identity entry) \<noteq> []
                then e\<lparr>identity := (identity e)\<lparr>ni_acceptors := ni_acceptors (pe_identity entry)\<rparr>\<rparr> else e
         | PiggyOther _ \<Rightarrow> e)"

definition apply_entry :: "int \<Rightarrow> piggyback_entry \<Rightarrow> gossip \<Rightarrow> gossip" where
  "apply_entry now entry g =
     (let ep = ni_endpoint (pe_identity entry)
      in case map_of (members g) ep of
           None \<Rightarrow> put_member ep (new_from_piggyback now entry) g
         | Some existing \<Rightarrow>
             if pe_incarnation entry < incarnation existing then g
             else put_member ep (update_from_piggyback now entry existing) g)"

definition apply_piggyback :: "int \<Rightarrow> piggyback_entry list \<Rightarrow> gossip \<Rightarrow> gossip" where
  "apply_piggyback now entries g = fold (apply_entry now) entries g"

definition purge_dead_tombstones :: "int \<Rightarrow> gossip \<Rightarrow> gossip" where
  "purge_dead_tombstones now g =
     g\<lparr>members := filter (\<lambda>(ep, m). \<not> ((status m = Dead \<or> status m = Left) \<and>
         now - last_seen m > dead_timeout (config g))) (members g)\<rparr>"

definition pick_random_peers ::
    "(nat \<Rightarrow> end_point list \<Rightarrow> end_point list) \<Rightarrow> nat \<Rightarrow> end_point list \<Rightarrow> gossip \<Rightarrow> end_point list \<times> gossip" where
  "pick_random_peers shuffle count exclude g =
     (let candidates = [ep. (ep, m) \<leftarrow> members g, status m = Alive \<and> ep \<noteq> local_endpoint g \<and> ep \<notin> set exclude]
      in if candidates = [] then ([], g)
         else if length candidates \<le> count then (candidates, g)
         else (take count (shuffle (shuffles g) candidates), g\<lparr>shuffles := shuffles g + 1\<rparr>))"

definition build_piggyback :: "gossip \<Rightarrow> piggyback_entry list" where
  "build_piggyback g =
     (let self = local_state (config g)
      in (if needs_dissemination g
          then [\<lparr>pe_type = PiggyMetadata,
                 pe_identity = (default_identity (local_endpoint g))\<lparr>ni_acceptors := ni_acceptors (identity self)\<rparr>,
                 pe_incarnation = own_incarnation g, pe_actor_types = actor_types self, pe_load = 0\<rparr>]
          else []) @
         concat (map (\<lambda>(ep, m).
           if status m = Suspicious
           then [\<lparr>pe_type = PiggySuspicious, pe_identity = default_identity ep, pe_incarnation = incarnation m,
                  pe_actor_types = [], pe_load = 0\<rparr>]
           else if status m = Dead
           then [\<lparr>pe_type = PiggyDead, pe_identity = default_identity ep, pe_incarnation = incarnation m,
                  pe_actor_types = [], pe_load = 0\<rparr>]
           else []) (members g)))"

section \<open>Sending\<close>

definition send_message ::
    "message_type \<Rightarrow> end_point \<Rightarrow> piggyback_entry list \<Rightarrow> end_point \<Rightarrow> gossip \<Rightarrow> gossip" where
  "send_message ty ping_target pb target g =
     transmit (encode_message ty (own_incarnation g) (seq_no g) ping_target pb g) target
       (g\<lparr>seq_no := seq_no g + 1\<rparr>)"

definition send_ping :: "end_point \<Rightarrow> gossip \<Rightarrow> gossip" where
  "send_ping target g = send_message Ping (local_endpoint g) (build_piggyback g) target g"

definition send_ack :: "end_point \<Rightarrow> piggyback_entry list \<Rightarrow> gossip \<Rightarrow> gossip" where
  "send_ack target pb g = send_message Ack (local_endpoint g) pb target g"

definition send_ping_req :: "end_point \<Rightarrow> end_point \<Rightarrow> gossip \<Rightarrow> gossip" where
  "send_ping_req proxy target g = send_message PingReq target (build_piggyback g) proxy g"

definition send_indirect_ack :: "end_point \<Rightarrow> end_point \<Rightarrow> gossip \<Rightarrow> gossip" where
  "send_indirect_ack target orig_target g = send_message IndirectAck orig_target [] target g"

definition send_join :: "end_point \<Rightarrow> gossip \<Rightarrow> gossip" where
  "send_join seed g =
     (let self = local_state (config g);
          meta = \<lparr>pe_type = PiggyMetadata,
                  pe_identity = (default_identity (local_endpoint g))\<lparr>ni_acceptors := ni_acceptors (identity self)\<rparr>,
                  pe_incarnation = own_incarnation g, pe_actor_types = actor_types self, pe_load = 0\<rparr>
      in send_message Join (local_endpoint g) [meta] seed g)"

definition send_sync_rsp :: "end_point \<Rightarrow> gossip \<Rightarrow> gossip" where
  "send_sync_rsp target g =
     (let table = [m. (ep, m) \<leftarrow> members g, status m \<noteq> Dead \<and> status m \<noteq> Left]
      in transmit (encode_sync_rsp table g) target g)"

definition send_leave :: "end_point \<Rightarrow> gossip \<Rightarrow> gossip" where
  "send_leave target g = send_message Leave (local_endpoint g) [] target g"

section \<open>Handlers\<close>

definition handle_ping :: "int \<Rightarrow> end_point \<Rightarrow> u64 \<Rightarrow> piggyback_entry list \<Rightarrow> gossip \<Rightarrow> gossip" where
  "handle_ping now sender inc pb g =
     (let g = merge_member now (seen_member sender inc now) g;
          g = apply_piggyback now pb g;
          g = g\<lparr>pending_pings := AList.delete sender (pending_pings g)\<rparr>;
          ack_pb = build_piggyback g;
          g = (if ack_pb \<noteq> [] then g\<lparr>needs_dissemination := False\<rparr> else g)
      in send_message Ack (local_endpoint g) ack_pb sender g)"

definition handle_ack :: "int \<Rightarrow> end_point \<Rightarrow> u64 \<Rightarrow> piggyback_entry list \<Rightarrow> gossip \<Rightarrow> gossip" where
  "handle_ack now sender inc pb g =
     (let g = merge_member now (seen_member sender inc now) g;
          g = (case map_of (forwarded_pings g) sender of
                 None \<Rightarrow> g
               | Some requester \<Rightarrow>
                   let g = send_indirect_ack requester sender g
                   in g\<lparr>forwarded_pings := AList.delete sender (forwarded_pings g)\<rparr>);
          g = g\<lparr>pending_pings := AList.delete sender (pending_pings g)\<rparr>
      in apply_piggyback now pb g)"

definition handle_ping_req :: "int \<Rightarrow> end_point \<Rightarrow> end_point \<Rightarrow> gossip \<Rightarrow> gossip" where
  "handle_ping_req now sender target g =
     (let g = merge_member now (seen_member sender 0 now) g;
          g = g\<lparr>forwarded_pings := AList.update target sender (forwarded_pings g)\<rparr>
      in send_message Ping (local_endpoint g) (build_piggyback g) target g)"

definition handle_indirect_ack :: "int \<Rightarrow> end_point \<Rightarrow> end_point \<Rightarrow> gossip \<Rightarrow> gossip" where
  "handle_indirect_ack now sender target g =
     (let g = merge_member now (seen_member sender 0 now) g
      in case map_of (pending_pings g) target of
           None \<Rightarrow> g
         | Some pp \<Rightarrow>
             if indirect_requested pp then g\<lparr>pending_pings := AList.delete target (pending_pings g)\<rparr> else g)"

definition handle_join :: "int \<Rightarrow> end_point \<Rightarrow> u64 \<Rightarrow> piggyback_entry list \<Rightarrow> gossip \<Rightarrow> gossip" where
  "handle_join now sender inc pb g =
     (let g = merge_member now (seen_member sender inc now) g;
          g = apply_piggyback now pb g
      in send_sync_rsp sender g)"

definition handle_sync_rsp :: "int \<Rightarrow> member list \<Rightarrow> gossip \<Rightarrow> gossip" where
  "handle_sync_rsp now ms g =
     (let g = fold (merge_member now) ms g;
          g = g\<lparr>join_retry_timer := False\<rparr>
      in if map_of (members g) (local_endpoint g) = None
         then put_member (local_endpoint g)
                ((local_state (config g))\<lparr>incarnation := own_incarnation g, status := Alive, last_seen := now\<rparr>) g
         else g)"

definition handle_leave :: "int \<Rightarrow> end_point \<Rightarrow> u64 \<Rightarrow> gossip \<Rightarrow> gossip" where
  "handle_leave now sender inc g =
     (case map_of (members g) sender of
        None \<Rightarrow> g
      | Some m \<Rightarrow>
          if inc \<ge> incarnation m then
            let m = m\<lparr>status := Left, last_seen := now\<rparr>;
                g = put_member sender m g
            in if has_callback g then g\<lparr>changes := changes g @ [(m, False)]\<rparr> else g
          else g)"

definition handle_packet :: "int \<Rightarrow> pb_gossip_envelope option \<Rightarrow> pb_sync_rsp option \<Rightarrow> gossip \<Rightarrow> gossip" where
  "handle_packet now env rsp g =
     (case decode_message env of
        None \<Rightarrow> (case decode_sync_rsp now rsp of None \<Rightarrow> g | Some ms \<Rightarrow> handle_sync_rsp now ms g)
      | Some d \<Rightarrow>
          if dec_type d = type_number Ping then handle_ping now (dec_sender d) (dec_inc d) (dec_pb d) g
          else if dec_type d = type_number Ack then handle_ack now (dec_sender d) (dec_inc d) (dec_pb d) g
          else if dec_type d = type_number PingReq then handle_ping_req now (dec_sender d) (dec_target d) g
          else if dec_type d = type_number IndirectAck then handle_indirect_ack now (dec_sender d) (dec_target d) g
          else if dec_type d = type_number Join then handle_join now (dec_sender d) (dec_inc d) (dec_pb d) g
          else if dec_type d = type_number Leave then handle_leave now (dec_sender d) (dec_inc d) g
          else g)"

section \<open>The protocol round\<close>

definition expire_ping ::
    "(nat \<Rightarrow> end_point list \<Rightarrow> end_point list) \<Rightarrow> int \<Rightarrow> end_point \<Rightarrow>
     (end_point \<times> end_point) list \<times> end_point list \<times> gossip \<Rightarrow>
     (end_point \<times> end_point) list \<times> end_point list \<times> gossip" where
  "expire_ping shuffle now target s =
     (case s of (ping_reqs, suspects, g) \<Rightarrow>
        case map_of (pending_pings g) target of
          None \<Rightarrow> s
        | Some pp \<Rightarrow>
            if \<not> indirect_requested pp then
              let g = g\<lparr>pending_pings := AList.update target
                        (pp\<lparr>indirect_requested := True, indirect_expires_at := now + ping_timeout (config g)\<rparr>)
                        (pending_pings g)\<rparr>;
                  (probes, g) = pick_random_peers shuffle (indirect_probes (config g)) [target, local_endpoint g] g
              in if probes = []
                 then (ping_reqs, suspects @ [target], g\<lparr>pending_pings := AList.delete target (pending_pings g)\<rparr>)
                 else (ping_reqs @ map (\<lambda>proxy. (proxy, target)) probes, suspects, g)
            else (ping_reqs, suspects @ [target], g\<lparr>pending_pings := AList.delete target (pending_pings g)\<rparr>))"

definition probe_target :: "int \<Rightarrow> piggyback_entry list \<Rightarrow> end_point \<Rightarrow> gossip \<Rightarrow> gossip" where
  "probe_target now pb target g =
     (let g = send_message Ping (local_endpoint g) pb target g
      in case map_of (pending_pings g) target of
           Some pp \<Rightarrow> g\<lparr>pending_pings := AList.update target (pp\<lparr>expires_at := now + ping_timeout (config g)\<rparr>) (pending_pings g)\<rparr>
         | None \<Rightarrow> g\<lparr>pending_pings := AList.update target
             \<lparr>expires_at = now + ping_timeout (config g), indirect_requested = False, indirect_expires_at = 0\<rparr>
             (pending_pings g)\<rparr>)"

definition probe_round :: "(nat \<Rightarrow> end_point list \<Rightarrow> end_point list) \<Rightarrow> int \<Rightarrow> gossip \<Rightarrow> gossip" where
  "probe_round shuffle now g =
     (let alive = [ep. (ep, m) \<leftarrow> members g, status m = Alive \<and> ep \<noteq> local_endpoint g]
      in if alive = [] then g
         else
           let (targets, g) = pick_random_peers shuffle (fanout (config g)) [] g;
               pb = build_piggyback g;
               g = fold (probe_target now pb) targets g
           in if needs_dissemination g \<and> pb \<noteq> [] then g\<lparr>needs_dissemination := False\<rparr> else g)"

definition protocol_round :: "(nat \<Rightarrow> end_point list \<Rightarrow> end_point list) \<Rightarrow> int \<Rightarrow> gossip \<Rightarrow> gossip" where
  "protocol_round shuffle now g =
     (let expired_pings = [ep. (ep, pp) \<leftarrow> pending_pings g, now \<ge> expires_at pp];
          (ping_reqs, suspects, g) = fold (expire_ping shuffle now) expired_pings ([], [], g);
          g = fold (\<lambda>(proxy, target). send_ping_req proxy target) ping_reqs g;
          g = fold (mark_suspicious now) suspects g;
          g = probe_round shuffle now g;
          to_mark_dead = [ep. (ep, m) \<leftarrow> members g,
            status m = Suspicious \<and> now - last_seen m > suspicion_timeout (config g)];
          g = fold (mark_dead now) to_mark_dead g
      in purge_dead_tombstones now g)"

section \<open>Joining and leaving\<close>

definition gossip_init :: "gossip_config \<Rightarrow> bool \<Rightarrow> gossip" where
  "gossip_init cfg transport =
     \<lparr>config = cfg, own_incarnation = 1, seq_no = 0, members = [], pending_pings = [], needs_dissemination = False,
      forwarded_pings = [], join_retry_timer = False, join_seed_index = 0, has_transport = transport, has_callback = False,
      shuffles = 0, sent = [], changes = []\<rparr>"

definition gossip_start :: "int \<Rightarrow> u64 \<Rightarrow> bool \<Rightarrow> gossip \<Rightarrow> gossip" where
  "gossip_start now wall_clock bound g =
     (let g = g\<lparr>own_incarnation := wall_clock\<rparr>
      in if has_transport g \<and> \<not> bound then g
         else
           let self = (local_state (config g))\<lparr>incarnation := own_incarnation g, status := Alive, last_seen := now\<rparr>;
               g = put_member (ni_endpoint (identity self)) self g
           in case seeds (config g) of
                [] \<Rightarrow> g
              | seed # _ \<Rightarrow> (send_join seed (g\<lparr>join_seed_index := 0\<rparr>))\<lparr>join_retry_timer := True\<rparr>)"

definition join_retry :: "gossip \<Rightarrow> gossip" where
  "join_retry g =
     (let g = g\<lparr>join_seed_index := join_seed_index g + 1\<rparr>
      in if join_seed_index g \<ge> length (seeds (config g)) then g
         else if length (members g) > 1 then g
         else (send_join (seeds (config g) ! join_seed_index g) g)\<lparr>join_retry_timer := True\<rparr>)"

definition gossip_stop :: "gossip \<Rightarrow> gossip" where
  "gossip_stop g =
     (let g = g\<lparr>join_retry_timer := False\<rparr>;
          g = fold (\<lambda>(ep, m) g. if status m = Alive \<or> status m = Suspicious then send_leave ep g else g) (members g) g
      in g\<lparr>members := [], pending_pings := [], forwarded_pings := []\<rparr>)"

definition discover_all :: "gossip \<Rightarrow> member list" where
  "discover_all g = map snd (members g)"

definition discover :: "end_point \<Rightarrow> gossip \<Rightarrow> member option" where
  "discover ep g = map_of (members g) ep"

definition announce :: "int \<Rightarrow> member \<Rightarrow> gossip \<Rightarrow> gossip" where
  "announce now self g =
     (let inc = own_incarnation g + 1
      in g\<lparr>own_incarnation := inc,
           config := (config g)\<lparr>local_state := self\<lparr>incarnation := inc, last_seen := now\<rparr>\<rparr>,
           needs_dissemination := True\<rparr>)"

definition on_member_change :: "bool \<Rightarrow> gossip \<Rightarrow> gossip" where
  "on_member_change cb g = g\<lparr>has_callback := cb\<rparr>"

end
