(* ===== verification/Gossip_Theorems.thy ===== *)
theory Gossip_Theorems
  imports Gossip
begin

text \<open>
  What the gossip protocol keeps: incarnations never go back, a message decodes to what was
  encoded, and a suspicion is not refuted by the suspect's answers.
\<close>

section \<open>Incarnations never go back\<close>

definition keeps_members :: "gossip \<Rightarrow> gossip \<Rightarrow> bool" where
  "keeps_members g g' \<longleftrightarrow>
     (\<forall>ep m. map_of (members g) ep = Some m \<longrightarrow>
        (\<exists>m'. map_of (members g') ep = Some m' \<and> incarnation m \<le> incarnation m'))"

lemma keeps_refl [simp]: "keeps_members g g"
  by (simp add: keeps_members_def)

lemma keeps_trans [trans]: "keeps_members g g' \<Longrightarrow> keeps_members g' g'' \<Longrightarrow> keeps_members g g''"
  unfolding keeps_members_def by (meson order.trans)

lemma keeps_same_members [simp]: "members g' = members g \<Longrightarrow> keeps_members g g'"
  by (simp add: keeps_members_def)

lemma members_put [simp]: "map_of (members (put_member ep m g)) = (map_of (members g))(ep \<mapsto> m)"
  by (simp add: put_member_def update_conv')

lemma keeps_put:
  "(\<And>m0. map_of (members g) ep = Some m0 \<Longrightarrow> incarnation m0 \<le> incarnation m) \<Longrightarrow> keeps_members g (put_member ep m g)"
  by (auto simp: keeps_members_def)

lemma keeps_fold:
  assumes "\<And>x g. keeps_members g (f x g)"
  shows "keeps_members g (fold f xs g)"
proof (induction xs arbitrary: g)
  case (Cons x xs)
  then show ?case using assms keeps_trans by (metis fold_simps(2))
qed simp

lemma keeps_mark_suspicious [simp]: "keeps_members g (mark_suspicious now ep g)"
  by (auto simp: mark_suspicious_def intro!: keeps_put split: option.splits)

lemma keeps_mark_dead [simp]: "keeps_members g (mark_dead now ep g)"
proof -
  have "keeps_members g (put_member ep (m\<lparr>status := Dead, last_seen := now\<rparr>) g)" if "map_of (members g) ep = Some m" for m
    using that by (intro keeps_put) simp
  then show ?thesis
    by (auto simp: mark_dead_def Let_def keeps_members_def split: option.splits)
qed

lemma incarnation_merged [simp]: "incarnation (merged now remote e) = incarnation remote"
  by (simp add: merged_def Let_def if_distrib [of incarnation])

lemma keeps_merge_member [simp]: "keeps_members g (merge_member now remote g)"
proof (cases "map_of (members g) (ni_endpoint (identity remote))")
  case None
  then show ?thesis by (auto simp: merge_member_def Let_def intro!: keeps_put)
next
  case (Some e)
  then show ?thesis by (auto simp: merge_member_def Let_def intro!: keeps_put)
qed

lemma incarnation_update [simp]: "incarnation (update_from_piggyback now entry e) = pe_incarnation entry"
  by (simp add: update_from_piggyback_def Let_def split: piggyback_type.splits)

lemma keeps_apply_entry [simp]: "keeps_members g (apply_entry now entry g)"
proof (cases "map_of (members g) (ni_endpoint (pe_identity entry))")
  case None
  then show ?thesis by (auto simp: apply_entry_def Let_def intro!: keeps_put)
next
  case (Some e)
  then show ?thesis by (auto simp: apply_entry_def Let_def intro!: keeps_put)
qed

lemma keeps_apply_piggyback [simp]: "keeps_members g (apply_piggyback now entries g)"
  by (simp add: apply_piggyback_def keeps_fold)

lemma members_transmit [simp]: "members (transmit pkt ep g) = members g"
  by (simp add: transmit_def)

lemma members_send_message [simp]: "members (send_message ty tgt pb ep g) = members g"
  by (simp add: send_message_def)

lemma members_send_simps [simp]:
  "members (send_ping ep g) = members g" "members (send_ack ep pb g) = members g"
  "members (send_ping_req p t g) = members g" "members (send_indirect_ack p t g) = members g"
  "members (send_join ep g) = members g" "members (send_sync_rsp ep g) = members g"
  "members (send_leave ep g) = members g"
  by (simp_all add: send_ping_def send_ack_def send_ping_req_def send_indirect_ack_def send_join_def
      send_sync_rsp_def send_leave_def Let_def)

lemma keeps_handle_ping: "keeps_members g (handle_ping now sender inc pb g)"
proof -
  let ?g = "apply_piggyback now pb (merge_member now (seen_member sender inc now) g)"
  have "keeps_members g ?g" by (rule keeps_trans [OF keeps_merge_member keeps_apply_piggyback])
  moreover have "members (handle_ping now sender inc pb g) = members ?g" by (simp add: handle_ping_def Let_def)
  ultimately show ?thesis by (simp add: keeps_members_def)
qed

lemma keeps_handle_ack: "keeps_members g (handle_ack now sender inc pb g)"
proof -
  let ?g1 = "merge_member now (seen_member sender inc now) g"
  obtain g2 where "handle_ack now sender inc pb g = apply_piggyback now pb g2" "members g2 = members ?g1"
    by (simp add: handle_ack_def Let_def split: option.splits)
  then show ?thesis
    by (metis keeps_trans keeps_merge_member keeps_apply_piggyback keeps_same_members)
qed

lemma keeps_handle_ping_req: "keeps_members g (handle_ping_req now sender target g)"
proof -
  have "members (handle_ping_req now sender target g) = members (merge_member now (seen_member sender 0 now) g)"
    by (simp add: handle_ping_req_def Let_def)
  then show ?thesis using keeps_merge_member keeps_trans keeps_same_members by metis
qed

lemma keeps_handle_indirect_ack: "keeps_members g (handle_indirect_ack now sender target g)"
proof -
  have "members (handle_indirect_ack now sender target g) = members (merge_member now (seen_member sender 0 now) g)"
    by (simp add: handle_indirect_ack_def Let_def split: option.splits)
  then show ?thesis using keeps_merge_member keeps_trans keeps_same_members by metis
qed

lemma keeps_handle_join: "keeps_members g (handle_join now sender inc pb g)"
proof -
  have "members (handle_join now sender inc pb g) =
      members (apply_piggyback now pb (merge_member now (seen_member sender inc now) g))"
    by (simp add: handle_join_def Let_def)
  then show ?thesis
    using keeps_trans [OF keeps_merge_member keeps_apply_piggyback] by (simp add: keeps_members_def)
qed

lemma keeps_handle_sync_rsp: "keeps_members g (handle_sync_rsp now ms g)"
proof -
  define h where "h = (fold (merge_member now) ms g)\<lparr>join_retry_timer := False\<rparr>"
  have "keeps_members g (fold (merge_member now) ms g)" by (rule keeps_fold) simp
  then have gh: "keeps_members g h" by (rule keeps_trans) (simp add: h_def)
  show ?thesis
  proof (cases "map_of (members h) (local_endpoint h)")
    case None
    then have "keeps_members h (put_member (local_endpoint h) m h)" for m by (intro keeps_put) simp
    then show ?thesis
      unfolding handle_sync_rsp_def Let_def h_def [symmetric] using None keeps_trans [OF gh] by simp
  next
    case (Some m)
    then show ?thesis unfolding handle_sync_rsp_def Let_def h_def [symmetric] using gh by simp
  qed
qed

lemma keeps_handle_leave: "keeps_members g (handle_leave now sender inc g)"
proof (cases "map_of (members g) sender")
  case None
  then show ?thesis by (simp add: handle_leave_def)
next
  case (Some m)
  let ?h = "put_member sender (m\<lparr>status := Left, last_seen := now\<rparr>) g"
  have "keeps_members g ?h" using Some by (intro keeps_put) simp
  moreover have "keeps_members ?h (?h\<lparr>changes := c\<rparr>)" for c by simp
  ultimately show ?thesis using Some keeps_trans by (simp add: handle_leave_def Let_def)
qed

lemma keeps_handle_packet: "keeps_members g (handle_packet now env rsp g)"
  unfolding handle_packet_def
  by (simp add: keeps_handle_ping keeps_handle_ack keeps_handle_ping_req keeps_handle_indirect_ack keeps_handle_join
      keeps_handle_sync_rsp keeps_handle_leave split: option.splits)

lemma members_pick [simp]: "members (snd (pick_random_peers shuffle n ex g)) = members g"
  by (simp add: pick_random_peers_def Let_def)

lemma members_expire_ping: "members (snd (snd (expire_ping shuffle now target s))) = members (snd (snd s))"
  by (cases s) (simp add: expire_ping_def Let_def case_prod_beta split: option.splits)

lemma members_expire_pings: "members (snd (snd (fold (expire_ping shuffle now) ts s))) = members (snd (snd s))"
  by (induction ts arbitrary: s) (simp_all add: members_expire_ping)

lemma members_probe_target [simp]: "members (probe_target now pb t g) = members g"
  by (simp add: probe_target_def Let_def split: option.splits)

lemma members_probe_targets [simp]: "members (fold (probe_target now pb) ts g) = members g"
  by (induction ts arbitrary: g) simp_all

lemma members_probe_round [simp]: "members (probe_round shuffle now g) = members g"
  using members_pick [of shuffle "fanout (config g)" "[]" g] by (simp add: probe_round_def Let_def case_prod_beta)

lemma members_ping_reqs [simp]: "members (fold (\<lambda>(proxy, target). send_ping_req proxy target) rs g) = members g"
  by (induction rs arbitrary: g) (simp_all add: case_prod_beta)


section \<open>Reachable tables\<close>

datatype gossip_event =
    Packet "pb_gossip_envelope option" "pb_sync_rsp option"
  | Round
  | JoinRetry
  | Announce member
  | Stop

fun gossip_step :: "(nat \<Rightarrow> end_point list \<Rightarrow> end_point list) \<Rightarrow> int \<Rightarrow> gossip_event \<Rightarrow> gossip \<Rightarrow> gossip" where
  "gossip_step shuffle now (Packet env rsp) g = handle_packet now env rsp g"
| "gossip_step shuffle now Round g = protocol_round shuffle now g"
| "gossip_step shuffle now JoinRetry g = join_retry g"
| "gossip_step shuffle now (Announce m) g = announce now m g"
| "gossip_step shuffle now Stop g = gossip_stop g"

inductive gossip_reachable :: "(nat \<Rightarrow> end_point list \<Rightarrow> end_point list) \<Rightarrow> gossip \<Rightarrow> bool" for shuffle where
  "gossip_reachable shuffle (gossip_start now wall_clock bound (on_member_change cb (gossip_init cfg transport)))"
| "gossip_reachable shuffle g \<Longrightarrow> gossip_reachable shuffle (gossip_step shuffle now ev g)"

definition distinct_members :: "gossip \<Rightarrow> bool" where
  "distinct_members g \<longleftrightarrow> distinct (map fst (members g))"

lemma distinct_put [simp]: "distinct_members g \<Longrightarrow> distinct_members (put_member ep m g)"
  by (simp add: distinct_members_def put_member_def distinct_update)

lemma distinct_cong: "members g' = members g \<Longrightarrow> distinct_members g' = distinct_members g"
  by (simp add: distinct_members_def)

lemma distinct_fold:
  assumes "\<And>x g. distinct_members g \<Longrightarrow> distinct_members (f x g)"
  shows "distinct_members g \<Longrightarrow> distinct_members (fold f xs g)"
  using assms by (induction xs arbitrary: g) auto

lemma distinct_merge_member [simp]: "distinct_members g \<Longrightarrow> distinct_members (merge_member now m g)"
  by (simp add: merge_member_def Let_def split: option.splits)

lemma distinct_mark [simp]:
  "distinct_members g \<Longrightarrow> distinct_members (mark_suspicious now ep g)"
  "distinct_members g \<Longrightarrow> distinct_members (mark_dead now ep g)"
  by (simp_all add: mark_suspicious_def mark_dead_def Let_def distinct_cong [of "_\<lparr>changes := _\<rparr>"] split: option.splits)

lemma distinct_apply_piggyback [simp]: "distinct_members g \<Longrightarrow> distinct_members (apply_piggyback now pb g)"
  unfolding apply_piggyback_def
  by (rule distinct_fold) (simp_all add: apply_entry_def Let_def split: option.splits)

lemma distinct_transmit [simp]:
  "distinct_members (transmit pkt ep g) = distinct_members g"
  "distinct_members (send_message ty tgt pb ep g) = distinct_members g"
  "distinct_members (send_sync_rsp ep g) = distinct_members g"
  by (simp_all add: distinct_members_def)

lemma distinct_members_fields [simp]:
  "distinct_members (g\<lparr>pending_pings := x\<rparr>) = distinct_members g"
  "distinct_members (g\<lparr>forwarded_pings := y\<rparr>) = distinct_members g"
  "distinct_members (g\<lparr>needs_dissemination := b\<rparr>) = distinct_members g"
  "distinct_members (g\<lparr>join_retry_timer := b\<rparr>) = distinct_members g"
  "distinct_members (g\<lparr>changes := c\<rparr>) = distinct_members g"
  by (simp_all add: distinct_members_def)

lemma distinct_handle_packet: "distinct_members g \<Longrightarrow> distinct_members (handle_packet now env rsp g)"
proof -
  assume d: "distinct_members g"
  have sync: "distinct_members (fold (merge_member now) ms g)" for ms using d by (rule distinct_fold [rotated]) simp
  have ia: "distinct_members (send_indirect_ack r t h) = distinct_members h" for r t h by (simp add: send_indirect_ack_def)
  show ?thesis
    using d sync
    by (simp add: handle_packet_def handle_ping_def handle_ack_def handle_ping_req_def handle_indirect_ack_def
        handle_join_def handle_sync_rsp_def handle_leave_def Let_def ia split: option.splits)
qed

lemma protocol_round_members:
  obtains ms where "members (protocol_round shuffle now g) = members (purge_dead_tombstones now ms)" "keeps_members g ms"
    "distinct_members g \<Longrightarrow> distinct_members ms"
proof -
  obtain rs ss h where h: "fold (expire_ping shuffle now) [ep. (ep, pp) \<leftarrow> pending_pings g, now \<ge> expires_at pp] ([], [], g)
      = (rs, ss, h)" by (metis surj_pair)
  have mh: "members h = members g" using members_expire_pings [of shuffle now _ "([], [], g)"] h by (metis snd_conv)
  define h1 where "h1 = fold (mark_suspicious now) ss (fold (\<lambda>(proxy, target). send_ping_req proxy target) rs h)"
  define h2 where "h2 = probe_round shuffle now h1"
  define h3 where "h3 = fold (mark_dead now) [ep. (ep, m) \<leftarrow> members h2,
    status m = Suspicious \<and> now - last_seen m > suspicion_timeout (config h2)] h2"
  have "protocol_round shuffle now g = purge_dead_tombstones now h3"
    unfolding protocol_round_def Let_def h h1_def h2_def h3_def by simp
  moreover have "keeps_members g h1" unfolding h1_def
    by (rule keeps_trans [OF keeps_same_members keeps_fold]) (simp_all add: mh)
  then have "keeps_members g h3" unfolding h3_def
    by (rule keeps_trans) (rule keeps_trans [OF keeps_same_members keeps_fold], simp_all add: h2_def)
  moreover have "distinct_members h3" if "distinct_members g"
    unfolding h3_def h2_def h1_def
    by (rule distinct_fold, simp, subst distinct_cong [OF members_probe_round], rule distinct_fold, simp)
      (use that mh in \<open>simp add: distinct_members_def\<close>)
  ultimately show ?thesis using that by metis
qed

lemma distinct_gossip_step: "distinct_members g \<Longrightarrow> distinct_members (gossip_step shuffle now ev g)"
proof (cases ev)
  case Round
  assume "distinct_members g"
  moreover obtain ms where "members (protocol_round shuffle now g) = members (purge_dead_tombstones now ms)"
    "distinct_members g \<Longrightarrow> distinct_members ms" by (rule protocol_round_members [of shuffle now g]) blast
  ultimately show ?thesis
    using Round by (simp add: distinct_members_def purge_dead_tombstones_def distinct_map_filter)
next
  case (Packet env rsp)
  then show "distinct_members g \<Longrightarrow> ?thesis" by (simp add: distinct_handle_packet)
qed (simp_all add: announce_def gossip_stop_def join_retry_def Let_def distinct_members_def)

lemma reachable_distinct: "gossip_reachable shuffle g \<Longrightarrow> distinct_members g"
proof (induction rule: gossip_reachable.induct)
  case (1 now wall_clock bound cb cfg transport)
  have "members (on_member_change cb (gossip_init cfg transport)) = []"
    by (simp add: on_member_change_def gossip_init_def)
  then show ?case
    by (simp add: gossip_start_def Let_def distinct_members_def put_member_def split: list.splits)
qed (rule distinct_gossip_step)

lemma purge_subset:
  "distinct_members g \<Longrightarrow> map_of (members (purge_dead_tombstones now g)) ep = Some m \<Longrightarrow> map_of (members g) ep = Some m"
  unfolding distinct_members_def purge_dead_tombstones_def by (auto dest: map_of_SomeD)

text \<open>
  C35. Whatever packet arrives and whatever the rounds decide, the table of a node that was started
  never replaces a member's incarnation by an older one: an endpoint that is in the table before and
  after a step has an incarnation that did not decrease.
\<close>

theorem gossip_incarnation_monotone:
  assumes "gossip_reachable shuffle g" "discover ep g = Some m"
    "discover ep (gossip_step shuffle now ev g) = Some m'"
  shows "incarnation m \<le> incarnation m'"
proof -
  have *: "incarnation m \<le> incarnation m'" if "keeps_members g (gossip_step shuffle now ev g)"
    using that assms(2,3) unfolding keeps_members_def discover_def by (metis option.inject)
  show ?thesis
  proof (cases ev)
    case Round
    obtain ms where ms: "members (protocol_round shuffle now g) = members (purge_dead_tombstones now ms)"
      "keeps_members g ms" "distinct_members g \<Longrightarrow> distinct_members ms" by (rule protocol_round_members [of shuffle now g]) blast
    have "map_of (members ms) ep = Some m'"
      by (rule purge_subset) (use ms reachable_distinct assms Round in \<open>simp_all add: discover_def\<close>)
    with ms(2) assms(2) show ?thesis unfolding keeps_members_def discover_def by (metis option.inject)
  next
    case (Announce self)
    then have "keeps_members g (gossip_step shuffle now ev g)" by (simp add: announce_def Let_def)
    then show ?thesis by (rule *)
  next
    case JoinRetry
    then have "keeps_members g (gossip_step shuffle now ev g)" by (simp add: join_retry_def Let_def)
    then show ?thesis by (rule *)
  next
    case Stop
    then show ?thesis using assms(3) by (simp add: gossip_stop_def Let_def discover_def)
  qed (use * keeps_handle_packet in auto)
qed


section \<open>Suspicion\<close>

lemma config_mark [simp]:
  "config (mark_suspicious now ep g) = config g" "config (mark_dead now ep g) = config g"
  by (simp_all add: mark_suspicious_def mark_dead_def put_member_def Let_def split: option.splits)

lemma config_marks [simp]:
  "config (fold (mark_suspicious now) eps g) = config g" "config (fold (mark_dead now) eps g) = config g"
  by (induction eps arbitrary: g) simp_all

lemma config_send [simp]: "config (send_message ty tgt pb ep g) = config g"
  by (simp add: send_message_def transmit_def)

lemma config_ping_reqs [simp]: "config (fold (\<lambda>(proxy, target). send_ping_req proxy target) rs g) = config g"
  by (induction rs arbitrary: g) (simp_all add: case_prod_beta send_ping_req_def)

lemma config_pick [simp]: "config (snd (pick_random_peers shuffle n ex g)) = config g"
  by (simp add: pick_random_peers_def Let_def)

lemma config_expire_pings [simp]: "config (snd (snd (fold (expire_ping shuffle now) ts s))) = config (snd (snd s))"
proof (induction ts arbitrary: s)
  case (Cons t ts)
  have "config (snd (snd (expire_ping shuffle now t s))) = config (snd (snd s))"
    by (cases s) (simp add: expire_ping_def Let_def case_prod_beta split: option.splits)
  with Cons show ?case by simp
qed simp

lemma config_probe_round [simp]: "config (probe_round shuffle now g) = config g"
proof -
  have "config (fold (probe_target now pb) ts h) = config h" for pb ts h
    by (induction ts arbitrary: h) (simp_all add: probe_target_def Let_def split: option.splits)
  then show ?thesis by (simp add: probe_round_def Let_def case_prod_beta)
qed

lemma expired_suspects:
  "set (fst (snd (fold (expire_ping shuffle now) ts s))) \<subseteq> set (fst (snd s)) \<union> set ts"
proof (induction ts arbitrary: s)
  case (Cons t ts)
  have "set (fst (snd (expire_ping shuffle now t s))) \<subseteq> insert t (set (fst (snd s)))"
    by (cases s) (auto simp: expire_ping_def Let_def case_prod_beta split: option.splits)
  with Cons [of "expire_ping shuffle now t s"] show ?case by auto
qed simp

lemma mark_suspicious_others:
  "ep \<notin> set eps \<Longrightarrow> map_of (members (fold (mark_suspicious now) eps g)) ep = map_of (members g) ep"
proof (induction eps arbitrary: g)
  case (Cons e eps)
  then have "map_of (members (mark_suspicious now e g)) ep = map_of (members g) ep"
    by (simp add: mark_suspicious_def split: option.splits)
  with Cons show ?case by simp
qed simp

definition died_at :: "int \<Rightarrow> end_point \<Rightarrow> gossip \<Rightarrow> bool" where
  "died_at now ep g \<longleftrightarrow> (\<exists>m. map_of (members g) ep = Some m \<and> status m = Dead \<and> last_seen m = now)"

lemma died_stays: "died_at now ep g \<Longrightarrow> died_at now ep (fold (mark_dead now) eps g)"
proof (induction eps arbitrary: g)
  case (Cons e eps)
  have "died_at now ep (mark_dead now e g)"
    using Cons.prems by (auto simp: died_at_def mark_dead_def Let_def split: option.splits)
  with Cons show ?case by simp
qed simp

lemma mark_dead_dies:
  "ep \<in> set eps \<Longrightarrow> map_of (members g) ep = Some m \<Longrightarrow> died_at now ep (fold (mark_dead now) eps g)"
proof (induction eps arbitrary: g m)
  case (Cons e eps)
  show ?case
  proof (cases "e = ep")
    case True
    have "died_at now ep (mark_dead now ep g)" using Cons.prems by (auto simp: died_at_def mark_dead_def Let_def)
    with True show ?thesis by (simp add: died_stays)
  next
    case False
    then have "map_of (members (mark_dead now e g)) ep = Some m"
      using Cons.prems by (simp add: mark_dead_def Let_def split: option.splits)
    with Cons False show ?thesis by simp
  qed
qed simp

lemma map_of_filter_keep: "map_of xs k = Some v \<Longrightarrow> P (k, v) \<Longrightarrow> map_of (filter P xs) k = Some v"
  by (induction xs) (auto split: if_splits)

lemma purge_keeps_recent:
  "died_at now ep g \<Longrightarrow> 0 \<le> dead_timeout (config g) \<Longrightarrow> died_at now ep (purge_dead_tombstones now g)"
  unfolding died_at_def purge_dead_tombstones_def by (auto intro!: map_of_filter_keep)

lemma round_declares_dead:
  assumes m: "map_of (members g) ep = Some m" "status m = Suspicious"
    and pending: "ep \<notin> fst ` set (pending_pings g)"
    and late: "now - last_seen m > suspicion_timeout (config g)" and "0 \<le> dead_timeout (config g)"
  shows "died_at now ep (protocol_round shuffle now g)"
proof -
  let ?expired = "[ep. (ep, pp) \<leftarrow> pending_pings g, now \<ge> expires_at pp]"
  obtain rs ss h where h: "fold (expire_ping shuffle now) ?expired ([], [], g) = (rs, ss, h)" by (metis surj_pair)
  have mh: "members h = members g" "config h = config g"
    using members_expire_pings [of shuffle now ?expired "([], [], g)"]
      config_expire_pings [of shuffle now ?expired "([], [], g)"] h by simp_all
  have "ep \<notin> set ?expired" using pending by force
  then have ss: "ep \<notin> set ss" using expired_suspects [of shuffle now ?expired "([], [], g)"] h by auto
  define h2 where "h2 = probe_round shuffle now (fold (mark_suspicious now) ss
    (fold (\<lambda>(proxy, target). send_ping_req proxy target) rs h))"
  define ds where "ds = [ep. (ep, m) \<leftarrow> members h2, status m = Suspicious \<and> now - last_seen m > suspicion_timeout (config h2)]"
  have h2: "map_of (members h2) ep = Some m" "config h2 = config g"
    using m ss by (simp_all add: h2_def mark_suspicious_others mh)
  then have "(ep, m) \<in> set (members h2)" by (simp add: map_of_SomeD)
  then have "ep \<in> set ds" using m late h2 by (force simp: ds_def)
  then have "died_at now ep (fold (mark_dead now) ds h2)" using h2(1) by (rule mark_dead_dies)
  moreover have "protocol_round shuffle now g = purge_dead_tombstones now (fold (mark_dead now) ds h2)"
    unfolding protocol_round_def Let_def h h2_def ds_def by simp
  ultimately show ?thesis using assms(5) h2 by (simp add: purge_keeps_recent)
qed


section \<open>A concrete cluster\<close>

definition node_a :: end_point where
  "node_a = Ipv4Endpoint 0x0A000001 0x5000"

definition node_b :: end_point where
  "node_b = Ipv4Endpoint 0x0A000002 0x5000"

definition sample_config :: gossip_config where
  "sample_config = \<lparr>ping_timeout = 500, suspicion_timeout = 3000, dead_timeout = 10000, fanout = 3, indirect_probes = 2,
     seeds = [], local_state = seen_member node_a 1 0\<rparr>"

definition sample_start :: gossip where
  "sample_start = gossip_start 0 7 True (on_member_change True (gossip_init sample_config True))"

definition sample_ping :: "u64 \<Rightarrow> gossip_event" where
  "sample_ping inc = Packet (Some \<lparr>env_magic = GossipMagic, env_version = GossipVersion, env_type = 1, env_flags = 0,
     env_body = PbPing (ep_to_pb_endpoint node_b) inc 0 []\<rparr>) None"

definition sample_known :: gossip where
  "sample_known = gossip_step (\<lambda>n xs. xs) 10 (sample_ping 4) sample_start"

definition sample_suspected :: gossip where
  "sample_suspected = protocol_round (\<lambda>n xs. xs) 1000 (protocol_round (\<lambda>n xs. xs) 20 sample_known)"

definition answers :: "end_point \<Rightarrow> (int \<times> u64) list \<Rightarrow> gossip \<Rightarrow> gossip" where
  "answers ep acks g = fold (\<lambda>(t, inc). handle_ack t ep inc []) acks g"

definition suspected_since :: "int \<Rightarrow> end_point \<Rightarrow> gossip \<Rightarrow> bool" where
  "suspected_since t ep g \<longleftrightarrow> (\<exists>m. map_of (members g) ep = Some m \<and> status m = Suspicious \<and> last_seen m = t)"

lemma answer_keeps_suspicion:
  assumes "suspected_since t ep g"
  shows "suspected_since t ep (handle_ack now ep inc [] g)" "config (handle_ack now ep inc [] g) = config g"
    "ep \<notin> fst ` set (pending_pings (handle_ack now ep inc [] g))"
proof -
  obtain m where m: "map_of (members g) ep = Some m" "status m = Suspicious" "last_seen m = t"
    using assms by (auto simp: suspected_since_def)
  define h where "h = merge_member now (seen_member ep inc now) g"
  have h: "suspected_since t ep h" "config h = config g"
    using m by (auto simp: suspected_since_def h_def merge_member_def merged_def seen_member_def default_identity_def
        put_member_def update_conv' Let_def)
  have "members (handle_ack now ep inc [] g) = members h \<and> config (handle_ack now ep inc [] g) = config h \<and>
      ep \<notin> fst ` set (pending_pings (handle_ack now ep inc [] g))"
    by (simp add: handle_ack_def apply_piggyback_def Let_def send_indirect_ack_def AList.delete_eq image_iff
        split: option.splits flip: h_def)
  then show "suspected_since t ep (handle_ack now ep inc [] g)" "config (handle_ack now ep inc [] g) = config g"
    "ep \<notin> fst ` set (pending_pings (handle_ack now ep inc [] g))"
    using h by (simp_all add: suspected_since_def)
qed

lemma answers_keep_suspicion:
  assumes "acks \<noteq> []" "suspected_since t ep g"
  shows "suspected_since t ep (answers ep acks g) \<and> config (answers ep acks g) = config g \<and>
    ep \<notin> fst ` set (pending_pings (answers ep acks g))"
  using assms
proof (induction acks arbitrary: g rule: list_nonempty_induct)
  case (single a)
  then show ?case by (cases a) (simp add: answers_def answer_keeps_suspicion)
next
  case (cons a acks)
  obtain now inc where "a = (now, inc)" by (cases a)
  with cons.IH [of "handle_ack now ep inc [] g"] answer_keeps_suspicion [OF cons.prems, of now inc]
  show ?case by (simp add: answers_def)
qed


section \<open>The encoding\<close>

lemma endpoint_pb_roundtrip [simp]: "endpoint_wf ep \<Longrightarrow> pb_endpoint_to_ep (ep_to_pb_endpoint ep) = ep"
  by (cases ep) (simp_all add: pb_endpoint_to_ep_def ep_to_pb_endpoint_def endpoint_wf_def port_def
      htons_def net_to_host_u16_def)

lemma acceptor_pb_roundtrip [simp]: "from_pb_acceptor (to_pb_acceptor a) = a"
proof -
  have "ucast (ucast x :: u32) = x" for x :: u8 by (rule bit_word_eqI) (auto simp: bit_simps)
  then show ?thesis by (simp add: from_pb_acceptor_def to_pb_acceptor_def)
qed

definition piggyback_wf :: "piggyback_entry \<Rightarrow> bool" where
  "piggyback_wf e \<longleftrightarrow> endpoint_wf (ni_endpoint (pe_identity e)) \<and> ni_host (pe_identity e) = [] \<and>
     ni_uds_path (pe_identity e) = [] \<and> piggy_of_number (ucast (piggy_number (pe_type e))) = pe_type e"

lemma piggyback_pb_roundtrip: "piggyback_wf e \<Longrightarrow> from_pb_piggyback (to_pb_piggyback e) = e"
  by (cases e; cases "pe_identity e")
    (simp add: piggyback_wf_def from_pb_piggyback_def to_pb_piggyback_def default_identity_def comp_def)

lemma piggybacks_pb_roundtrip [simp]:
  "\<forall>e \<in> set pb. piggyback_wf e \<Longrightarrow> map (from_pb_piggyback \<circ> to_pb_piggyback) pb = pb"
  by (induction pb) (simp_all add: piggyback_pb_roundtrip)

lemma built_piggyback_wf:
  assumes "endpoint_wf (local_endpoint g)" "\<forall>(ep, m) \<in> set (members g). endpoint_wf ep"
  shows "\<forall>e \<in> set (build_piggyback g). piggyback_wf e"
  using assms
  by (auto simp: build_piggyback_def piggyback_wf_def default_identity_def piggy_of_number_def Let_def split: if_splits)



section \<open>Witnesses\<close>

theorem gossip_incarnation_monotone_witness:
  "map_option incarnation (discover node_b sample_known) = Some 4 \<and>
   (\<exists>m'. discover node_b (gossip_step (\<lambda>n xs. xs) 20 (sample_ping 3) sample_known) = Some m' \<and> 4 \<le> incarnation m')"
proof -
  have r: "gossip_reachable (\<lambda>n xs. xs) sample_known"
    unfolding sample_known_def sample_start_def by (intro gossip_reachable.intros)
  have known: "map_option incarnation (discover node_b sample_known) = Some 4" by code_simp
  then obtain m where m: "discover node_b sample_known = Some m" "incarnation m = 4" by auto
  have "discover node_b (gossip_step (\<lambda>n xs. xs) 20 (sample_ping 3) sample_known) \<noteq> None" by code_simp
  then obtain m' where m': "discover node_b (gossip_step (\<lambda>n xs. xs) 20 (sample_ping 3) sample_known) = Some m'" by blast
  from gossip_incarnation_monotone [OF r m(1) m'] known m m' show ?thesis by simp
qed



end
