(* ===== verification/Lifecycle.thy ===== *)
theory Lifecycle
  imports HPA_Prelude
begin

text \<open>
  The lifecycle of an actor: the state table of \<^verbatim>\<open>lifecycle_state.hpp\<close> and the class
  \<^verbatim>\<open>LifecycleActor\<close> of \<^verbatim>\<open>lifecycle_actor.hpp\<close> and \<^verbatim>\<open>lifecycle_actor.cpp\<close>. The
  virtual hooks are calls into user code; they are recorded in the order in which they are made.
\<close>

section \<open>The state table\<close>

datatype lifecycle_state =
    kStarting | kActive | kDraining | kStopping | kStopped | kFailed | kRecovering | kQuarantined
  | kPassivating | kPassivated

record state_def =
  sd_state :: lifecycle_state
  sd_name :: string
  accepts_user :: bool
  accepts_system :: bool
  num_transitions :: nat
  transitions :: "lifecycle_state list"

definition kStateMachine :: "state_def list" where
  "kStateMachine =
    [\<lparr>sd_state = kStarting, sd_name = ''starting'', accepts_user = False, accepts_system = True,
      num_transitions = 1, transitions = [kActive, kFailed]\<rparr>,
     \<lparr>sd_state = kActive, sd_name = ''active'', accepts_user = True, accepts_system = True,
      num_transitions = 5, transitions = [kDraining, kStopping, kFailed, kQuarantined, kPassivating]\<rparr>,
     \<lparr>sd_state = kDraining, sd_name = ''draining'', accepts_user = False, accepts_system = True,
      num_transitions = 2, transitions = [kStopping, kFailed]\<rparr>,
     \<lparr>sd_state = kStopping, sd_name = ''stopping'', accepts_user = False, accepts_system = True,
      num_transitions = 2, transitions = [kStopped, kFailed]\<rparr>,
     \<lparr>sd_state = kStopped, sd_name = ''stopped'', accepts_user = False, accepts_system = False,
      num_transitions = 1, transitions = [kStarting]\<rparr>,
     \<lparr>sd_state = kFailed, sd_name = ''failed'', accepts_user = False, accepts_system = True,
      num_transitions = 4, transitions = [kStarting, kStopped, kRecovering, kQuarantined]\<rparr>,
     \<lparr>sd_state = kRecovering, sd_name = ''recovering'', accepts_user = False, accepts_system = True,
      num_transitions = 3, transitions = [kActive, kFailed, kQuarantined]\<rparr>,
     \<lparr>sd_state = kQuarantined, sd_name = ''quarantined'', accepts_user = False, accepts_system = True,
      num_transitions = 1, transitions = [kStopped]\<rparr>,
     \<lparr>sd_state = kPassivating, sd_name = ''passivating'', accepts_user = False, accepts_system = True,
      num_transitions = 2, transitions = [kPassivated, kFailed]\<rparr>,
     \<lparr>sd_state = kPassivated, sd_name = ''passivated'', accepts_user = False, accepts_system = True,
      num_transitions = 3, transitions = [kRecovering, kStopped, kFailed]\<rparr>]"

fun state_index :: "lifecycle_state \<Rightarrow> nat" where
  "state_index kStarting = 0"
| "state_index kActive = 1"
| "state_index kDraining = 2"
| "state_index kStopping = 3"
| "state_index kStopped = 4"
| "state_index kFailed = 5"
| "state_index kRecovering = 6"
| "state_index kQuarantined = 7"
| "state_index kPassivating = 8"
| "state_index kPassivated = 9"

definition legal :: "lifecycle_state \<Rightarrow> lifecycle_state \<Rightarrow> bool" where
  "legal from to \<longleftrightarrow> (let def = kStateMachine ! state_index from
     in to \<in> set (take (num_transitions def) (transitions def)))"

section \<open>Lifecycle actors\<close>

datatype quarantine_reason =
    SupervisionEscalation | CircuitBreakerTrip | MailboxPressure | OperatorAction | RecoveryFailure

datatype drain_policy = Drain | DropUserMessages | ImmediateStop | SnapshotAndStop | TransferShard

datatype hook =
    OnStart | OnDrain | OnStop | OnDeactivate | OnFail u32 | OnRestart | OnRecover
  | OnQuarantined quarantine_reason | OnPassivating | OnPassivated

record lifecycle_actor =
  lc_state :: lifecycle_state
  lc_incarnation :: u64
  failure_reason :: u32
  lc_drain_policy :: drain_policy
  lc_quarantine_reason :: quarantine_reason
  quarantined_at :: int
  hooks :: "hook list"

definition lifecycle_init :: lifecycle_actor where
  "lifecycle_init = \<lparr>lc_state = kStarting, lc_incarnation = 0, failure_reason = 0, lc_drain_policy = Drain,
     lc_quarantine_reason = SupervisionEscalation, quarantined_at = 0, hooks = []\<rparr>"

definition state_def_of :: "lifecycle_actor \<Rightarrow> state_def" where
  "state_def_of a = kStateMachine ! state_index (lc_state a)"

definition accepts_user_msgs :: "lifecycle_actor \<Rightarrow> bool" where
  "accepts_user_msgs a = accepts_user (state_def_of a)"

definition accepts_system_msgs :: "lifecycle_actor \<Rightarrow> bool" where
  "accepts_system_msgs a = accepts_system (state_def_of a)"

definition state_string :: "lifecycle_actor \<Rightarrow> string" where
  "state_string a = sd_name (state_def_of a)"

definition bump_incarnation :: "lifecycle_actor \<Rightarrow> lifecycle_actor" where
  "bump_incarnation a = a\<lparr>lc_incarnation := lc_incarnation a + 1\<rparr>"

definition set_failure_reason :: "u32 \<Rightarrow> lifecycle_actor \<Rightarrow> lifecycle_actor" where
  "set_failure_reason err a = a\<lparr>failure_reason := err\<rparr>"

definition set_drain_policy :: "drain_policy \<Rightarrow> lifecycle_actor \<Rightarrow> lifecycle_actor" where
  "set_drain_policy p a = a\<lparr>lc_drain_policy := p\<rparr>"

definition call_hook :: "hook \<Rightarrow> lifecycle_actor \<Rightarrow> lifecycle_actor" where
  "call_hook h a = a\<lparr>hooks := hooks a @ [h]\<rparr>"

definition run_hook :: "int \<Rightarrow> lifecycle_state \<Rightarrow> lifecycle_state \<Rightarrow> lifecycle_actor \<Rightarrow> lifecycle_actor" where
  "run_hook now from to a =
     (if to = kActive \<and> (from = kStarting \<or> from = kRecovering) then call_hook OnStart a
      else if to = kDraining then call_hook OnDrain a
      else if to = kStopping then call_hook OnStop a
      else if to = kStopped then call_hook OnDeactivate a
      else if to = kFailed then call_hook (OnFail (failure_reason a)) a
      else if to = kStarting \<and> (from = kFailed \<or> from = kStopped) then call_hook OnRestart a
      else if to = kRecovering then call_hook OnRecover a
      else if to = kQuarantined then
        (let a = a\<lparr>quarantined_at := now\<rparr> in call_hook (OnQuarantined (lc_quarantine_reason a)) a)
      else if to = kPassivating then call_hook OnPassivating a
      else if to = kPassivated then call_hook OnPassivated a
      else a)"

text \<open>
  The compare-and-exchange on the state with the hook that follows it; \<open>from\<close> is the state read
  before, which another thread may have changed since.
\<close>

definition exchange_state ::
    "int \<Rightarrow> lifecycle_state \<Rightarrow> lifecycle_state \<Rightarrow> lifecycle_actor \<Rightarrow> bool \<times> lifecycle_actor" where
  "exchange_state now from to a =
     (if lc_state a \<noteq> from then (False, a) else (True, run_hook now from to (a\<lparr>lc_state := to\<rparr>)))"

definition transition :: "int \<Rightarrow> lifecycle_state \<Rightarrow> lifecycle_actor \<Rightarrow> bool \<times> lifecycle_actor" where
  "transition now to a =
     (let from = lc_state a
      in if \<not> legal from to then (False, a) else exchange_state now from to a)"

definition transition_to_quarantined ::
    "int \<Rightarrow> quarantine_reason \<Rightarrow> lifecycle_actor \<Rightarrow> bool \<times> lifecycle_actor" where
  "transition_to_quarantined now reason a = transition now kQuarantined (a\<lparr>lc_quarantine_reason := reason\<rparr>)"

definition transition_from_quarantined :: "int \<Rightarrow> lifecycle_actor \<Rightarrow> bool \<times> lifecycle_actor" where
  "transition_from_quarantined now a =
     (if lc_state a \<noteq> kQuarantined then (False, a) else transition now kStopped a)"

definition is_quarantined :: "lifecycle_actor \<Rightarrow> bool" where
  "is_quarantined a \<longleftrightarrow> lc_state a = kQuarantined"

lemma legal_iff [simp]:
  "legal kStarting to \<longleftrightarrow> to = kActive"
  "legal kActive to \<longleftrightarrow> to \<in> {kDraining, kStopping, kFailed, kQuarantined, kPassivating}"
  "legal kDraining to \<longleftrightarrow> to \<in> {kStopping, kFailed}"
  "legal kStopping to \<longleftrightarrow> to \<in> {kStopped, kFailed}"
  "legal kStopped to \<longleftrightarrow> to = kStarting"
  "legal kFailed to \<longleftrightarrow> to \<in> {kStarting, kStopped, kRecovering, kQuarantined}"
  "legal kRecovering to \<longleftrightarrow> to \<in> {kActive, kFailed, kQuarantined}"
  "legal kQuarantined to \<longleftrightarrow> to = kStopped"
  "legal kPassivating to \<longleftrightarrow> to \<in> {kPassivated, kFailed}"
  "legal kPassivated to \<longleftrightarrow> to \<in> {kRecovering, kStopped, kFailed}"
  by (simp_all add: legal_def kStateMachine_def Let_def)

lemma state_call_hook [simp]: "lc_state (call_hook h a) = lc_state a"
  by (simp add: call_hook_def)

lemma state_run_hook [simp]: "lc_state (run_hook now from to a) = lc_state a"
  by (simp add: run_hook_def Let_def)

lemma one_hook:
  assumes "legal from to"
  shows "\<exists>h. hooks (run_hook now from to a) = hooks a @ [h]"
  using assms by (cases "from") (auto simp: run_hook_def call_hook_def Let_def)

section \<open>Racing transitions\<close>

text \<open>
  Several threads call \<^verbatim>\<open>transition\<close> on one actor. A call is two atomic steps: it reads the
  state and checks the table, then it exchanges the state. The record keeps the calls between their
  two steps and the states the actor went through.
\<close>

record race =
  actor :: lifecycle_actor
  calls :: "nat \<Rightarrow> (lifecycle_state \<times> lifecycle_state) option"
  results :: "(nat \<times> bool) list"
  trail :: "lifecycle_state list"

datatype race_step = Load nat lifecycle_state | Exchange nat int

fun race_do :: "race_step \<Rightarrow> race \<Rightarrow> race" where
  "race_do (Load t to) r =
     (if calls r t \<noteq> None then r
      else if legal (lc_state (actor r)) to then r\<lparr>calls := (calls r)(t := Some (lc_state (actor r), to))\<rparr>
      else r\<lparr>results := results r @ [(t, False)]\<rparr>)"
| "race_do (Exchange t now) r =
     (case calls r t of
        None \<Rightarrow> r
      | Some (from, to) \<Rightarrow>
          let (ok, a) = exchange_state now from to (actor r)
          in r\<lparr>actor := a, calls := (calls r)(t := None), results := results r @ [(t, ok)],
               trail := (if ok then trail r @ [to] else trail r)\<rparr>)"

definition race_init :: "lifecycle_actor \<Rightarrow> race" where
  "race_init a = \<lparr>actor = a, calls = (\<lambda>_. None), results = [], trail = [lc_state a]\<rparr>"

definition race_run :: "race_step list \<Rightarrow> lifecycle_actor \<Rightarrow> race" where
  "race_run steps a = fold race_do steps (race_init a)"

definition path :: "lifecycle_state list \<Rightarrow> bool" where
  "path ss \<longleftrightarrow> (\<forall>i. Suc i < length ss \<longrightarrow> legal (ss ! i) (ss ! Suc i))"

definition race_inv :: "lifecycle_actor \<Rightarrow> race \<Rightarrow> bool" where
  "race_inv a r \<longleftrightarrow> trail r \<noteq> [] \<and> last (trail r) = lc_state (actor r) \<and> path (trail r) \<and>
     (\<forall>t from to. calls r t = Some (from, to) \<longrightarrow> legal from to) \<and>
     length (trail r) = Suc (length (filter snd (results r))) \<and>
     length (hooks (actor r)) = length (hooks a) + length (filter snd (results r))"

lemma path_snoc: "path ss \<Longrightarrow> ss \<noteq> [] \<Longrightarrow> legal (last ss) s \<Longrightarrow> path (ss @ [s])"
  unfolding path_def by (auto simp: nth_append last_conv_nth less_Suc_eq) (metis Suc_pred diff_Suc_1 length_greater_0_conv)

lemma race_inv_step: "race_inv a r \<Longrightarrow> race_inv a (race_do st r)"
proof (cases st)
  case (Load t to)
  assume "race_inv a r"
  with Load show ?thesis by (auto simp: race_inv_def)
next
  case (Exchange t now)
  assume inv: "race_inv a r"
  show ?thesis
  proof (cases "calls r t")
    case None
    with Exchange inv show ?thesis by simp
  next
    case (Some c)
    obtain s0 s1 where c: "calls r t = Some (s0, s1)" using Some by (cases c) auto
    then have legal: "legal s0 s1" using inv by (simp add: race_inv_def)
    show ?thesis
    proof (cases "lc_state (actor r) = s0")
      case True
      obtain h where "hooks (run_hook now s0 s1 ((actor r)\<lparr>lc_state := s1\<rparr>)) = hooks (actor r) @ [h]"
        using one_hook [OF legal, of now "(actor r)\<lparr>lc_state := s1\<rparr>"] by auto
      with True c Exchange inv legal show ?thesis
        by (auto simp: race_inv_def exchange_state_def path_snoc)
    next
      case False
      with c Exchange inv show ?thesis by (auto simp: race_inv_def exchange_state_def)
    qed
  qed
qed

text \<open>
  C25. However the transitions of several threads race, the states an actor goes through form a path
  in the state table, every call that reports success made exactly one step of it, and exactly one
  hook ran for each of them.
\<close>

theorem lifecycle_races_follow_table:
  "path (trail (race_run steps a)) \<and>
   last (trail (race_run steps a)) = lc_state (actor (race_run steps a)) \<and>
   length (trail (race_run steps a)) = Suc (length (filter snd (results (race_run steps a)))) \<and>
   length (hooks (actor (race_run steps a))) = length (hooks a) + length (filter snd (results (race_run steps a)))"
proof -
  have "race_inv a (race_init a)" by (simp add: race_inv_def race_init_def path_def)
  moreover have "race_inv a r \<Longrightarrow> race_inv a (fold race_do steps r)" for r
    by (induction steps arbitrary: r) (simp_all add: race_inv_step)
  ultimately show ?thesis by (simp add: race_run_def race_inv_def)
qed

lemma user_messages_only_active: "accepts_user_msgs a \<longleftrightarrow> lc_state a = kActive"
  by (cases "lc_state a") (simp_all add: accepts_user_msgs_def state_def_of_def kStateMachine_def)

end
