(* ===== verification/Supervision.thy ===== *)
theory Supervision
  imports Lifecycle "HOL-Library.AList"
begin

text \<open>
  Supervisors: \<^verbatim>\<open>SupervisorActor\<close> with its two strategies and \<^verbatim>\<open>SelfSupervisingActor\<close>
  of \<^verbatim>\<open>supervision.hpp\<close> and \<^verbatim>\<open>supervision.cpp\<close>. A time point and a duration are 64-bit
  counts of nanoseconds compared as signed numbers; the subtraction of two time points wraps as
  two's complement does. A down message is given in its parsed form. The actors of the system are a
  map from identifiers; an actor without a lifecycle is the inner \<^const>\<open>None\<close>.
\<close>

unbundle bit_operations_syntax

section \<open>Policies and strategies\<close>

datatype supervision_directive = Restart | StopChild | Escalate | Quarantine

record child_failure =
  cf_child_id :: u64
  cf_reason :: u32
  cf_directive :: supervision_directive

record quarantine_policy =
  q_enabled :: bool
  escalate_on_max_restarts :: bool

record supervision_policy =
  max_restarts :: u32
  restart_interval :: int
  quarantine :: quarantine_policy
  exception_map :: "u32 \<Rightarrow> supervision_directive option"

definition default_policy :: supervision_policy where
  "default_policy = \<lparr>max_restarts = 10, restart_interval = 5000000000,
     quarantine = \<lparr>q_enabled = False, escalate_on_max_restarts = True\<rparr>, exception_map = (\<lambda>_. None)\<rparr>"

datatype strategy = OneForOneSupervisor supervision_policy | AllForOneSupervisor supervision_policy

fun on_child_failure :: "strategy \<Rightarrow> child_failure \<Rightarrow> supervision_directive" where
  "on_child_failure (OneForOneSupervisor _) failure = cf_directive failure"
| "on_child_failure (AllForOneSupervisor _) failure = Restart"

definition time_min :: u64 where
  "time_min = 0x8000000000000000"

definition elapsed_more_than :: "int \<Rightarrow> u64 \<Rightarrow> u64 \<Rightarrow> bool" where
  "elapsed_more_than interval_ns now first \<longleftrightarrow> sint (now - first) > interval_ns"

section \<open>The supervisor actor\<close>

type_synonym actor_table = "u64 \<Rightarrow> lifecycle_actor option option"

record supervisor =
  sup_strategy :: strategy
  sup_children :: "u64 list"
  sup_counts :: "(u64 \<times> u32) list"
  sup_first_failure :: u64
  sup_actors :: actor_table
  sup_restarted :: "u64 list"
  sup_has_metrics :: bool
  sup_metrics :: "u32 list"

definition supervisor_init :: "strategy \<Rightarrow> u64 list \<Rightarrow> actor_table \<Rightarrow> bool \<Rightarrow> supervisor" where
  "supervisor_init st children actors metrics =
     \<lparr>sup_strategy = st, sup_children = children, sup_counts = [], sup_first_failure = time_min,
      sup_actors = actors, sup_restarted = [], sup_has_metrics = metrics, sup_metrics = []\<rparr>"

definition erase_child :: "u64 \<Rightarrow> supervisor \<Rightarrow> supervisor" where
  "erase_child child s = s\<lparr>sup_children := filter (\<lambda>c. c \<noteq> child) (sup_children s)\<rparr>"

text \<open>What a restart does to the child: the transitions are attempted, their results ignored.\<close>

definition restart_lifecycle :: "int \<Rightarrow> u32 \<Rightarrow> lifecycle_actor \<Rightarrow> lifecycle_actor" where
  "restart_lifecycle now reason lc =
     (let lc = set_failure_reason reason lc;
          lc = snd (transition now kFailed lc);
          lc = bump_incarnation lc
      in snd (transition now kStarting lc))"

definition restart_child :: "u64 \<Rightarrow> u64 \<Rightarrow> u32 \<Rightarrow> supervisor \<Rightarrow> supervisor" where
  "restart_child now child reason s =
     (let count = (case map_of (sup_counts s) child of None \<Rightarrow> 0 | Some n \<Rightarrow> n);
          reset = elapsed_more_than 5000000000 now (sup_first_failure s);
          count = (if reset then 0 else count);
          s = (if reset then s\<lparr>sup_first_failure := now\<rparr> else s)
      in if count \<ge> 10 then (erase_child child s)\<lparr>sup_counts := AList.delete child (sup_counts s)\<rparr>
         else
           let s = s\<lparr>sup_counts := AList.update child (count + 1) (sup_counts s)\<rparr>;
               s = (case sup_actors s child of
                      Some (Some lc) \<Rightarrow> s\<lparr>sup_actors := (sup_actors s)(child := Some (Some (restart_lifecycle (sint now) reason lc))),
                        sup_restarted := sup_restarted s @ [child]\<rparr>
                    | _ \<Rightarrow> s)
           in if sup_has_metrics s then s\<lparr>sup_metrics := sup_metrics s @ [ucast child]\<rparr> else s)"

definition restart_all_children :: "(nat \<Rightarrow> u64) \<Rightarrow> supervisor \<Rightarrow> supervisor" where
  "restart_all_children clock s =
     snd (fold (\<lambda>child (i, s). (Suc i, restart_child (clock i) child 0 s)) (sup_children s) (0, s))"

definition handle_child_down :: "u64 \<Rightarrow> (u64 \<times> u32) option \<Rightarrow> supervisor \<Rightarrow> supervisor" where
  "handle_child_down now payload s =
     (case payload of
        None \<Rightarrow> s
      | Some (child, reason) \<Rightarrow>
          case on_child_failure (sup_strategy s) \<lparr>cf_child_id = child, cf_reason = reason, cf_directive = Restart\<rparr> of
            Restart \<Rightarrow> restart_child now child reason s
          | StopChild \<Rightarrow> erase_child child s
          | Escalate \<Rightarrow> s
          | Quarantine \<Rightarrow> erase_child child s)"

definition behavior :: "u64 \<Rightarrow> bool \<Rightarrow> (u64 \<times> u32) option \<Rightarrow> supervisor \<Rightarrow> supervisor" where
  "behavior now down_msg payload s = (if down_msg then handle_child_down now payload s else s)"

section \<open>Self-supervising actors\<close>

record 'r self_supervisor =
  ss_policy :: supervision_policy
  ss_children :: "(u64 \<times> 'r) list"
  ss_counts :: "(u64 \<times> u32) list"
  ss_first_failure :: u64
  ss_remote :: "'r list"
  ss_remote_addresses :: "'r list"

definition self_supervisor_init :: "supervision_policy \<Rightarrow> 'r self_supervisor" where
  "self_supervisor_init p = \<lparr>ss_policy = p, ss_children = [], ss_counts = [], ss_first_failure = time_min,
     ss_remote = [], ss_remote_addresses = []\<rparr>"

definition add_child :: "u64 \<times> 'r \<Rightarrow> 'r self_supervisor \<Rightarrow> 'r self_supervisor" where
  "add_child child s = s\<lparr>ss_children := ss_children s @ [child]\<rparr>"

definition remove_child :: "u64 \<times> 'r \<Rightarrow> 'r self_supervisor \<Rightarrow> 'r self_supervisor" where
  "remove_child child s = s\<lparr>ss_children := filter (\<lambda>a. snd a \<noteq> snd child) (ss_children s)\<rparr>"

definition add_remote_child :: "'r \<Rightarrow> 'r self_supervisor \<Rightarrow> 'r self_supervisor" where
  "add_remote_child child s = s\<lparr>ss_remote := ss_remote s @ [child],
     ss_remote_addresses := ss_remote_addresses s @ [child]\<rparr>"

definition has_remote_child :: "'r \<Rightarrow> 'r self_supervisor \<Rightarrow> bool" where
  "has_remote_child addr s \<longleftrightarrow> addr \<in> set (ss_remote_addresses s)"

fun first_index :: "'r \<Rightarrow> 'r list \<Rightarrow> nat option" where
  "first_index a [] = None"
| "first_index a (x # xs) = (if x = a then Some 0 else map_option Suc (first_index a xs))"

definition get_remote_child :: "'r \<Rightarrow> 'r self_supervisor \<Rightarrow> 'r option" where
  "get_remote_child addr s = map_option (\<lambda>i. ss_remote s ! i) (first_index addr (ss_remote_addresses s))"

definition remove_nth :: "nat \<Rightarrow> 'a list \<Rightarrow> 'a list" where
  "remove_nth i xs = take i xs @ drop (Suc i) xs"

definition remove_remote_child :: "'r \<Rightarrow> 'r self_supervisor \<Rightarrow> 'r self_supervisor" where
  "remove_remote_child addr s =
     (case first_index addr (ss_remote_addresses s) of
        None \<Rightarrow> s
      | Some i \<Rightarrow> s\<lparr>ss_remote := remove_nth i (ss_remote s),
          ss_remote_addresses := remove_nth i (ss_remote_addresses s)\<rparr>)"

definition on_failure :: "u32 \<Rightarrow> 'r self_supervisor \<Rightarrow> supervision_directive" where
  "on_failure err s = (case exception_map (ss_policy s) err of Some d \<Rightarrow> d | None \<Rightarrow> Restart)"

definition decide_restart :: "u64 \<Rightarrow> u64 \<Rightarrow> 'r self_supervisor \<Rightarrow> supervision_directive \<times> 'r self_supervisor" where
  "decide_restart now child s =
     (let count = (case map_of (ss_counts s) child of None \<Rightarrow> 0 | Some n \<Rightarrow> n);
          reset = elapsed_more_than (restart_interval (ss_policy s)) now (ss_first_failure s);
          count = (if reset then 0 else count);
          s = s\<lparr>ss_counts := AList.update child count (ss_counts s)\<rparr>;
          s = (if reset then s\<lparr>ss_first_failure := now\<rparr> else s)
      in if count \<ge> max_restarts (ss_policy s) then
           (if q_enabled (quarantine (ss_policy s)) \<and> escalate_on_max_restarts (quarantine (ss_policy s))
            then (Quarantine, s) else (StopChild, s))
         else (Restart, s\<lparr>ss_counts := AList.update child (count + 1) (ss_counts s)\<rparr>))"

text \<open>The handler of a self-supervising actor; the directive of \<^verbatim>\<open>on_failure\<close> is discarded.\<close>

definition self_child_down :: "u64 \<Rightarrow> (u64 \<times> u32) option \<Rightarrow> 'r self_supervisor \<Rightarrow> 'r self_supervisor" where
  "self_child_down now payload s =
     (case payload of
        None \<Rightarrow> s
      | Some (child, reason) \<Rightarrow>
          let (directive, s) = decide_restart now child s
          in if directive = StopChild then
               (case find (\<lambda>a. fst a = child) (ss_children s) of
                  Some c \<Rightarrow> remove_child c s
                | None \<Rightarrow> s)
             else s)"

section \<open>The restart window\<close>

lemma bit_time_min: "bit time_min n \<longleftrightarrow> n = 63"
proof -
  have *: "time_min = push_bit 63 1" by (simp add: time_min_def push_bit_eq_mult)
  show ?thesis unfolding * bit_push_bit_iff by (auto simp: bit_1_iff)
qed

lemma elapsed_since_min_negative:
  assumes "0 \<le> sint now"
  shows "sint (now - time_min) < 0"
proof -
  have now63: "\<not> bit now 63" using assms bit_last_iff [of now] by simp
  have "time_min + time_min = 0" by (simp add: time_min_def)
  then have "now - time_min = now + time_min" by (metis add_diff_cancel_right' diff_0_right diff_diff_eq2 add.commute)
  also have "\<dots> = now OR time_min"
    by (rule disjunctive_add) (use now63 in \<open>auto simp: bit_time_min\<close>)
  finally have "bit (now - time_min) 63" by (simp add: bit_or_iff bit_time_min)
  then show ?thesis using bit_last_iff [of "now - time_min"] by simp
qed


definition failures :: "u64 \<Rightarrow> (u64 \<times> u32) list \<Rightarrow> supervisor \<Rightarrow> supervisor" where
  "failures child fs s = fold (\<lambda>(now, reason). behavior now True (Some (child, reason))) fs s"

lemma behavior_restarts [simp]: "behavior now True (Some (child, reason)) s = restart_child now child reason s"
  by (cases "sup_strategy s") (simp_all add: behavior_def handle_child_down_def)

lemma restart_child_closed_window:
  fixes reason :: u32
  assumes "sup_first_failure s = time_min" "0 \<le> sint now" "sup_actors s child = Some (Some lc)"
    and count: "count = (case map_of (sup_counts s) child of None \<Rightarrow> 0 | Some n \<Rightarrow> n)"
  defines "s' \<equiv> restart_child now child reason s"
  shows "sup_first_failure s' = time_min"
    and "map_of (sup_counts s') child = (if count \<ge> 10 then None else Some (count + 1))"
    and "sup_children s' = (if count \<ge> 10 then filter (\<lambda>c. c \<noteq> child) (sup_children s) else sup_children s)"
    and "sup_restarted s' = (if count \<ge> 10 then sup_restarted s else sup_restarted s @ [child])"
    and "\<exists>lc'. sup_actors s' child = Some (Some lc')"
proof -
  have "\<not> elapsed_more_than 5000000000 now time_min"
    using elapsed_since_min_negative [OF assms(2)] by (simp add: elapsed_more_than_def)
  then show "sup_first_failure s' = time_min"
    and "map_of (sup_counts s') child = (if count \<ge> 10 then None else Some (count + 1))"
    and "sup_children s' = (if count \<ge> 10 then filter (\<lambda>c. c \<noteq> child) (sup_children s) else sup_children s)"
    and "sup_restarted s' = (if count \<ge> 10 then sup_restarted s else sup_restarted s @ [child])"
    and "\<exists>lc'. sup_actors s' child = Some (Some lc')"
    using assms(1,3) count
    by (simp_all add: s'_def restart_child_def Let_def erase_child_def update_conv' delete_conv')
qed

definition budget :: "nat \<Rightarrow> u32 option" where
  "budget n = (if n mod 11 = 0 then None else Some (of_nat (n mod 11)))"

lemma budget_step:
  assumes "count = (case budget n of None \<Rightarrow> 0 | Some k \<Rightarrow> k)"
  shows "count \<ge> 10 \<longleftrightarrow> Suc n mod 11 = 0" and "\<not> count \<ge> 10 \<Longrightarrow> budget (Suc n) = Some (count + 1)"
proof -
  have c: "count = of_nat (n mod 11)" using assms by (simp add: budget_def)
  have "n mod 11 < 11" by simp
  then have "unat count = n mod 11" unfolding c by (intro unat_of_nat_less) simp
  then have *: "count \<ge> 10 \<longleftrightarrow> n mod 11 = 10" using \<open>n mod 11 < 11\<close> by (auto simp: word_le_nat_alt)
  then show "count \<ge> 10 \<longleftrightarrow> Suc n mod 11 = 0" by (auto simp: mod_Suc)
  show "budget (Suc n) = Some (count + 1)" if "\<not> count \<ge> 10"
    using that * by (auto simp: budget_def c mod_Suc)
qed

text \<open>
  C26. The restart budget of a child is a lifetime budget. The interval of five seconds is never
  applied, because the time of the first failure stays at the minimum of the clock, from which the
  elapsed time is negative. However far apart the failures of a child are, ten of them restart it,
  the eleventh drops it from the children and forgets the count, and the next ten down messages
  restart the dropped actor again.
\<close>

theorem restart_budget_is_lifetime:
  assumes "actors child = Some (Some lc)" "\<forall>(now, reason) \<in> set fs. 0 \<le> sint now"
  shows "let s = failures child fs (supervisor_init st children actors metrics) in
    map_of (sup_counts s) child = budget (length fs) \<and>
    sup_restarted s = replicate (length fs - length fs div 11) child \<and>
    sup_children s = (if length fs < 11 then children else filter (\<lambda>c. c \<noteq> child) children)"
proof -
  define run where "run fs = failures child fs (supervisor_init st children actors metrics)" for fs
  have "sup_first_failure (run fs) = time_min \<and> (\<exists>lc. sup_actors (run fs) child = Some (Some lc)) \<and>
    map_of (sup_counts (run fs)) child = budget (length fs) \<and>
    sup_restarted (run fs) = replicate (length fs - length fs div 11) child \<and>
    sup_children (run fs) = (if length fs < 11 then children else filter (\<lambda>c. c \<noteq> child) children)"
    using assms(2)
  proof (induction fs rule: rev_induct)
    case Nil
    then show ?case using assms(1) by (simp add: run_def failures_def supervisor_init_def budget_def)
  next
    case (snoc f fs)
    obtain now reason where f: "f = (now, reason)" by (cases f)
    have step: "run (fs @ [f]) = restart_child now child reason (run fs)"
      by (simp add: run_def failures_def f)
    from snoc obtain lc where IH: "sup_first_failure (run fs) = time_min" "sup_actors (run fs) child = Some (Some lc)"
      "map_of (sup_counts (run fs)) child = budget (length fs)"
      "sup_restarted (run fs) = replicate (length fs - length fs div 11) child"
      "sup_children (run fs) = (if length fs < 11 then children else filter (\<lambda>c. c \<noteq> child) children)" by auto
    define count where "count = (case budget (length fs) of None \<Rightarrow> 0 | Some k \<Rightarrow> k)"
    have now: "0 \<le> sint now" using snoc.prems f by simp
    note r = restart_child_closed_window [OF IH(1) now IH(2), of count reason, unfolded IH(3), OF count_def]
    note b = budget_step [OF count_def]
    show ?case
    proof (cases "Suc (length fs) mod 11 = 0")
      case True
      then have "\<not> Suc (length fs) < 11" by (metis mod_less Suc_neq_Zero)
      with True r b IH show ?thesis by (auto simp: step budget_def div_Suc)
    next
      case False
      then have "length fs - length fs div 11 < Suc (length fs) - Suc (length fs) div 11" by (simp add: div_Suc Suc_diff_le)
      moreover have "length fs \<noteq> 10" using False by auto
      ultimately show ?thesis using False r b IH
        by (auto simp: step div_Suc Suc_diff_le replicate_append_same [symmetric] less_Suc_eq)
    qed
  qed
  then show ?thesis unfolding Let_def run_def by blast
qed


theorem restart_budget_is_lifetime_witness:
  "let s = failures 7 (map (\<lambda>i. (of_nat i * 3600000000000, 1)) [0..<12])
       (supervisor_init (OneForOneSupervisor default_policy) [7, 8] [7 \<mapsto> Some (lifecycle_init\<lparr>lc_state := kActive\<rparr>)] False)
   in map_of (sup_counts s) 7 = Some 1 \<and> sup_restarted s = replicate 11 7 \<and> sup_children s = [8]"
proof -
  let ?fs = "map (\<lambda>i. (of_nat i * 3600000000000 :: u64, 1 :: u32)) [0..<12]"
  have "\<forall>(now, reason) \<in> set ?fs. 0 \<le> sint now" by code_simp
  from restart_budget_is_lifetime [OF _ this, of "[7 \<mapsto> Some (lifecycle_init\<lparr>lc_state := kActive\<rparr>)]" 7
      "lifecycle_init\<lparr>lc_state := kActive\<rparr>" "OneForOneSupervisor default_policy" "[7, 8]" False]
  show ?thesis by (simp add: Let_def budget_def)
qed

section \<open>What a restart does\<close>

text \<open>
  A restart moves the child to the starting state from every state but quarantine, raises its
  incarnation by one, and runs the failure hook with the reason before the restart hook; a child
  that has failed or stopped already only gets the restart hook, and a child that is still starting
  or is quarantined gets none.
\<close>

theorem restart_outcome:
  "let lc' = restart_lifecycle now reason lc in
     lc_state lc' = (if lc_state lc = kQuarantined then kQuarantined else kStarting) \<and>
     lc_incarnation lc' = lc_incarnation lc + 1 \<and>
     hooks lc' = hooks lc @
       (if lc_state lc \<in> {kStarting, kQuarantined} then []
        else if lc_state lc \<in> {kFailed, kStopped} then [OnRestart]
        else [OnFail reason, OnRestart])"
  by (cases "lc_state lc")
    (simp_all add: restart_lifecycle_def Let_def transition_def exchange_state_def run_hook_def call_hook_def
      set_failure_reason_def bump_incarnation_def)

section \<open>Self-supervision\<close>

lemma decide_restart_budget:
  assumes "ss_first_failure s = time_min" "0 \<le> sint now" "0 \<le> restart_interval (ss_policy s)"
  shows "fst (decide_restart now child s) = Restart \<longleftrightarrow>
      (case map_of (ss_counts s) child of None \<Rightarrow> 0 | Some n \<Rightarrow> n) < max_restarts (ss_policy s)"
    and "ss_first_failure (snd (decide_restart now child s)) = time_min"
  using elapsed_since_min_negative [OF assms(2)] assms
  by (auto simp: decide_restart_def Let_def elapsed_more_than_def)

lemma quarantine_directive_ignored:
  assumes "q_enabled (quarantine (ss_policy s))" "escalate_on_max_restarts (quarantine (ss_policy s))"
  shows "ss_children (self_child_down now payload s) = ss_children s"
  using assms by (auto simp: self_child_down_def decide_restart_def Let_def split: option.splits)

lemma first_index_Some: "first_index a xs = Some i \<Longrightarrow> i < length xs \<and> xs ! i = a"
  by (induction xs arbitrary: i) (auto split: if_splits)

lemma first_index_None: "first_index a xs = None \<longleftrightarrow> a \<notin> set xs"
  by (induction xs) auto

lemma remote_child_lookup:
  assumes "ss_remote s = ss_remote_addresses s"
  shows "get_remote_child addr s = (if has_remote_child addr s then Some addr else None)"
  using assms first_index_Some [of addr "ss_remote_addresses s"] first_index_None [of addr "ss_remote_addresses s"]
  by (cases "first_index addr (ss_remote_addresses s)") (auto simp: get_remote_child_def has_remote_child_def)

end
