(* ===== verification/Shutdown.thy ===== *)
theory Shutdown
  imports Lifecycle
begin

text \<open>
  The coordinated shutdown of \<^verbatim>\<open>shutdown_coordinator.cpp\<close>. The clock is the sequence of its
  readings; between two readings the other threads run, so the table of actors goes through an
  arbitrary function \<open>env\<close> at every reading. Calls into actors and into the injected
  dependencies are recorded; what a call does to an actor later is part of \<open>env\<close>. A transition
  to draining, stopping or stopped reads no clock, so its time argument is 0.
\<close>

section \<open>State\<close>

datatype shutdown_phase =
    Running | DrainingIngress | DrainingActors | LeavingCluster | FlushingTelemetry | Stopped | ForcedStop

record shutdown_options =
  ingress_timeout :: int
  actor_drain_timeout :: int
  cluster_leave_timeout :: int
  force_after_timeout :: bool

record user_phase =
  up_name :: string
  up_after_phase :: shutdown_phase
  up_after_user_name :: string
  up_timeout :: int
  up_has_callback :: bool

record managed =
  event_based :: bool
  lifecycle :: "lifecycle_actor option"

type_synonym actors = "u64 \<Rightarrow> managed option"

record dependencies =
  has_phase :: bool
  has_running :: bool
  has_set_ready :: bool
  actor_snapshot :: "(u64 \<times> bool) list"
  has_get_actor :: bool
  has_mailbox :: "u64 \<Rightarrow> bool"
  has_stop_remote :: bool
  has_leave_discovery :: bool
  has_flush :: bool

datatype shutdown_event =
    SetReady bool | UserPhase string | LeaveDiscovery | StopRemoteRuntime | FlushTelemetry
  | OnExit u64 | DrainAllImmediate u64 | PopAll u64 | StartDrainTimer u64

record coordinator =
  deps :: dependencies
  user_phases :: "user_phase list"
  sd_phase :: shutdown_phase
  running :: bool
  sd_actors :: actors
  readings :: nat
  events :: "shutdown_event list"

definition set_phase :: "shutdown_phase \<Rightarrow> coordinator \<Rightarrow> coordinator" where
  "set_phase p s = (if has_phase (deps s) then s\<lparr>sd_phase := p\<rparr> else s)"

definition phase :: "coordinator \<Rightarrow> shutdown_phase" where
  "phase s = (if has_phase (deps s) then sd_phase s else Running)"

definition accepting_ingress :: "coordinator \<Rightarrow> bool" where
  "accepting_ingress s \<longleftrightarrow> phase s = Running"

definition record_event :: "shutdown_event \<Rightarrow> coordinator \<Rightarrow> coordinator" where
  "record_event e s = s\<lparr>events := events s @ [e]\<rparr>"

definition read_clock :: "(nat \<Rightarrow> int) \<Rightarrow> (nat \<Rightarrow> actors \<Rightarrow> actors) \<Rightarrow> coordinator \<Rightarrow> int \<times> coordinator" where
  "read_clock clock env s =
     (clock (readings s), s\<lparr>readings := Suc (readings s), sd_actors := env (readings s) (sd_actors s)\<rparr>)"

section \<open>Draining one actor\<close>

definition lc_transition :: "u64 \<Rightarrow> lifecycle_state \<Rightarrow> coordinator \<Rightarrow> coordinator" where
  "lc_transition aid to s =
     (case sd_actors s aid of
        Some m \<Rightarrow> s\<lparr>sd_actors := (sd_actors s)(aid \<mapsto> m\<lparr>lifecycle := map_option (\<lambda>lc. snd (transition 0 to lc)) (lifecycle m)\<rparr>)\<rparr>
      | None \<Rightarrow> s)"

definition initiate_actor_drain :: "u64 \<Rightarrow> coordinator \<Rightarrow> coordinator" where
  "initiate_actor_drain aid s =
     (if \<not> has_get_actor (deps s) then s
      else case sd_actors s aid of
        None \<Rightarrow> s
      | Some m \<Rightarrow>
          (case lifecycle m of
             None \<Rightarrow> if event_based m then record_event (OnExit aid) s else s
           | Some lc \<Rightarrow>
               if lc_state lc = kStopping \<or> lc_state lc = kStopped then s
               else if lc_drain_policy lc = ImmediateStop then
                 let s = (if event_based m then record_event (DrainAllImmediate aid) s
                          else if has_mailbox (deps s) aid then record_event (PopAll aid) s else s);
                     s = lc_transition aid kStopped (lc_transition aid kStopping s)
                 in if event_based m then record_event (OnExit aid) s else s
               else
                 let s = (if lc_state lc = kActive then lc_transition aid kDraining s else s)
                 in if event_based m then record_event (StartDrainTimer aid) s
                    else lc_transition aid kStopped (lc_transition aid kStopping s)))"

partial_function (option) poll_drain_complete ::
    "(nat \<Rightarrow> int) \<Rightarrow> (nat \<Rightarrow> actors \<Rightarrow> actors) \<Rightarrow> u64 \<Rightarrow> int \<Rightarrow> coordinator \<Rightarrow> coordinator option" where
  "poll_drain_complete clock env aid deadline s =
     (let (now, s) = read_clock clock env s
      in if \<not> now < deadline then Some s
         else if \<not> has_get_actor (deps s) then Some s
         else case sd_actors s aid of
           None \<Rightarrow> Some s
         | Some m \<Rightarrow>
             (case lifecycle m of
                None \<Rightarrow> Some s
              | Some lc \<Rightarrow>
                  if lc_state lc = kStopped then Some s else poll_drain_complete clock env aid deadline s))"

declare poll_drain_complete.simps [code]

section \<open>The phases\<close>

definition check_force ::
    "(nat \<Rightarrow> int) \<Rightarrow> (nat \<Rightarrow> actors \<Rightarrow> actors) \<Rightarrow> shutdown_options \<Rightarrow> int \<Rightarrow> coordinator \<Rightarrow> bool \<times> coordinator" where
  "check_force clock env opts deadline s =
     (if \<not> force_after_timeout opts then (False, s)
      else
        let (now, s) = read_clock clock env s
        in if now < deadline then (False, s)
           else
             let s = set_phase ForcedStop s
             in (True, if has_running (deps s) then s\<lparr>running := False\<rparr> else s))"

definition run_user_phases :: "shutdown_phase \<Rightarrow> coordinator \<Rightarrow> coordinator" where
  "run_user_phases after s =
     fold (\<lambda>up s. if up_after_phase up = after \<and> up_after_user_name up = [] \<and> up_has_callback up
                  then record_event (UserPhase (up_name up)) s else s) (user_phases s) s"

fun drain_each ::
    "(nat \<Rightarrow> int) \<Rightarrow> (nat \<Rightarrow> actors \<Rightarrow> actors) \<Rightarrow> shutdown_options \<Rightarrow> int \<Rightarrow> u64 list \<Rightarrow> coordinator \<Rightarrow> bool \<times> coordinator" where
  "drain_each clock env opts deadline [] s = (False, s)"
| "drain_each clock env opts deadline (aid # ids) s =
     (let (f, s) = check_force clock env opts deadline (initiate_actor_drain aid s)
      in if f then (True, s) else drain_each clock env opts deadline ids s)"

fun poll_each ::
    "(nat \<Rightarrow> int) \<Rightarrow> (nat \<Rightarrow> actors \<Rightarrow> actors) \<Rightarrow> shutdown_options \<Rightarrow> int \<Rightarrow> u64 list \<Rightarrow> coordinator \<Rightarrow>
     (bool \<times> coordinator) option" where
  "poll_each clock env opts deadline [] s = Some (False, s)"
| "poll_each clock env opts deadline (aid # ids) s =
     Option.bind (poll_drain_complete clock env aid deadline s) (\<lambda>s.
       let (f, s) = check_force clock env opts deadline s
       in if f then Some (True, s) else poll_each clock env opts deadline ids s)"

text \<open>A forced stop found before the polling of a group does not return, it only skips the polling.\<close>

definition poll_group ::
    "(nat \<Rightarrow> int) \<Rightarrow> (nat \<Rightarrow> actors \<Rightarrow> actors) \<Rightarrow> shutdown_options \<Rightarrow> int \<Rightarrow> u64 list \<Rightarrow> coordinator \<Rightarrow>
     (bool \<times> coordinator) option" where
  "poll_group clock env opts deadline ids s =
     (let (f, s) = check_force clock env opts deadline s
      in if f then Some (False, s) else poll_each clock env opts deadline ids s)"

definition drain_systems ::
    "(nat \<Rightarrow> int) \<Rightarrow> (nat \<Rightarrow> actors \<Rightarrow> actors) \<Rightarrow> shutdown_options \<Rightarrow> int \<Rightarrow> u64 list \<Rightarrow> coordinator \<Rightarrow>
     bool \<times> coordinator" where
  "drain_systems clock env opts deadline ids s =
     (let (f, s) = check_force clock env opts deadline s
      in if f then (False, s) else drain_each clock env opts deadline ids s)"

definition drain_actors ::
    "(nat \<Rightarrow> int) \<Rightarrow> (nat \<Rightarrow> actors \<Rightarrow> actors) \<Rightarrow> shutdown_options \<Rightarrow> int \<Rightarrow> u64 list \<Rightarrow> u64 list \<Rightarrow> coordinator \<Rightarrow>
     (bool \<times> coordinator) option" where
  "drain_actors clock env opts deadline users systems s =
     (let (f, s) = drain_each clock env opts deadline users s
      in if f then Some (True, s)
         else Option.bind (poll_group clock env opts deadline users s) (\<lambda>(f, s).
           if f then Some (True, s)
           else
             let (f, s) = drain_systems clock env opts deadline systems s
             in if f then Some (True, s)
                else Option.bind (poll_group clock env opts deadline systems s) (\<lambda>(f, s).
                  if f then Some (True, s) else Some (check_force clock env opts deadline s))))"

definition enter_ingress :: "(nat \<Rightarrow> int) \<Rightarrow> (nat \<Rightarrow> actors \<Rightarrow> actors) \<Rightarrow> coordinator \<Rightarrow> int \<times> coordinator" where
  "enter_ingress clock env s =
     (let s = set_phase DrainingIngress s
      in read_clock clock env (if has_set_ready (deps s) then record_event (SetReady False) s else s))"

definition enter_actors :: "(nat \<Rightarrow> int) \<Rightarrow> (nat \<Rightarrow> actors \<Rightarrow> actors) \<Rightarrow> coordinator \<Rightarrow> int \<times> coordinator" where
  "enter_actors clock env s =
     read_clock clock env (set_phase DrainingActors (run_user_phases DrainingIngress s))"

definition enter_leave :: "(nat \<Rightarrow> int) \<Rightarrow> (nat \<Rightarrow> actors \<Rightarrow> actors) \<Rightarrow> coordinator \<Rightarrow> int \<times> coordinator" where
  "enter_leave clock env s =
     (let (now, s) = read_clock clock env (set_phase LeavingCluster s);
          s = (if has_leave_discovery (deps s) then record_event LeaveDiscovery s else s)
      in (now, if has_stop_remote (deps s) then record_event StopRemoteRuntime s else s))"

definition flush_and_stop :: "coordinator \<Rightarrow> coordinator" where
  "flush_and_stop s =
     (let s = set_phase FlushingTelemetry s;
          s = (if has_flush (deps s) then record_event FlushTelemetry s else s);
          s = run_user_phases FlushingTelemetry s;
          s = set_phase Stopped s
      in if has_running (deps s) then s\<lparr>running := False\<rparr> else s)"

definition leave_and_flush ::
    "(nat \<Rightarrow> int) \<Rightarrow> (nat \<Rightarrow> actors \<Rightarrow> actors) \<Rightarrow> shutdown_options \<Rightarrow> coordinator \<Rightarrow> coordinator" where
  "leave_and_flush clock env opts s =
     (let (now, s) = enter_leave clock env s;
          (f, s) = check_force clock env opts (now + cluster_leave_timeout opts) s
      in if f then s else flush_and_stop (run_user_phases LeavingCluster s))"

definition user_ids :: "dependencies \<Rightarrow> u64 list" where
  "user_ids d = [aid. (aid, is_sys) \<leftarrow> actor_snapshot d, \<not> is_sys]"

definition system_ids :: "dependencies \<Rightarrow> u64 list" where
  "system_ids d = [aid. (aid, is_sys) \<leftarrow> actor_snapshot d, is_sys]"

definition execute ::
    "(nat \<Rightarrow> int) \<Rightarrow> (nat \<Rightarrow> actors \<Rightarrow> actors) \<Rightarrow> shutdown_options \<Rightarrow> coordinator \<Rightarrow> coordinator option" where
  "execute clock env opts s =
     (let (now, s) = enter_ingress clock env s;
          (f, s) = check_force clock env opts (now + ingress_timeout opts) s
      in if f then Some s
         else
           let (now, s) = enter_actors clock env s
           in map_option (\<lambda>(f, s).
                if f then s else leave_and_flush clock env opts (run_user_phases DrainingActors s))
              (drain_actors clock env opts (now + actor_drain_timeout opts) (user_ids (deps s)) (system_ids (deps s)) s))"

section \<open>Registering user phases\<close>

definition add_user_phase :: "string \<Rightarrow> shutdown_phase \<Rightarrow> int \<Rightarrow> bool \<Rightarrow> coordinator \<Rightarrow> bool \<times> coordinator" where
  "add_user_phase name after timeout cb s =
     (if \<exists>p \<in> set (user_phases s). up_name p = name then (False, s)
      else (True, s\<lparr>user_phases := user_phases s @
        [\<lparr>up_name = name, up_after_phase = after, up_after_user_name = [], up_timeout = timeout, up_has_callback = cb\<rparr>]\<rparr>))"

definition add_user_phase_after :: "string \<Rightarrow> string \<Rightarrow> int \<Rightarrow> bool \<Rightarrow> coordinator \<Rightarrow> bool \<times> coordinator" where
  "add_user_phase_after name after_name timeout cb s =
     (if \<exists>p \<in> set (user_phases s). up_name p = name then (False, s)
      else (True, s\<lparr>user_phases := user_phases s @
        [\<lparr>up_name = name, up_after_phase = Running, up_after_user_name = after_name, up_timeout = timeout,
          up_has_callback = cb\<rparr>]\<rparr>))"

definition user_phase_names :: "coordinator \<Rightarrow> string list" where
  "user_phase_names s = map up_name (user_phases s)"

section \<open>What the steps leave alone\<close>

text \<open>
  A relation that holds across the elementary updates of the coordinator holds across draining and
  polling, whatever the clock and the other threads do.
\<close>

definition user_event :: "shutdown_event \<Rightarrow> bool" where
  "user_event e \<longleftrightarrow> (case e of UserPhase _ \<Rightarrow> True | _ \<Rightarrow> False)"

lemmas poll_induct = poll_drain_complete.raw_induct [rotated 1, consumes 1, case_names step]

locale coordinator_frame =
  fixes R :: "coordinator \<Rightarrow> coordinator \<Rightarrow> bool"
  assumes refl: "R s s"
    and trans: "R s t \<Longrightarrow> R t u \<Longrightarrow> R s u"
    and phase_update: "R s (s\<lparr>sd_phase := p\<rparr>)"
    and running_update: "R s (s\<lparr>running := b\<rparr>)"
    and actors_update: "R s (s\<lparr>sd_actors := a\<rparr>)"
    and readings_update: "R s (s\<lparr>readings := Suc (readings s)\<rparr>)"
    and event: "\<not> user_event e \<Longrightarrow> R s (record_event e s)"
begin

lemma frame_set_phase: "R s (set_phase p s)"
  by (simp add: set_phase_def refl phase_update)

lemma frame_read: "R s (snd (read_clock clock env s))"
  using trans [OF readings_update actors_update] by (simp add: read_clock_def)

lemma frame_transition: "R s (lc_transition aid to s)"
  by (simp add: lc_transition_def refl actors_update split: option.splits)

lemma frame_transitions: "R s t \<Longrightarrow> R s (lc_transition aid to t)"
  by (rule trans [OF _ frame_transition])

lemma frame_events: "R s t \<Longrightarrow> \<not> user_event e \<Longrightarrow> R s (record_event e t)"
  by (rule trans [OF _ event])

lemma frame_initiate: "R s (initiate_actor_drain aid s)"
  by (simp add: initiate_actor_drain_def Let_def refl user_event_def frame_transitions frame_events split: option.splits)

lemma frame_check_force: "R s (snd (check_force clock env opts deadline s))"
proof -
  have "R s (set_phase ForcedStop (snd (read_clock clock env s)))"
    by (rule trans [OF frame_read frame_set_phase])
  then show ?thesis
    using trans [OF _ running_update] by (simp add: check_force_def refl frame_read Let_def case_prod_beta)
qed

lemma frame_drain_each: "R s (snd (drain_each clock env opts deadline ids s))"
proof (induction ids arbitrary: s)
  case (Cons aid ids)
  have "R s (snd (check_force clock env opts deadline (initiate_actor_drain aid s)))"
    by (rule trans [OF frame_initiate frame_check_force])
  with Cons show ?case using trans by (auto simp: case_prod_beta Let_def)
qed (simp add: refl)

lemma frame_poll: "poll_drain_complete clock env aid deadline s = Some s' \<Longrightarrow> R s s'"
proof (induction rule: poll_induct)
  case (step poll clock env aid deadline s s')
  define t where "t = snd (read_clock clock env s)"
  have "R s t" unfolding t_def by (rule frame_read)
  with step show ?case
    by (auto simp: Let_def case_prod_beta simp flip: t_def split: if_splits option.splits intro: trans)
qed

lemma frame_poll_each: "poll_each clock env opts deadline ids s = Some (f, s') \<Longrightarrow> R s s'"
proof (induction ids arbitrary: s)
  case (Cons aid ids)
  then obtain t where t: "poll_drain_complete clock env aid deadline s = Some t" by (auto simp: bind_eq_Some_conv)
  define u where "u = check_force clock env opts deadline t"
  have "R s (snd u)" unfolding u_def by (rule trans [OF frame_poll [OF t] frame_check_force])
  with Cons.prems Cons.IH [of "snd u"] t show ?case
    by (auto simp: case_prod_beta simp flip: u_def split: if_splits intro: trans)
qed (simp add: refl)

lemma frame_poll_group: "poll_group clock env opts deadline ids s = Some (f, s') \<Longrightarrow> R s s'"
proof -
  assume g: "poll_group clock env opts deadline ids s = Some (f, s')"
  define u where "u = check_force clock env opts deadline s"
  have "R s (snd u)" unfolding u_def by (rule frame_check_force)
  with g show ?thesis
    by (auto simp: poll_group_def case_prod_beta simp flip: u_def split: if_splits intro: trans frame_poll_each)
qed

lemma frame_drain_systems: "R s (snd (drain_systems clock env opts deadline ids s))"
  using frame_check_force [of s clock env opts deadline] trans [OF _ frame_drain_each]
  by (simp add: drain_systems_def case_prod_beta)

lemma frame_drain_actors:
  assumes "drain_actors clock env opts deadline users systems s = Some (f, s')"
  shows "R s s'"
proof -
  define a where "a = drain_each clock env opts deadline users s"
  have a: "R s (snd a)" unfolding a_def by (rule frame_drain_each)
  show ?thesis
  proof (cases "fst a")
    case True
    with assms a show ?thesis by (simp add: drain_actors_def case_prod_beta flip: a_def)
  next
    case False
    with assms obtain g t where t: "poll_group clock env opts deadline users (snd a) = Some (g, t)"
      by (auto simp: drain_actors_def case_prod_beta bind_eq_Some_conv simp flip: a_def)
    define b where "b = drain_systems clock env opts deadline systems t"
    have st: "R s t" by (rule trans [OF a frame_poll_group [OF t]])
    have b: "R s (snd b)" unfolding b_def by (rule trans [OF st frame_drain_systems])
    have c: "R s (snd (check_force clock env opts deadline c))"
      if "poll_group clock env opts deadline systems (snd b) = Some (h, c)" for h c
      by (rule trans [OF b trans [OF frame_poll_group [OF that] frame_check_force]])
    from assms False t st b show ?thesis
      by (auto simp: drain_actors_def case_prod_beta bind_eq_Some_conv simp flip: a_def b_def
          split: if_splits intro: trans [OF b] frame_poll_group c dest!: arg_cong [where f = snd])
  qed
qed

end


section \<open>Termination\<close>

lemma poll_terminates:
  assumes "\<forall>m \<ge> n. deadline \<le> clock m"
  shows "\<exists>s'. poll_drain_complete clock env aid deadline s = Some s'"
proof (induction "n - readings s" arbitrary: s rule: less_induct)
  case less
  define t where "t = snd (read_clock clock env s)"
  have t: "readings t = Suc (readings s)" by (simp add: t_def read_clock_def)
  show ?case
  proof (cases "clock (readings s) < deadline")
    case True
    then have "readings s < n" using assms by (metis not_le)
    then have "n - readings t < n - readings s" using t by simp
    then obtain s' where "poll_drain_complete clock env aid deadline t = Some s'" using less by blast
    then show ?thesis
      by (subst poll_drain_complete.simps)
        (auto simp: case_prod_beta simp flip: t_def split: option.splits)
  next
    case False
    then show ?thesis by (subst poll_drain_complete.simps) (simp add: read_clock_def)
  qed
qed

lemma poll_each_terminates:
  assumes "\<forall>m \<ge> n. deadline \<le> clock m"
  shows "poll_each clock env opts deadline ids s \<noteq> None"
proof (induction ids arbitrary: s)
  case (Cons aid ids)
  obtain t where "poll_drain_complete clock env aid deadline s = Some t" using poll_terminates [OF assms] by blast
  with Cons show ?case by (cases "check_force clock env opts deadline t") auto
qed simp

lemma drain_actors_terminates:
  assumes "\<forall>m \<ge> n. deadline \<le> clock m"
  shows "drain_actors clock env opts deadline users systems s \<noteq> None"
proof -
  have p: "\<exists>g t. poll_group clock env opts deadline ids u = Some (g, t)" for ids u
    using poll_each_terminates [OF assms]
    by (cases "check_force clock env opts deadline u") (auto simp: poll_group_def)
  obtain f a where a: "drain_each clock env opts deadline users s = (f, a)" by (rule prod.exhaust)
  obtain g b where b: "poll_group clock env opts deadline users a = Some (g, b)" using p by blast
  obtain h c where c: "drain_systems clock env opts deadline systems b = (h, c)" by (rule prod.exhaust)
  obtain k d where d: "poll_group clock env opts deadline systems c = Some (k, d)" using p by blast
  show ?thesis by (simp add: drain_actors_def a b c d del: not_None_eq)
qed

section \<open>Frames\<close>

definition user_log :: "coordinator \<Rightarrow> string list" where
  "user_log s = concat (map (\<lambda>e. case e of UserPhase n \<Rightarrow> [n] | _ \<Rightarrow> []) (events s))"

definition same_phases :: "coordinator \<Rightarrow> coordinator \<Rightarrow> bool" where
  "same_phases s t \<longleftrightarrow> deps t = deps s \<and> user_phases t = user_phases s \<and> user_log t = user_log s"

interpretation sp: coordinator_frame same_phases
  by unfold_locales (auto simp: same_phases_def user_log_def record_event_def user_event_def split: shutdown_event.splits)

lemma run_user_phases_log:
  "deps (run_user_phases p s) = deps s" "user_phases (run_user_phases p s) = user_phases s"
  "sd_phase (run_user_phases p s) = sd_phase s"
  "user_log (run_user_phases p s) = user_log s @
     [up_name up. up \<leftarrow> user_phases s, up_after_phase up = p \<and> up_after_user_name up = [] \<and> up_has_callback up]"
proof -
  let ?f = "\<lambda>up s. if up_after_phase up = p \<and> up_after_user_name up = [] \<and> up_has_callback up
                  then record_event (UserPhase (up_name up)) s else s"
  have "deps (fold ?f ups s) = deps s \<and> user_phases (fold ?f ups s) = user_phases s \<and>
    sd_phase (fold ?f ups s) = sd_phase s \<and> user_log (fold ?f ups s) = user_log s @
     [up_name up. up \<leftarrow> ups, up_after_phase up = p \<and> up_after_user_name up = [] \<and> up_has_callback up]" for ups
    by (induction ups arbitrary: s) (auto simp: record_event_def user_log_def)
  from this [of "user_phases s"]
  show "deps (run_user_phases p s) = deps s" "user_phases (run_user_phases p s) = user_phases s"
    "sd_phase (run_user_phases p s) = sd_phase s"
    "user_log (run_user_phases p s) = user_log s @
     [up_name up. up \<leftarrow> user_phases s, up_after_phase up = p \<and> up_after_user_name up = [] \<and> up_has_callback up]"
    unfolding run_user_phases_def by blast+
qed


section \<open>How a shutdown ends\<close>

definition forced :: "shutdown_options \<Rightarrow> coordinator \<Rightarrow> bool" where
  "forced opts s \<longleftrightarrow> force_after_timeout opts \<and> (has_phase (deps s) \<longrightarrow> sd_phase s = ForcedStop) \<and>
     (has_running (deps s) \<longrightarrow> \<not> running s)"

definition stopped :: "coordinator \<Rightarrow> bool" where
  "stopped s \<longleftrightarrow> (has_phase (deps s) \<longrightarrow> sd_phase s = Stopped) \<and> (has_running (deps s) \<longrightarrow> \<not> running s)"

lemma check_force_True: "check_force clock env opts deadline s = (True, s') \<Longrightarrow> forced opts s'"
  by (auto simp: check_force_def forced_def set_phase_def Let_def case_prod_beta split: if_splits)

lemma drain_each_True: "drain_each clock env opts deadline ids s = (True, s') \<Longrightarrow> forced opts s'"
proof (induction ids arbitrary: s)
  case (Cons aid ids)
  then show ?case
    by (cases "check_force clock env opts deadline (initiate_actor_drain aid s)")
      (auto split: if_splits intro: check_force_True)
qed simp

lemma poll_each_True: "poll_each clock env opts deadline ids s = Some (True, s') \<Longrightarrow> forced opts s'"
proof (induction ids arbitrary: s)
  case (Cons aid ids)
  then obtain t where t: "poll_drain_complete clock env aid deadline s = Some t" by (auto simp: bind_eq_Some_conv)
  with Cons show ?case
    by (cases "check_force clock env opts deadline t") (auto split: if_splits intro: check_force_True)
qed simp

lemma drain_actors_True:
  assumes "drain_actors clock env opts deadline users systems s = Some (True, s')"
  shows "forced opts s'"
proof -
  have p: "forced opts t'" if "poll_group clock env opts deadline ids t = Some (True, t')" for ids t t'
    using that by (auto simp: poll_group_def case_prod_beta split: if_splits intro: poll_each_True)
  have d: "forced opts t'" if "drain_systems clock env opts deadline ids t = (True, t')" for ids t t'
    using that by (auto simp: drain_systems_def case_prod_beta split: if_splits intro: drain_each_True)
  show ?thesis
    using assms
    by (auto simp: drain_actors_def bind_eq_Some_conv split: prod.splits if_splits
        intro: p d drain_each_True check_force_True)
qed

lemma set_phase_simps [simp]:
  "deps (set_phase p s) = deps s" "user_phases (set_phase p s) = user_phases s" "user_log (set_phase p s) = user_log s"
  by (simp_all add: set_phase_def user_log_def)

lemma record_event_simps [simp]:
  "deps (record_event e s) = deps s" "user_phases (record_event e s) = user_phases s"
  "\<not> user_event e \<Longrightarrow> user_log (record_event e s) = user_log s"
  by (simp_all add: record_event_def user_log_def user_event_def split: shutdown_event.splits)

lemma read_clock_simps [simp]:
  "deps (snd (read_clock clock env s)) = deps s" "user_phases (snd (read_clock clock env s)) = user_phases s"
  "user_log (snd (read_clock clock env s)) = user_log s"
  by (simp_all add: read_clock_def user_log_def)

lemma leave_and_flush_end: "forced opts (leave_and_flush clock env opts s) \<or> stopped (leave_and_flush clock env opts s)"
proof -
  obtain now t where t: "enter_leave clock env s = (now, t)" by (rule prod.exhaust)
  obtain f u where u: "check_force clock env opts (now + cluster_leave_timeout opts) t = (f, u)" by (rule prod.exhaust)
  have "stopped (flush_and_stop v)" for v by (simp add: flush_and_stop_def Let_def stopped_def set_phase_def)
  moreover have "f \<Longrightarrow> forced opts u" using u check_force_True by simp
  ultimately show ?thesis by (simp add: leave_and_flush_def t u)
qed


definition runs_after :: "user_phase list \<Rightarrow> shutdown_phase \<Rightarrow> string list" where
  "runs_after ups p = [up_name up. up \<leftarrow> ups, up_after_phase up = p \<and> up_after_user_name up = [] \<and> up_has_callback up]"

lemma run_user_phases_appends:
  assumes "user_log s = l" "user_phases s = ups" "deps s = d"
  shows "user_log (run_user_phases p s) = l @ runs_after ups p" "user_phases (run_user_phases p s) = ups"
    "deps (run_user_phases p s) = d"
  using assms by (simp_all add: run_user_phases_log runs_after_def)

lemma same_phasesD: "same_phases s t \<Longrightarrow> user_log s = l \<Longrightarrow> user_log t = l"
  "same_phases s t \<Longrightarrow> user_phases s = ups \<Longrightarrow> user_phases t = ups" "same_phases s t \<Longrightarrow> deps s = d \<Longrightarrow> deps t = d"
  by (simp_all add: same_phases_def)

lemma user_log_running [simp]: "user_log (s\<lparr>running := b\<rparr>) = user_log s"
  by (simp add: user_log_def)

lemma leave_and_flush_log:
  assumes "has_phase (deps s)" "sd_phase (leave_and_flush clock env opts s) = Stopped"
  shows "user_log (leave_and_flush clock env opts s) =
    user_log s @ runs_after (user_phases s) LeavingCluster @ runs_after (user_phases s) FlushingTelemetry"
proof -
  obtain now t where t: "enter_leave clock env s = (now, t)" by (rule prod.exhaust)
  obtain f u where u: "check_force clock env opts (now + cluster_leave_timeout opts) t = (f, u)" by (rule prod.exhaust)
  have st: "user_log t = user_log s" "user_phases t = user_phases s" "deps t = deps s"
    using t by (auto simp: enter_leave_def Let_def case_prod_beta user_event_def split: if_splits)
  have tu: "same_phases t u" using sp.frame_check_force [of t clock env opts "now + cluster_leave_timeout opts"] u by simp
  note su = same_phasesD(1) [OF tu st(1)] same_phasesD(2) [OF tu st(2)] same_phasesD(3) [OF tu st(3)]
  have "\<not> f"
  proof
    assume f
    then have "forced opts u" using u check_force_True by simp
    then show False using assms \<open>f\<close> su by (simp add: forced_def leave_and_flush_def t u)
  qed
  have fl: "user_log (flush_and_stop v) = user_log v @ runs_after (user_phases v) FlushingTelemetry" for v
  proof -
    define w where "w = (let v = set_phase FlushingTelemetry v in if has_flush (deps v) then record_event FlushTelemetry v else v)"
    have w: "user_log w = user_log v" "user_phases w = user_phases v" by (simp_all add: w_def Let_def user_event_def)
    have "user_log (flush_and_stop v) = user_log (run_user_phases FlushingTelemetry w)"
      by (simp add: flush_and_stop_def w_def Let_def)
    with w show ?thesis by (simp add: run_user_phases_appends)
  qed
  show ?thesis
    using \<open>\<not> f\<close> by (simp add: leave_and_flush_def t u fl run_user_phases_appends [OF su])
qed

text \<open>
  C28. A shutdown that reaches phase Stopped has run exactly the user phases registered behind one of
  the four built-in phases, each once, phase by phase and within a phase in the order of
  registration. Phases registered behind another user phase are not among them.
\<close>

theorem shutdown_runs_user_phases:
  assumes "execute clock env opts s = Some s'" "has_phase (deps s)" "sd_phase s' = Stopped" "events s = []"
  shows "user_log s' =
    concat (map (runs_after (user_phases s)) [DrainingIngress, DrainingActors, LeavingCluster, FlushingTelemetry])"
proof -
  obtain now t where t: "enter_ingress clock env s = (now, t)" by (rule prod.exhaust)
  obtain f u where u: "check_force clock env opts (now + ingress_timeout opts) t = (f, u)" by (rule prod.exhaust)
  obtain now' v where v: "enter_actors clock env u = (now', v)" by (rule prod.exhaust)
  have t': "t = snd (enter_ingress clock env s)" and v': "v = snd (enter_actors clock env u)" using t v by simp_all
  have st: "user_log t = []" "user_phases t = user_phases s" "deps t = deps s"
    unfolding t' using assms(4) by (simp_all add: enter_ingress_def Let_def user_event_def) (simp add: user_log_def)
  have tu: "same_phases t u" using sp.frame_check_force [of t clock env opts "now + ingress_timeout opts"] u by simp
  note su = same_phasesD(1) [OF tu st(1)] same_phasesD(2) [OF tu st(2)] same_phasesD(3) [OF tu st(3)]
  have sv: "user_log v = runs_after (user_phases s) DrainingIngress" "user_phases v = user_phases s" "deps v = deps s"
    unfolding v' using run_user_phases_appends [OF su] by (simp_all add: enter_actors_def)
  have nf: "\<not> f"
  proof
    assume f
    then have "forced opts u" using u check_force_True by simp
    then show False using assms \<open>f\<close> su by (simp add: forced_def execute_def t u)
  qed
  then obtain g w where w: "drain_actors clock env opts (now' + actor_drain_timeout opts) (user_ids (deps v))
      (system_ids (deps v)) v = Some (g, w)"
    "s' = (if g then w else leave_and_flush clock env opts (run_user_phases DrainingActors w))"
    using assms(1) by (auto simp: execute_def t u v)
  have vw: "same_phases v w" by (rule sp.frame_drain_actors [OF w(1)])
  note sw = same_phasesD(1) [OF vw sv(1)] same_phasesD(2) [OF vw sv(2)] same_phasesD(3) [OF vw sv(3)]
  have ng: "\<not> g"
  proof
    assume g
    then have "forced opts w" using w drain_actors_True by simp
    then show False using assms \<open>g\<close> sw w by (simp add: forced_def)
  qed
  note r = run_user_phases_appends [OF sw, of DrainingActors]
  from leave_and_flush_log [of "run_user_phases DrainingActors w" clock env opts] assms w ng r
  show ?thesis by simp
qed

section \<open>A concrete shutdown\<close>

definition sample_deps :: dependencies where
  "sample_deps = \<lparr>has_phase = True, has_running = True, has_set_ready = True,
     actor_snapshot = [(1, False), (2, True), (3, False)], has_get_actor = True, has_mailbox = (\<lambda>_. True),
     has_stop_remote = True, has_leave_discovery = True, has_flush = True\<rparr>"

definition sample_actors :: actors where
  "sample_actors = [1 \<mapsto> \<lparr>event_based = False, lifecycle = Some (lifecycle_init\<lparr>lc_state := kActive\<rparr>)\<rparr>,
     2 \<mapsto> \<lparr>event_based = False, lifecycle = Some (lifecycle_init\<lparr>lc_state := kActive, lc_drain_policy := ImmediateStop\<rparr>)\<rparr>,
     3 \<mapsto> \<lparr>event_based = True, lifecycle = Some (lifecycle_init\<lparr>lc_state := kQuarantined\<rparr>)\<rparr>]"

definition sample_coordinator :: coordinator where
  "sample_coordinator =
     (let s = \<lparr>deps = sample_deps, user_phases = [], sd_phase = Running, running = True, sd_actors = sample_actors,
               readings = 0, events = []\<rparr>;
          s = snd (add_user_phase ''flush-cache'' DrainingActors 5000 True s);
          s = snd (add_user_phase_after ''close-db'' ''flush-cache'' 5000 True s)
      in snd (add_user_phase ''bye'' LeavingCluster 5000 True s))"

definition sample_options :: shutdown_options where
  "sample_options = \<lparr>ingress_timeout = 5, actor_drain_timeout = 4, cluster_leave_timeout = 10, force_after_timeout = False\<rparr>"


theorem shutdown_runs_user_phases_witness:
  "\<exists>s'. execute int (\<lambda>_ a. a) sample_options sample_coordinator = Some s' \<and> user_log s' = [''flush-cache'', ''bye'']"
proof -
  have ex: "map_option sd_phase (execute int (\<lambda>_ a. a) sample_options sample_coordinator) = Some Stopped" by code_simp
  then obtain s' where s': "execute int (\<lambda>_ a. a) sample_options sample_coordinator = Some s'" "sd_phase s' = Stopped" by auto
  have "has_phase (deps sample_coordinator)" "events sample_coordinator = []"
    "concat (map (runs_after (user_phases sample_coordinator)) [DrainingIngress, DrainingActors, LeavingCluster, FlushingTelemetry])
      = [''flush-cache'', ''bye'']"
    by code_simp+
  with shutdown_runs_user_phases [OF s'(1) _ s'(2)] s' show ?thesis by simp
qed

end
