(* ===== verification/Circuit_Breaker.thy ===== *)
theory Circuit_Breaker
  imports HPA_Prelude
begin

text \<open>
  The circuit breaker of an endpoint, \<^verbatim>\<open>endpoint_circuit_breaker.cpp\<close>. Each call runs as one
  step; the clock reading a call would make is its argument.
\<close>

record breaker_config =
  failure_threshold :: nat
  cooldown :: int
  half_open_probe_limit :: nat

datatype breaker_state = Closed | Open | HalfOpen

record breaker =
  cb_config :: breaker_config
  cb_state :: breaker_state
  failure_count :: nat
  half_open_probes :: nat
  opened_at :: int

definition breaker_init :: "breaker_config \<Rightarrow> breaker" where
  "breaker_init cfg = \<lparr>cb_config = cfg, cb_state = Closed, failure_count = 0, half_open_probes = 0, opened_at = 0\<rparr>"

definition record_failure :: "int \<Rightarrow> breaker \<Rightarrow> breaker" where
  "record_failure now b =
     (if cb_state b = Closed then
        (let b = b\<lparr>failure_count := failure_count b + 1\<rparr>
         in if failure_count b \<ge> failure_threshold (cb_config b) then b\<lparr>opened_at := now, cb_state := Open\<rparr> else b)
      else if cb_state b = HalfOpen then b\<lparr>failure_count := 0, half_open_probes := 0, cb_state := Open\<rparr>
      else b)"

definition record_success :: "breaker \<Rightarrow> breaker" where
  "record_success b =
     (if cb_state b = Closed then b\<lparr>failure_count := 0\<rparr>
      else if cb_state b = HalfOpen then b\<lparr>failure_count := 0, half_open_probes := 0, cb_state := Closed\<rparr>
      else b)"

definition take_probe :: "breaker \<Rightarrow> bool \<times> breaker" where
  "take_probe b = (half_open_probes b < half_open_probe_limit (cb_config b), b\<lparr>half_open_probes := half_open_probes b + 1\<rparr>)"

definition allow_send :: "int \<Rightarrow> breaker \<Rightarrow> bool \<times> breaker" where
  "allow_send now b =
     (case cb_state b of
        Closed \<Rightarrow> (True, b)
      | HalfOpen \<Rightarrow> take_probe b
      | Open \<Rightarrow>
          if now - opened_at b \<ge> cooldown (cb_config b)
          then take_probe (b\<lparr>half_open_probes := 0, cb_state := HalfOpen\<rparr>)
          else (False, b))"

definition breaker_reset :: "breaker \<Rightarrow> breaker" where
  "breaker_reset b = b\<lparr>failure_count := 0, half_open_probes := 0, cb_state := Closed\<rparr>"

section \<open>Tripping\<close>

lemma failures_trip:
  assumes "cb_state b = Closed" "ts \<noteq> []" "failure_threshold (cb_config b) = failure_count b + length ts"
  shows "fold record_failure ts b = b\<lparr>failure_count := failure_count b + length ts, cb_state := Open, opened_at := last ts\<rparr>"
  using assms
proof (induction ts arbitrary: b)
  case (Cons t ts)
  show ?case
  proof (cases "ts = []")
    case True
    with Cons.prems show ?thesis by (simp add: record_failure_def)
  next
    case False
    then have "record_failure t b = b\<lparr>failure_count := failure_count b + 1\<rparr>"
      using Cons.prems by (cases ts) (simp_all add: record_failure_def)
    with Cons.IH [of "b\<lparr>failure_count := failure_count b + 1\<rparr>"] Cons.prems False show ?thesis by simp
  qed
qed simp

lemma open_rejects:
  assumes "cb_state b = Open" "\<forall>t \<in> set ts. t < opened_at b + cooldown (cb_config b)"
  shows "fold (\<lambda>t (rs, b). let (r, b') = allow_send t b in (rs @ [r], b')) ts (rs, b) = (rs @ replicate (length ts) False, b)"
  using assms by (induction ts arbitrary: rs) (simp_all add: allow_send_def replicate_append_same)

text \<open>
  C30. Starting from a fresh breaker, as many failures in a row as the threshold open it; it then
  refuses every send, whatever their number, until the cooldown after the last of these failures
  has passed, and the first send after that is let through as a probe.
\<close>

theorem breaker_trips_and_cools_down:
  assumes "length failures = failure_threshold cfg" "failures \<noteq> []" "0 < half_open_probe_limit cfg"
    and "\<forall>t \<in> set sends. t < last failures + cooldown cfg" "last failures + cooldown cfg \<le> probe"
  shows "let b = fold record_failure failures (breaker_init cfg);
             (rs, b') = fold (\<lambda>t (rs, b). let (r, b') = allow_send t b in (rs @ [r], b')) sends ([], b)
         in rs = replicate (length sends) False \<and> fst (allow_send probe b') \<and> cb_state (snd (allow_send probe b')) = HalfOpen"
proof -
  let ?b = "fold record_failure failures (breaker_init cfg)"
  have b: "?b = (breaker_init cfg)\<lparr>failure_count := length failures, cb_state := Open, opened_at := last failures\<rparr>"
    using failures_trip [of "breaker_init cfg" failures] assms(1,2) by (simp add: breaker_init_def)
  then have "fold (\<lambda>t (rs, b). let (r, b') = allow_send t b in (rs @ [r], b')) sends ([], ?b)
      = (replicate (length sends) False, ?b)"
    using open_rejects [of ?b sends "[]"] assms(4) by (simp add: breaker_init_def)
  with b assms(3,5) show ?thesis by (simp add: Let_def allow_send_def take_probe_def breaker_init_def)
qed

theorem breaker_trips_and_cools_down_witness:
  "let b = fold record_failure [10, 20, 30] (breaker_init \<lparr>failure_threshold = 3, cooldown = 100, half_open_probe_limit = 1\<rparr>);
       (rs, b') = fold (\<lambda>t (rs, b). let (r, b') = allow_send t b in (rs @ [r], b')) [31, 100, 129] ([], b)
   in rs = [False, False, False] \<and> fst (allow_send 130 b') \<and> cb_state (snd (allow_send 130 b')) = HalfOpen"
  using breaker_trips_and_cools_down
    [of "[10, 20, 30]" "\<lparr>failure_threshold = 3, cooldown = 100, half_open_probe_limit = 1\<rparr>" "[31, 100, 129]" 130]
  by (simp add: numeral_3_eq_3)

section \<open>Probing\<close>

lemma half_open_probes_bounded:
  assumes "cb_state b = HalfOpen"
  shows "length (filter id (fst (fold (\<lambda>t (rs, b). let (r, b') = allow_send t b in (rs @ [r], b')) ts ([], b))))
    = min (length ts) (half_open_probe_limit (cb_config b) - half_open_probes b)"
proof -
  have "length (filter id (fst (fold (\<lambda>t (rs, b). let (r, b') = allow_send t b in (rs @ [r], b')) ts (rs, b))))
    = length (filter id rs) + min (length ts) (half_open_probe_limit (cb_config b) - half_open_probes b)" for rs
    using assms
  proof (induction ts arbitrary: rs b)
    case (Cons t ts)
    have "allow_send t b = (half_open_probes b < half_open_probe_limit (cb_config b), b\<lparr>half_open_probes := half_open_probes b + 1\<rparr>)"
      using Cons.prems by (simp add: allow_send_def take_probe_def)
    then show ?case using Cons.IH [of "b\<lparr>half_open_probes := half_open_probes b + 1\<rparr>"] Cons.prems by (auto simp: min_def)
  qed simp
  from this [of "[]"] show ?thesis by simp
qed

text \<open>
  A failed probe does not restart the cooldown. Once the cooldown of the first opening has
  passed, a probe that fails opens the breaker, but the very next send, at the same instant, is let
  through again, and so for any number of failed probes.
\<close>

theorem failed_probe_skips_cooldown:
  assumes "cb_state b = Open" "0 < half_open_probe_limit (cb_config b)"
    and "\<forall>t \<in> set ts. opened_at b + cooldown (cb_config b) \<le> t"
  shows "fst (fold (\<lambda>t (rs, b). let (r, b') = allow_send t b in (rs @ [r], record_failure t b')) ts ([], b))
    = replicate (length ts) True"
proof -
  have "\<exists>b'. fold (\<lambda>t (rs, b). let (r, b') = allow_send t b in (rs @ [r], record_failure t b')) ts (rs, b)
      = (rs @ replicate (length ts) True, b')" for rs
    using assms
  proof (induction ts arbitrary: rs b)
    case (Cons t ts)
    define b1 where "b1 = record_failure t (snd (allow_send t b))"
    have "fst (allow_send t b)" "cb_state b1 = Open" "cb_config b1 = cb_config b" "opened_at b1 = opened_at b"
      using Cons.prems by (simp_all add: b1_def allow_send_def take_probe_def record_failure_def)
    with Cons.IH [of b1 "rs @ [True]"] Cons.prems show ?case
      by (simp add: case_prod_beta flip: b1_def)
  qed simp
  from this [of "[]"] show ?thesis by auto
qed

theorem failed_probe_skips_cooldown_witness:
  "let b = fold record_failure [10, 20, 30] (breaker_init \<lparr>failure_threshold = 3, cooldown = 100, half_open_probe_limit = 1\<rparr>)
   in fst (fold (\<lambda>t (rs, b). let (r, b') = allow_send t b in (rs @ [r], record_failure t b')) [130, 130, 131] ([], b))
     = [True, True, True]"
proof -
  let ?b = "fold record_failure [10, 20, 30] (breaker_init \<lparr>failure_threshold = 3, cooldown = 100, half_open_probe_limit = 1\<rparr>)"
  have "cb_state ?b = Open" "0 < half_open_probe_limit (cb_config ?b)"
    "\<forall>t \<in> set [130, 130, 131]. opened_at ?b + cooldown (cb_config ?b) \<le> t"
    by code_simp+
  from failed_probe_skips_cooldown [OF this] show ?thesis by (simp add: Let_def numeral_3_eq_3)
qed

end
