(* ===== verification/Outbound_Queue.thy ===== *)
theory Outbound_Queue
  imports Pressure Endpoint
begin

text \<open>
  The outbound queue of an endpoint, \<^verbatim>\<open>endpoint_outbound_queue.cpp\<close>: a control lane and a data
  lane behind an admission test. Each call runs as one step, as if both calls held the spin lock
  (in the source only \<^verbatim>\<open>try_enqueue\<close> takes it). Counters of queued messages and bytes are
  natural numbers; \<open>truncate\<close> is the conversion of a double to \<^verbatim>\<open>size_t\<close>.
\<close>

section \<open>State\<close>

datatype delivery_mode = BestEffort | ObservableBestEffort | AtLeastOnce | DurableAtLeastOnce

datatype send_result = Sent | NotConnected | QueueFull | CircuitOpen | EncodeError | ShuttingDown | WriteError

record pending_message =
  pm_target :: actor_address
  pm_data :: "u8 list"
  enqueued_at :: int

record outbound_limits =
  ol_max_messages :: nat
  ol_max_bytes :: nat
  control_lane_reserve :: nat
  reliable_headroom_pct :: real
  ol_high_watermark :: real
  ol_critical_watermark :: real
  ol_low_watermark :: real
  drain_rate_ema_alpha :: real

record outbound_queue =
  limits :: outbound_limits
  control_messages :: nat
  control_bytes :: nat
  data_messages :: nat
  data_bytes :: nat
  control_lane :: "pending_message list"
  data_lane :: "pending_message list"
  oq_pressure :: mailbox_pressure_state
  drain_rate_ema :: real

definition outbound_init :: "outbound_limits \<Rightarrow> outbound_queue" where
  "outbound_init l = \<lparr>limits = l, control_messages = 0, control_bytes = 0, data_messages = 0, data_bytes = 0,
     control_lane = [], data_lane = [], oq_pressure = Normal, drain_rate_ema = 0\<rparr>"

definition total_messages :: "outbound_queue \<Rightarrow> nat" where
  "total_messages q = control_messages q + data_messages q"

definition total_bytes :: "outbound_queue \<Rightarrow> nat" where
  "total_bytes q = control_bytes q + data_bytes q"

definition depth_ratio :: "outbound_queue \<Rightarrow> real" where
  "depth_ratio q = (if ol_max_messages (limits q) = 0 then 0
     else real (total_messages q) / real (ol_max_messages (limits q)))"

definition snapshot :: "outbound_queue \<Rightarrow> nat \<times> nat \<times> nat \<times> nat" where
  "snapshot q = (control_messages q, control_bytes q, data_messages q, data_bytes q)"

section \<open>Admission\<close>

definition truncate :: "real \<Rightarrow> nat" where
  "truncate x = nat \<lfloor>x\<rfloor>"

definition effective_messages :: "outbound_limits \<Rightarrow> nat" where
  "effective_messages l =
     (if ol_max_messages l > control_lane_reserve l then ol_max_messages l - control_lane_reserve l else 0)"

definition effective_bytes :: "outbound_limits \<Rightarrow> nat" where
  "effective_bytes l =
     (let byte_ratio = (if ol_max_messages l > 0 then real (effective_messages l) / real (ol_max_messages l) else 0)
      in truncate (real (ol_max_bytes l) * byte_ratio))"

definition check_admission :: "nat \<Rightarrow> bool \<Rightarrow> delivery_mode \<Rightarrow> outbound_queue \<Rightarrow> bool" where
  "check_admission msg_bytes is_control mode q =
     (if is_control then
        (if control_messages q < control_lane_reserve (limits q)
         then total_bytes q + msg_bytes \<le> ol_max_bytes (limits q)
         else total_messages q < ol_max_messages (limits q) \<and> total_bytes q + msg_bytes \<le> ol_max_bytes (limits q))
      else
        let is_reliable = (mode = AtLeastOnce \<or> mode = DurableAtLeastOnce);
            share = 1 - reliable_headroom_pct (limits q);
            data_limit_messages = (if is_reliable then effective_messages (limits q)
              else truncate (real (effective_messages (limits q)) * share));
            data_limit_bytes = (if is_reliable then effective_bytes (limits q)
              else truncate (real (effective_bytes (limits q)) * share))
        in data_messages q < data_limit_messages \<and> data_bytes q + msg_bytes \<le> data_limit_bytes)"

definition update_pressure :: "outbound_queue \<Rightarrow> outbound_queue" where
  "update_pressure q =
     (let ratio = depth_ratio q; hard_failure = (ratio \<ge> ol_critical_watermark (limits q))
      in q\<lparr>oq_pressure := next_state ratio hard_failure (ol_high_watermark (limits q)) (ol_low_watermark (limits q))
           (ol_critical_watermark (limits q)) (oq_pressure q)\<rparr>)"

definition update_pressure_after_dequeue :: "nat \<Rightarrow> outbound_queue \<Rightarrow> outbound_queue" where
  "update_pressure_after_dequeue bytes_dequeued q =
     (let q = update_pressure q; alpha = drain_rate_ema_alpha (limits q)
      in q\<lparr>drain_rate_ema := alpha * real bytes_dequeued + (1 - alpha) * drain_rate_ema q\<rparr>)"

definition try_enqueue :: "pending_message \<Rightarrow> delivery_mode \<Rightarrow> type_tag \<Rightarrow> outbound_queue \<Rightarrow> send_result \<times> outbound_queue" where
  "try_enqueue msg mode ttag q =
     (let is_control = is_system_message ttag; msg_bytes = length (pm_data msg)
      in if \<not> check_admission msg_bytes is_control mode q then (QueueFull, update_pressure q)
         else if is_control then
           (Sent, update_pressure (q\<lparr>control_messages := control_messages q + 1,
              control_bytes := control_bytes q + msg_bytes, control_lane := control_lane q @ [msg]\<rparr>))
         else
           (Sent, update_pressure (q\<lparr>data_messages := data_messages q + 1,
              data_bytes := data_bytes q + msg_bytes, data_lane := data_lane q @ [msg]\<rparr>)))"

definition try_dequeue :: "outbound_queue \<Rightarrow> pending_message option \<times> outbound_queue" where
  "try_dequeue q =
     (case control_lane q of
        msg # rest \<Rightarrow>
          let sz = length (pm_data msg)
          in (Some msg, update_pressure_after_dequeue sz (q\<lparr>control_lane := rest,
                control_messages := control_messages q - 1, control_bytes := control_bytes q - sz\<rparr>))
      | [] \<Rightarrow>
          (case data_lane q of
             msg # rest \<Rightarrow>
               let sz = length (pm_data msg)
               in (Some msg, update_pressure_after_dequeue sz (q\<lparr>data_lane := rest,
                     data_messages := data_messages q - 1, data_bytes := data_bytes q - sz\<rparr>))
           | [] \<Rightarrow> (None, q)))"

section \<open>Reachable queues\<close>

definition lane_bytes :: "pending_message list \<Rightarrow> nat" where
  "lane_bytes ms = sum_list (map (\<lambda>m. length (pm_data m)) ms)"

inductive outbound_reachable :: "outbound_limits \<Rightarrow> outbound_queue \<Rightarrow> bool" for l where
  created: "outbound_reachable l (outbound_init l)"
| enqueued: "outbound_reachable l q \<Longrightarrow> outbound_reachable l (snd (try_enqueue msg mode ttag q))"
| dequeued: "outbound_reachable l q \<Longrightarrow> outbound_reachable l (snd (try_dequeue q))"

definition outbound_inv :: "outbound_limits \<Rightarrow> outbound_queue \<Rightarrow> bool" where
  "outbound_inv l q \<longleftrightarrow> limits q = l \<and>
     control_messages q = length (control_lane q) \<and> control_bytes q = lane_bytes (control_lane q) \<and>
     data_messages q = length (data_lane q) \<and> data_bytes q = lane_bytes (data_lane q) \<and>
     control_messages q \<le> max (ol_max_messages l) (control_lane_reserve l) \<and> data_messages q \<le> effective_messages l \<and>
     control_bytes q \<le> ol_max_bytes l \<and> data_bytes q \<le> effective_bytes l"

lemma lane_bytes_simps [simp]:
  "lane_bytes [] = 0" "lane_bytes (m # ms) = length (pm_data m) + lane_bytes ms"
  "lane_bytes (ms @ [m]) = lane_bytes ms + length (pm_data m)"
  by (simp_all add: lane_bytes_def)

lemma truncate_share: "0 \<le> p \<Longrightarrow> truncate (real n * (1 - p)) \<le> n"
proof -
  assume "0 \<le> p"
  then have "real n * (1 - p) \<le> real n" by (simp add: mult_left_le)
  then have "\<lfloor>real n * (1 - p)\<rfloor> \<le> int n" by linarith
  then show ?thesis by (simp add: truncate_def)
qed

lemma update_pressure_simps [simp]:
  "limits (update_pressure q) = limits q" "control_messages (update_pressure q) = control_messages q"
  "control_bytes (update_pressure q) = control_bytes q" "data_messages (update_pressure q) = data_messages q"
  "data_bytes (update_pressure q) = data_bytes q" "control_lane (update_pressure q) = control_lane q"
  "data_lane (update_pressure q) = data_lane q"
  by (simp_all add: update_pressure_def Let_def)

lemma update_pressure_after_dequeue_simps [simp]:
  "limits (update_pressure_after_dequeue n q) = limits q"
  "control_messages (update_pressure_after_dequeue n q) = control_messages q"
  "control_bytes (update_pressure_after_dequeue n q) = control_bytes q"
  "data_messages (update_pressure_after_dequeue n q) = data_messages q"
  "data_bytes (update_pressure_after_dequeue n q) = data_bytes q"
  "control_lane (update_pressure_after_dequeue n q) = control_lane q"
  "data_lane (update_pressure_after_dequeue n q) = data_lane q"
  by (simp_all add: update_pressure_after_dequeue_def Let_def)

lemma outbound_inv_enqueue:
  assumes "outbound_inv l q" "0 \<le> reliable_headroom_pct l"
  shows "outbound_inv l (snd (try_enqueue msg mode ttag q))"
proof (cases "check_admission (length (pm_data msg)) (is_system_message ttag) mode q")
  case False
  then show ?thesis using assms by (simp add: try_enqueue_def outbound_inv_def)
next
  case True
  note t = truncate_share [OF assms(2), of "effective_messages l"] truncate_share [OF assms(2), of "effective_bytes l"]
  show ?thesis
  proof (cases "is_system_message ttag")
    case sys: True
    with True assms show ?thesis
      by (auto simp: try_enqueue_def outbound_inv_def check_admission_def total_messages_def total_bytes_def split: if_splits)
  next
    case False
    with True assms t show ?thesis
      by (auto simp: try_enqueue_def outbound_inv_def check_admission_def Let_def split: if_splits)
  qed
qed

lemma outbound_inv_dequeue: "outbound_inv l q \<Longrightarrow> outbound_inv l (snd (try_dequeue q))"
  by (auto simp: try_dequeue_def Let_def outbound_inv_def split: list.splits)

text \<open>
  In every outbound queue built by enqueueing and dequeueing, the counters equal the messages
  and bytes of the lanes, the control lane holds at most the larger of the message limit and its
  reserve, the data lane at most the message limit minus the reserve, and each lane keeps its own
  byte limit.
\<close>

theorem outbound_queue_bounds:
  assumes "outbound_reachable l q" "0 \<le> reliable_headroom_pct l"
  shows "outbound_inv l q"
  using assms
proof (induction rule: outbound_reachable.induct)
  case created
  then show ?case by (simp add: outbound_inv_def outbound_init_def)
qed (simp_all add: outbound_inv_enqueue outbound_inv_dequeue)


section \<open>The message limit\<close>

definition fill_control :: "nat \<Rightarrow> pending_message \<Rightarrow> outbound_queue \<Rightarrow> outbound_queue" where
  "fill_control n msg q = ((\<lambda>q. snd (try_enqueue msg BestEffort 1 q)) ^^ n) q"

lemma system_tag [simp]: "is_system_message 1"
  by (simp add: is_system_message_def TypeTag_User_def)

lemma fill_control_state:
  assumes "n \<le> ol_max_messages l" "pm_data msg = []"
  shows "let q = fill_control n msg (outbound_init l)
    in limits q = l \<and> control_messages q = n \<and> control_bytes q = 0 \<and> data_messages q = 0 \<and> data_bytes q = 0"
  using assms
proof (induction n)
  case 0
  then show ?case by (simp add: fill_control_def outbound_init_def)
next
  case (Suc n)
  then show ?case
    by (auto simp: fill_control_def Let_def try_enqueue_def check_admission_def total_messages_def total_bytes_def)
qed

text \<open>
  The message limit of an endpoint is not a limit on its queue: a queue already filled with
  control messages up to the limit still accepts data messages, because the admission of data looks
  only at the data lane.
\<close>

theorem outbound_message_limit_exceeded:
  assumes "control_lane_reserve l < ol_max_messages l" "pm_data msg = []" "\<not> is_system_message ttag"
  shows "let q = fill_control (ol_max_messages l) msg (outbound_init l)
    in total_messages q = ol_max_messages l \<and> fst (try_enqueue msg AtLeastOnce ttag q) = Sent \<and>
       total_messages (snd (try_enqueue msg AtLeastOnce ttag q)) = Suc (ol_max_messages l)"
proof -
  define q where "q = fill_control (ol_max_messages l) msg (outbound_init l)"
  have "limits q = l" "control_messages q = ol_max_messages l" "data_messages q = 0" "data_bytes q = 0"
    using fill_control_state [of "ol_max_messages l" l msg] assms(2) by (simp_all add: q_def Let_def)
  with assms show ?thesis unfolding q_def [symmetric] Let_def
    by (simp add: total_messages_def try_enqueue_def check_admission_def effective_messages_def)
qed

section \<open>Witnesses\<close>

definition sample_limits :: outbound_limits where
  "sample_limits = \<lparr>ol_max_messages = 2, ol_max_bytes = 100, control_lane_reserve = 1, reliable_headroom_pct = 0,
     ol_high_watermark = 1, ol_critical_watermark = 2, ol_low_watermark = 0, drain_rate_ema_alpha = 0\<rparr>"

definition sample_message :: pending_message where
  "sample_message = \<lparr>pm_target = default_address, pm_data = [], enqueued_at = 0\<rparr>"

theorem outbound_queue_bounds_witness:
  "outbound_inv sample_limits (snd (try_dequeue (snd (try_enqueue sample_message BestEffort 1 (outbound_init sample_limits)))))"
  by (rule outbound_queue_bounds) (intro outbound_reachable.intros, simp add: sample_limits_def)

theorem outbound_message_limit_exceeded_witness:
  "let q = fill_control 2 sample_message (outbound_init sample_limits)
   in total_messages q = 2 \<and> fst (try_enqueue sample_message AtLeastOnce 0x2000 q) = Sent \<and>
      total_messages (snd (try_enqueue sample_message AtLeastOnce 0x2000 q)) = 3"
proof -
  have "\<not> is_system_message 0x2000" by (simp add: is_system_message_def TypeTag_User_def)
  from outbound_message_limit_exceeded [OF _ _ this, of sample_limits sample_message]
  show ?thesis by (simp add: sample_limits_def sample_message_def Let_def)
qed

end
