(* ===== verification/Wire_Frame.thy ===== *)
theory Wire_Frame
  imports Endpoint
begin

text \<open>
  The wire frame of \<^verbatim>\<open>src/msg/frame.cpp\<close>: an eight byte header (the magic number \<open>HPAC\<close> and the
  payload length in network byte order) followed by a serialised protobuf envelope.

  The envelope and its protobuf serialisation are parameters: \<open>serialize\<close> stands for
  \<^verbatim>\<open>SerializeAsString\<close> and \<open>parse\<close> for \<^verbatim>\<open>ParseFromString\<close>; that parsing inverts serialising is a
  hypothesis of the round trip.
\<close>

unbundle bit_operations_syntax

section \<open>Header\<close>

definition magic :: "u8 list" where
  "magic = [0x48, 0x50, 0x41, 0x43]"

definition HeaderSize :: nat where
  "HeaderSize = 8"

definition to_net32 :: "u32 \<Rightarrow> u8 list" where
  "to_net32 x = [ucast (drop_bit 24 x), ucast (drop_bit 16 x), ucast (drop_bit 8 x), ucast x]"

definition from_net32 :: "u8 list \<Rightarrow> u32" where
  "from_net32 bs = push_bit 24 (ucast (bs ! 0)) OR push_bit 16 (ucast (bs ! 1)) OR
     push_bit 8 (ucast (bs ! 2)) OR ucast (bs ! 3)"

lemma from_to_net32 [simp]: "from_net32 (to_net32 x) = x"
proof (rule bit_word_eqI)
  fix n assume "n < LENGTH(32)"
  then consider "n < 8" | "8 \<le> n" "n < 16" | "16 \<le> n" "n < 24" | "24 \<le> n" "n < 32" by fastforce
  then show "bit (from_net32 (to_net32 x)) n = bit x n"
    by cases (auto simp: from_net32_def to_net32_def bit_simps)
qed

lemma to_from_net32:
  assumes "length bs = 4"
  shows "to_net32 (from_net32 bs) = bs"
proof -
  obtain a b c d where bs: "bs = [a, b, c, d]"
    using assms by (auto simp: numeral_eq_Suc length_Suc_conv)
  have "ucast (drop_bit 24 (from_net32 bs)) = a" "ucast (drop_bit 16 (from_net32 bs)) = b"
    "ucast (drop_bit 8 (from_net32 bs)) = c" "ucast (from_net32 bs) = d"
    by (rule bit_word_eqI; auto simp: bs from_net32_def bit_simps dest: bit_imp_le_length)+
  then show ?thesis by (simp add: to_net32_def bs)
qed

section \<open>Payload types\<close>

datatype payload_case = kDataFrame | kAckFrame | kNackFrame | kBatchFrame | kStreamOpen | kStreamData
  | kStreamAck | kStreamClose | kStreamError | PAYLOAD_NOT_SET

datatype payload_type = Data | Ack | Nack | Batch | StreamOpen | StreamData | StreamAck | StreamClose
  | StreamError | UnknownPayload

definition payload_type_of :: "payload_case \<Rightarrow> payload_type" where
  "payload_type_of c =
     (case c of
        kDataFrame \<Rightarrow> Data
      | kAckFrame \<Rightarrow> Ack
      | kNackFrame \<Rightarrow> Nack
      | kBatchFrame \<Rightarrow> Batch
      | kStreamOpen \<Rightarrow> StreamOpen
      | kStreamData \<Rightarrow> StreamData
      | kStreamAck \<Rightarrow> StreamAck
      | kStreamClose \<Rightarrow> StreamClose
      | kStreamError \<Rightarrow> StreamError
      | _ \<Rightarrow> UnknownPayload)"

section \<open>Encoding and decoding\<close>

datatype decode_error = NoError | HeaderTooShort | InvalidMagic | FrameTooLarge | LengthMismatch
  | TrailingBytes | InvalidProtobuf

record decode_limits =
  max_payload_bytes :: u32
  reject_trailing_bytes :: bool

definition default_limits :: decode_limits where
  "default_limits = \<lparr>max_payload_bytes = 16 * 1024 * 1024, reject_trailing_bytes = True\<rparr>"

record 'env decode_result =
  decoded_frame :: 'env
  decode_error :: decode_error
  declared_payload_bytes :: u32

definition encode :: "('env \<Rightarrow> u8 list) \<Rightarrow> 'env \<Rightarrow> u8 list" where
  "encode serialize env =
     (let serialized = serialize env; payload_len = of_nat (length serialized)
      in magic @ to_net32 payload_len @ serialized)"

definition try_decode_wireframe ::
    "(u8 list \<Rightarrow> 'env option) \<Rightarrow> 'env \<Rightarrow> u8 list \<Rightarrow> decode_limits \<Rightarrow> 'env decode_result" where
  "try_decode_wireframe parse blank data limits =
     (let r = \<lparr>decoded_frame = blank, decode_error = NoError, declared_payload_bytes = 0\<rparr>
      in if length data < HeaderSize then r\<lparr>decode_error := HeaderTooShort\<rparr>
         else if take 4 data \<noteq> magic then r\<lparr>decode_error := InvalidMagic\<rparr>
         else
           let payload_len = from_net32 (take 4 (drop 4 data));
               r = r\<lparr>declared_payload_bytes := payload_len\<rparr>
           in if max_payload_bytes limits > 0 \<and> payload_len > max_payload_bytes limits
              then r\<lparr>decode_error := FrameTooLarge\<rparr>
              else
                let expected_size = HeaderSize + unat payload_len
                in if length data < expected_size then r\<lparr>decode_error := LengthMismatch\<rparr>
                   else if reject_trailing_bytes limits \<and> length data > expected_size
                   then r\<lparr>decode_error := TrailingBytes\<rparr>
                   else case parse (take (unat payload_len) (drop HeaderSize data)) of
                          None \<Rightarrow> r\<lparr>decode_error := InvalidProtobuf\<rparr>
                        | Some env \<Rightarrow> r\<lparr>decoded_frame := env, decode_error := NoError\<rparr>)"

definition decode :: "(u8 list \<Rightarrow> 'env option) \<Rightarrow> 'env \<Rightarrow> u8 list \<Rightarrow> 'env" where
  "decode parse blank data =
     (let decoded = try_decode_wireframe parse blank data default_limits
      in if decode_error decoded = NoError then decoded_frame decoded else blank)"

lemma header_split:
  "length data \<ge> 8 \<Longrightarrow> data = take 4 data @ take 4 (drop 4 data) @ drop 8 data"
  by (metis append_take_drop_id drop_drop numeral_Bit0)

lemma encode_header:
  "take 4 (magic @ to_net32 n @ s) = magic" "take 4 (drop 4 (magic @ to_net32 n @ s)) = to_net32 n"
  "drop 8 (magic @ to_net32 n @ s) = s" "length (magic @ to_net32 n @ s) = 8 + length s"
  by (simp_all add: magic_def to_net32_def)

text \<open>
  C38. Decoding inverts encoding: a frame whose serialised envelope fits the limit and 32 bits is
  decoded to the same envelope, whatever bytes follow when trailing bytes are allowed, and none when
  they are not.
\<close>

theorem frame_roundtrip:
  assumes "\<And>e. parse (serialize e) = Some e" and "length (serialize env) < 2 ^ 32"
    and "max_payload_bytes limits = 0 \<or> length (serialize env) \<le> unat (max_payload_bytes limits)"
    and "reject_trailing_bytes limits \<longrightarrow> rest = []"
  shows "try_decode_wireframe parse blank (encode serialize env @ rest) limits =
    \<lparr>decoded_frame = env, decode_error = NoError, declared_payload_bytes = of_nat (length (serialize env))\<rparr>"
proof -
  define s n where "s = serialize env" and "n = (of_nat (length s) :: u32)"
  have n: "unat n = length s" using assms(2) unfolding n_def s_def by (intro unat_of_nat_less) simp
  have lim: "\<not> (max_payload_bytes limits > 0 \<and> n > max_payload_bytes limits)"
    using assms(3) n by (auto simp: word_less_nat_alt s_def)
  have e: "encode serialize env @ rest = magic @ to_net32 n @ (s @ rest)"
    by (simp add: encode_def Let_def n_def s_def)
  have "parse s = Some env" using assms(1) by (simp add: s_def)
  then have "try_decode_wireframe parse blank (magic @ to_net32 n @ (s @ rest)) limits =
      \<lparr>decoded_frame = env, decode_error = NoError, declared_payload_bytes = n\<rparr>"
    unfolding try_decode_wireframe_def Let_def HeaderSize_def encode_header from_to_net32 if_not_P [OF lim]
    using assms(4) n by simp
  then show ?thesis unfolding e n_def s_def .
qed

theorem frame_roundtrip_witness:
  "try_decode_wireframe Some [] (encode (\<lambda>e. e) [1, 2, 3]) default_limits =
     \<lparr>decoded_frame = [1, 2, 3], decode_error = NoError, declared_payload_bytes = 3\<rparr>"
  using frame_roundtrip [of Some "\<lambda>e. e" "[1, 2, 3]" default_limits "[]" "[]"]
  by (simp add: default_limits_def)

text \<open>
  C39. The decoder accepts nothing but frames: when it reports no error, the input is the magic
  number, a length within the limit, that many payload bytes that parse to the result, and,
  when trailing bytes are rejected, nothing else.
\<close>

theorem decode_accepts_only_frames:
  assumes "try_decode_wireframe parse blank data limits = r" and "decode_error r = NoError"
  shows "\<exists>payload rest. data = magic @ to_net32 (declared_payload_bytes r) @ payload @ rest \<and>
    length payload = unat (declared_payload_bytes r) \<and> parse payload = Some (decoded_frame r) \<and>
    (max_payload_bytes limits > 0 \<longrightarrow> declared_payload_bytes r \<le> max_payload_bytes limits) \<and>
    (reject_trailing_bytes limits \<longrightarrow> rest = [])"
proof -
  define n tail where "n = from_net32 (take 4 (drop 4 data))" and "tail = drop 8 data"
  have r: "8 \<le> length data" "take 4 data = magic" "declared_payload_bytes r = n" "8 + unat n \<le> length data"
    "parse (take (unat n) tail) = Some (decoded_frame r)"
    "max_payload_bytes limits > 0 \<longrightarrow> n \<le> max_payload_bytes limits"
    "reject_trailing_bytes limits \<longrightarrow> length data \<le> 8 + unat n"
    using assms unfolding n_def tail_def
    by (auto simp: try_decode_wireframe_def Let_def HeaderSize_def split: if_splits option.splits)
  have net: "to_net32 n = take 4 (drop 4 data)"
    unfolding n_def using r(1) by (intro to_from_net32) simp
  have d: "magic @ to_net32 n @ tail = data"
    unfolding net tail_def r(2) [symmetric] using header_split [OF r(1)] by simp
  have len: "length tail = length data - 8" by (simp add: tail_def)
  show ?thesis
  proof (intro exI conjI)
    show "data = magic @ to_net32 (declared_payload_bytes r) @ take (unat n) tail @ drop (unat n) tail"
      using d r(3) by simp
    show "length (take (unat n) tail) = unat (declared_payload_bytes r)" using r(3,4) len by simp
    show "parse (take (unat n) tail) = Some (decoded_frame r)" by (rule r(5))
    show "0 < max_payload_bytes limits \<longrightarrow> declared_payload_bytes r \<le> max_payload_bytes limits" using r(3,6) by simp
    show "reject_trailing_bytes limits \<longrightarrow> drop (unat n) tail = []" using r(7) len by auto
  qed
qed

theorem decode_accepts_only_frames_witness:
  "decode_error (try_decode_wireframe Some [] (encode (\<lambda>e. e) [7, 8]) default_limits) = NoError \<and>
   (\<exists>payload rest. encode (\<lambda>e. e) [7, 8] = magic @ to_net32 2 @ payload @ rest \<and> length payload = 2 \<and> payload = [7, 8])"
proof -
  have r: "try_decode_wireframe Some [] (encode (\<lambda>e. e) [7, 8]) default_limits =
      \<lparr>decoded_frame = [7, 8], decode_error = NoError, declared_payload_bytes = 2\<rparr>" by code_simp
  have "decode_error \<lparr>decoded_frame = [7, 8 :: u8], decode_error = NoError, declared_payload_bytes = 2\<rparr> = NoError" by simp
  from decode_accepts_only_frames [OF r this] show ?thesis
    unfolding r by auto
qed

end
