(* ===== verification/Connection_Pool.thy ===== *)
theory Connection_Pool
  imports Circuit_Breaker Outbound_Queue Wire_Frame "HOL-Library.Multiset"
begin

text \<open>
  The connection pool of one remote endpoint, \<^verbatim>\<open>connection_pool.cpp\<close>: circuit breaker, outbound
  queue, round-robin choice of a connection, reconnection with backoff, and the dispatch of received
  frames. A connection is a name; what is sent on it and which connections are closed is recorded, as
  are the timers requested from the event loop and the calls of the installed handlers.
\<close>

section \<open>State\<close>

record pool_config =
  pc_max_attempts :: nat
  initial_backoff :: int
  max_backoff :: int
  pc_outbound_limits :: outbound_limits
  pc_breaker :: breaker_config

datatype pool_metric = SendAccepted | SendRejected

record pool =
  remote_endpoint :: end_point
  pool_config :: pool_config
  active_connections :: "nat list"
  outbound_queue :: outbound_queue
  circuit_breaker :: breaker
  next_index :: u64
  reconnect_attempts :: nat
  reconnect_scheduled :: bool
  shutting_down :: bool
  has_pool_metrics :: bool
  written :: "(nat \<times> u8 list) list"
  closed :: "nat list"
  timers :: "int list"
  pool_metrics :: "pool_metric list"

definition pool_init :: "end_point \<Rightarrow> pool_config \<Rightarrow> bool \<Rightarrow> pool" where
  "pool_init ep cfg metrics = \<lparr>remote_endpoint = ep, pool_config = cfg, active_connections = [],
     outbound_queue = outbound_init (pc_outbound_limits cfg), circuit_breaker = breaker_init (pc_breaker cfg),
     next_index = 0, reconnect_attempts = 0, reconnect_scheduled = False, shutting_down = False,
     has_pool_metrics = metrics, written = [], closed = [], timers = [], pool_metrics = []\<rparr>"

section \<open>Sending\<close>

definition get_connection :: "pool \<Rightarrow> nat option \<times> pool" where
  "get_connection p =
     (if active_connections p = [] then (None, p)
      else
        let index = unat (next_index p) mod length (active_connections p)
        in (Some (active_connections p ! index), p\<lparr>next_index := next_index p + 1\<rparr>))"

definition conn_send :: "nat \<Rightarrow> u8 list \<Rightarrow> pool \<Rightarrow> pool" where
  "conn_send c data p = p\<lparr>written := written p @ [(c, data)]\<rparr>"

definition enqueue_pending :: "int \<Rightarrow> actor_address \<Rightarrow> u8 list \<Rightarrow> pool \<Rightarrow> send_result \<times> pool" where
  "enqueue_pending now tgt encoded p =
     (let (r, q) = try_enqueue \<lparr>pm_target = tgt, pm_data = encoded, enqueued_at = now\<rparr> BestEffort TypeTag_User
                     (outbound_queue p)
      in (r, p\<lparr>outbound_queue := q\<rparr>))"

definition pool_send :: "int \<Rightarrow> actor_address \<Rightarrow> u8 list \<Rightarrow> pool \<Rightarrow> pool" where
  "pool_send now tgt encoded p =
     (if shutting_down p then p
      else
        let (ok, b) = allow_send now (circuit_breaker p);
            p = p\<lparr>circuit_breaker := b\<rparr>
        in if \<not> ok then p
           else
             let (conn, p) = get_connection p
             in case conn of
                  Some c \<Rightarrow> conn_send c encoded p
                | None \<Rightarrow> snd (enqueue_pending now tgt encoded p))"

definition pool_try_send :: "int \<Rightarrow> actor_address \<Rightarrow> u8 list \<Rightarrow> pool \<Rightarrow> send_result \<times> pool" where
  "pool_try_send now tgt encoded p =
     (if shutting_down p then (ShuttingDown, p)
      else
        let (ok, b) = allow_send now (circuit_breaker p);
            p = p\<lparr>circuit_breaker := b\<rparr>
        in if \<not> ok then (CircuitOpen, p)
           else
             let (conn, p) = get_connection p
             in case conn of
                  Some c \<Rightarrow> (Sent, conn_send c encoded p)
                | None \<Rightarrow>
                    let (r, p) = enqueue_pending now tgt encoded p
                    in (r, if has_pool_metrics p
                           then p\<lparr>pool_metrics := pool_metrics p @ [if r = Sent then SendAccepted else SendRejected]\<rparr>
                           else p))"

definition send_to_remote :: "(end_point \<Rightarrow> end_point) \<Rightarrow> int \<Rightarrow> u8 list \<Rightarrow> pool \<Rightarrow> pool" where
  "send_to_remote reparse now data p =
     snd (pool_try_send now (default_address\<lparr>address_endpoint := reparse (remote_endpoint p)\<rparr>) data p)"

definition is_connected :: "pool \<Rightarrow> bool" where
  "is_connected p \<longleftrightarrow> active_connections p \<noteq> []"

definition pool_abort :: "pool \<Rightarrow> pool" where
  "pool_abort p = p\<lparr>shutting_down := True, closed := closed p @ active_connections p, active_connections := []\<rparr>"

definition pool_drain :: "pool \<Rightarrow> nat \<times> pool" where
  "pool_drain p = (total_messages (outbound_queue p), pool_abort p)"

section \<open>Connections\<close>

lemma dequeue_shrinks:
  "fst (try_dequeue q) = Some m \<Longrightarrow>
    length (control_lane (snd (try_dequeue q))) + length (data_lane (snd (try_dequeue q))) <
    length (control_lane q) + length (data_lane q)"
  by (auto simp: try_dequeue_def Let_def split: list.splits)

lemma queue_get_connection: "get_connection p = (c, p') \<Longrightarrow> outbound_queue p' = outbound_queue p"
  by (auto simp: get_connection_def Let_def split: if_splits)

function flush_pending :: "pool \<Rightarrow> pool" where
  "flush_pending p =
     (let (r, q) = try_dequeue (outbound_queue p)
      in case r of
           None \<Rightarrow> p\<lparr>outbound_queue := q\<rparr>
         | Some msg \<Rightarrow>
             (let (s, p') = get_connection (p\<lparr>outbound_queue := q\<rparr>)
              in case s of
                   Some c \<Rightarrow> flush_pending (conn_send c (pm_data msg) p')
                 | None \<Rightarrow> p'))"
  by pat_completeness auto

termination
proof (relation "measure (\<lambda>p. length (control_lane (outbound_queue p)) + length (data_lane (outbound_queue p)))")
  fix p x r q msg y s p' c
  assume d0: "x = try_dequeue (outbound_queue p)" "(r, q) = x" "r = Some msg"
    and g0: "y = get_connection (p\<lparr>outbound_queue := q\<rparr>)" "(s, p') = y" "s = Some c"
  then have d: "(Some msg, q) = try_dequeue (outbound_queue p)" by simp
  have "outbound_queue p' = q" using queue_get_connection [of "p\<lparr>outbound_queue := q\<rparr>" s p'] g0 by simp
  moreover have "fst (try_dequeue (outbound_queue p)) = Some msg" "snd (try_dequeue (outbound_queue p)) = q"
    using d by (metis fst_conv, metis snd_conv)
  ultimately show "(conn_send c (pm_data msg) p', p) \<in>
      measure (\<lambda>p. length (control_lane (outbound_queue p)) + length (data_lane (outbound_queue p)))"
    using dequeue_shrinks [of "outbound_queue p" msg] by (simp add: conn_send_def)
qed simp

declare flush_pending.simps [simp del]

definition on_connection_ready :: "nat \<Rightarrow> pool \<Rightarrow> pool" where
  "on_connection_ready conn p =
     flush_pending (p\<lparr>active_connections := active_connections p @ [conn],
       circuit_breaker := record_success (circuit_breaker p)\<rparr>)"

fun backoff_after :: "pool_config \<Rightarrow> nat \<Rightarrow> int" where
  "backoff_after cfg 0 = initial_backoff cfg"
| "backoff_after cfg (Suc n) =
     (let b = backoff_after cfg n * 2 in if b > max_backoff cfg then max_backoff cfg else b)"

definition schedule_reconnect :: "pool \<Rightarrow> pool" where
  "schedule_reconnect p =
     (if shutting_down p then p
      else if reconnect_attempts p \<ge> pc_max_attempts (pool_config p) then p
      else if reconnect_scheduled p then p
      else p\<lparr>reconnect_scheduled := True, reconnect_attempts := reconnect_attempts p + 1,
             timers := timers p @ [backoff_after (pool_config p) (reconnect_attempts p)]\<rparr>)"

definition reconnect_timer :: "pool \<Rightarrow> pool" where
  "reconnect_timer p = p\<lparr>reconnect_scheduled := False\<rparr>"

definition on_connection_error :: "int \<Rightarrow> nat \<Rightarrow> pool \<Rightarrow> pool" where
  "on_connection_error now conn p =
     schedule_reconnect (p\<lparr>active_connections := filter (\<lambda>c. c \<noteq> conn) (active_connections p),
       circuit_breaker := record_failure now (circuit_breaker p)\<rparr>)"

definition add_connection :: "nat \<Rightarrow> pool \<Rightarrow> pool" where
  "add_connection conn p = p\<lparr>active_connections := active_connections p @ [conn]\<rparr>"


section \<open>Received frames\<close>

record 't envelope =
  we_payload :: payload_case
  we_flags :: u32
  we_type_tag :: u32
  we_message_id :: u64
  we_data :: "u8 list"
  we_trace :: "'t option"

record handlers =
  sink_active :: bool
  has_spawn_handler :: bool
  has_rpc_handler :: bool
  has_message_handler :: bool

datatype ('t, 'c, 's) frame_call =
    RouteToSink nat "'t envelope"
  | DecodeFailure nat decode_error
  | SpawnHandler u64 's
  | RpcHandler u64 "u8 list" "'c option"
  | MessageHandler "'t envelope"

definition RpcResponse :: u32 where
  "RpcResponse = 8"

definition SpawnResponseTag :: u32 where
  "SpawnResponseTag = 0x11"

text \<open>
  The handler call a received frame leads to. Parsing the envelope, the spawn response and the trace
  context is protobuf's work and a parameter.
\<close>

definition on_frame_received ::
    "(u8 list \<Rightarrow> 't envelope option) \<Rightarrow> 't envelope \<Rightarrow> (u8 list \<Rightarrow> 's option) \<Rightarrow> ('t \<Rightarrow> 'c option) \<Rightarrow>
     handlers \<Rightarrow> u8 list \<Rightarrow> ('t, 'c, 's) frame_call option" where
  "on_frame_received parse blank parse_spawn parse_trace h data =
     (if sink_active h then
        (let decoded = try_decode_wireframe parse blank data default_limits
         in Some (if decode_error decoded = NoError then RouteToSink (length data) (decoded_frame decoded)
                  else DecodeFailure (length data) (decode_error decoded)))
      else
        let frame = decode parse blank data
        in if payload_type_of (we_payload frame) = Data \<and> we_flags frame AND RpcResponse \<noteq> 0 then
             (case (if we_type_tag frame = SpawnResponseTag then parse_spawn (we_data frame) else None) of
                Some resp \<Rightarrow>
                  if has_spawn_handler h then Some (SpawnHandler (we_message_id frame) resp)
                  else if has_rpc_handler h
                  then Some (RpcHandler (we_message_id frame) (we_data frame) (Option.bind (we_trace frame) parse_trace)) else None
              | None \<Rightarrow>
                  if has_rpc_handler h
                  then Some (RpcHandler (we_message_id frame) (we_data frame) (Option.bind (we_trace frame) parse_trace)) else None)
           else if has_message_handler h then Some (MessageHandler frame) else None)"

section \<open>Frames are conserved\<close>

definition queued :: "pool \<Rightarrow> pending_message list" where
  "queued p = control_lane (outbound_queue p) @ data_lane (outbound_queue p)"

definition accounted :: "pool \<Rightarrow> u8 list multiset" where
  "accounted p = mset (map snd (written p)) + mset (map pm_data (queued p))"

lemma dequeue_first:
  "try_dequeue q = (Some m, q') \<Longrightarrow> control_lane q @ data_lane q = m # (control_lane q' @ data_lane q')"
  by (auto simp: try_dequeue_def Let_def split: list.splits)

lemma dequeue_none: "try_dequeue q = (None, q') \<Longrightarrow> control_lane q = [] \<and> data_lane q = [] \<and> q' = q"
  by (auto simp: try_dequeue_def Let_def split: list.splits)

lemma get_connection_Some:
  "active_connections p \<noteq> [] \<Longrightarrow> \<exists>c. get_connection p = (Some c, p\<lparr>next_index := next_index p + 1\<rparr>)"
  by (simp add: get_connection_def Let_def)

lemma flush_all:
  assumes "active_connections p \<noteq> []"
  shows "queued (flush_pending p) = [] \<and> map snd (written (flush_pending p)) = map snd (written p) @ map pm_data (queued p) \<and>
    timers (flush_pending p) = timers p \<and> reconnect_attempts (flush_pending p) = reconnect_attempts p \<and>
    pool_config (flush_pending p) = pool_config p"
  using assms
proof (induction p rule: flush_pending.induct)
  case (1 p)
  obtain r q where d: "try_dequeue (outbound_queue p) = (r, q)" by (rule prod.exhaust)
  show ?case
  proof (cases r)
    case None
    with d dequeue_none [of "outbound_queue p" q] show ?thesis
      by (subst (1 2 3 4 5) flush_pending.simps) (simp add: queued_def)
  next
    case (Some msg)
    obtain c where g: "get_connection (p\<lparr>outbound_queue := q\<rparr>) = (Some c, p\<lparr>outbound_queue := q, next_index := next_index p + 1\<rparr>)"
      using get_connection_Some [of "p\<lparr>outbound_queue := q\<rparr>"] 1(2) by auto
    define p' where "p' = conn_send c (pm_data msg) (p\<lparr>outbound_queue := q, next_index := next_index p + 1\<rparr>)"
    have fl: "flush_pending p = flush_pending p'" using d Some g by (subst flush_pending.simps) (simp add: p'_def)
    have "active_connections p' \<noteq> []" using 1(2) by (simp add: p'_def conn_send_def)
    from 1(1) [OF d [symmetric] refl Some g [symmetric] refl refl, folded p'_def, OF this]
    have IH: "queued (flush_pending p') = [] \<and> map snd (written (flush_pending p')) = map snd (written p') @ map pm_data (queued p') \<and>
      timers (flush_pending p') = timers p' \<and> reconnect_attempts (flush_pending p') = reconnect_attempts p' \<and>
      pool_config (flush_pending p') = pool_config p'" .
    have "queued p = msg # queued p'"
      using dequeue_first [of "outbound_queue p" msg q] d Some by (simp add: queued_def p'_def conn_send_def)
    with IH show ?thesis unfolding fl by (simp add: p'_def conn_send_def)
  qed
qed

text \<open>
  When a connection becomes ready, everything that was waiting is written, the control lane
  first and each lane in the order in which it was filled, and nothing remains queued.
\<close>

theorem ready_flushes_in_order:
  "let p' = on_connection_ready conn p in
     queued p' = [] \<and> map snd (written p') =
       map snd (written p) @ map pm_data (control_lane (outbound_queue p) @ data_lane (outbound_queue p))"
  using flush_all [of "p\<lparr>active_connections := active_connections p @ [conn],
       circuit_breaker := record_success (circuit_breaker p)\<rparr>"]
  by (simp add: on_connection_ready_def queued_def)

datatype pool_event =
    TrySend int actor_address "u8 list" | Ready nat | Failed int nat | TimerFired | Added nat | Aborted

fun pool_step :: "pool_event \<Rightarrow> u8 list list \<times> pool \<Rightarrow> u8 list list \<times> pool" where
  "pool_step (TrySend now tgt encoded) (acc, p) =
     (let (r, p') = pool_try_send now tgt encoded p in (if r = Sent then acc @ [encoded] else acc, p'))"
| "pool_step (Ready conn) (acc, p) = (acc, on_connection_ready conn p)"
| "pool_step (Failed now conn) (acc, p) = (acc, on_connection_error now conn p)"
| "pool_step TimerFired (acc, p) = (acc, reconnect_timer p)"
| "pool_step (Added conn) (acc, p) = (acc, add_connection conn p)"
| "pool_step Aborted (acc, p) = (acc, pool_abort p)"

lemma enqueue_lanes:
  assumes "try_enqueue m mode ttag q = (r, q')"
  shows "mset (control_lane q' @ data_lane q') =
    (if r = Sent then add_mset m (mset (control_lane q @ data_lane q)) else mset (control_lane q @ data_lane q))"
  using assms by (auto simp: try_enqueue_def Let_def split: if_splits)

lemma enqueue_pending_accounted:
  assumes "enqueue_pending now tgt encoded p = (r, p')"
  shows "accounted p' = (if r = Sent then add_mset encoded (accounted p) else accounted p)"
    "timers p' = timers p" "reconnect_attempts p' = reconnect_attempts p" "pool_config p' = pool_config p"
proof -
  let ?m = "\<lparr>pm_target = tgt, pm_data = encoded, enqueued_at = now\<rparr>"
  obtain r' q where e: "try_enqueue ?m BestEffort TypeTag_User (outbound_queue p) = (r', q)" by (rule prod.exhaust)
  with assms have p': "r' = r" "p' = p\<lparr>outbound_queue := q\<rparr>" by (simp_all add: enqueue_pending_def)
  show "accounted p' = (if r = Sent then add_mset encoded (accounted p) else accounted p)"
  proof -
    have "mset (queued p') = (if r = Sent then add_mset ?m (mset (queued p)) else mset (queued p))"
      using enqueue_lanes [OF e] p' by (simp add: queued_def)
    moreover have "written p' = written p" by (simp add: p')
    ultimately show ?thesis by (simp add: accounted_def)
  qed
  show "timers p' = timers p" "reconnect_attempts p' = reconnect_attempts p" "pool_config p' = pool_config p"
    by (simp_all add: p')
qed

lemma try_send_accounted:
  assumes "pool_try_send now tgt encoded p = (r, p')"
  shows "accounted p' = (if r = Sent then add_mset encoded (accounted p) else accounted p) \<and>
    timers p' = timers p \<and> reconnect_attempts p' = reconnect_attempts p \<and> pool_config p' = pool_config p"
proof -
  obtain ok b where b: "allow_send now (circuit_breaker p) = (ok, b)" by (rule prod.exhaust)
  define p1 where "p1 = p\<lparr>circuit_breaker := b\<rparr>"
  obtain c p2 where c: "get_connection p1 = (c, p2)" by (rule prod.exhaust)
  have p2: "accounted p2 = accounted p" "timers p2 = timers p" "reconnect_attempts p2 = reconnect_attempts p"
    "pool_config p2 = pool_config p"
    using c by (auto simp: get_connection_def p1_def accounted_def queued_def Let_def split: if_splits)
  have p1: "accounted p1 = accounted p" by (simp add: p1_def accounted_def queued_def)
  consider "shutting_down p" | "\<not> shutting_down p" "\<not> ok" | k where "\<not> shutting_down p" ok "c = Some k"
    | "\<not> shutting_down p" ok "c = None" by (cases c) auto
  then show ?thesis
  proof cases
    case 3
    with assms b c have "r = Sent" "p' = conn_send k encoded p2" by (simp_all add: pool_try_send_def p1_def)
    then show ?thesis using p2 by (simp add: accounted_def queued_def conn_send_def)
  next
    case 4
    obtain r3 p3 where e: "enqueue_pending now tgt encoded p2 = (r3, p3)" by (rule prod.exhaust)
    with 4 assms b c have "r = r3" "p' = (if has_pool_metrics p3
        then p3\<lparr>pool_metrics := pool_metrics p3 @ [if r3 = Sent then SendAccepted else SendRejected]\<rparr> else p3)"
      by (simp_all add: pool_try_send_def p1_def)
    with enqueue_pending_accounted [OF e] p2 show ?thesis by (simp add: accounted_def queued_def)
  qed (use assms b p1 in \<open>auto simp: pool_try_send_def p1_def accounted_def queued_def\<close>)
qed

definition pool_inv :: "pool_config \<Rightarrow> u8 list list \<times> pool \<Rightarrow> bool" where
  "pool_inv cfg s \<longleftrightarrow> accounted (snd s) = mset (fst s) \<and> pool_config (snd s) = cfg \<and>
     length (timers (snd s)) = reconnect_attempts (snd s) \<and> reconnect_attempts (snd s) \<le> pc_max_attempts cfg"

lemma pool_inv_step: "pool_inv cfg s \<Longrightarrow> pool_inv cfg (pool_step ev s)"
proof (induction ev s rule: pool_step.induct)
  case (1 now tgt encoded acc p)
  obtain r p' where "pool_try_send now tgt encoded p = (r, p')" by (rule prod.exhaust)
  with try_send_accounted [OF this] 1 show ?case by (simp add: pool_inv_def)
next
  case (2 conn acc p)
  define p1 where "p1 = p\<lparr>active_connections := active_connections p @ [conn], circuit_breaker := record_success (circuit_breaker p)\<rparr>"
  have fl: "queued (flush_pending p1) = []"
    "map snd (written (flush_pending p1)) = map snd (written p1) @ map pm_data (queued p1)"
    "timers (flush_pending p1) = timers p" "reconnect_attempts (flush_pending p1) = reconnect_attempts p"
    "pool_config (flush_pending p1) = pool_config p"
    using flush_all [of p1] by (simp_all add: p1_def)
  have "accounted (flush_pending p1) = accounted p1"
    unfolding accounted_def fl(1,2) by (simp only: mset_append list.map mset.simps add_0_right)
  also have "\<dots> = accounted p" by (simp add: p1_def accounted_def queued_def)
  finally show ?case using 2 fl by (simp add: pool_inv_def on_connection_ready_def p1_def)
next
  case (3 now conn acc p)
  then show ?case
    by (auto simp: pool_inv_def on_connection_error_def schedule_reconnect_def accounted_def queued_def)
qed (simp_all add: pool_inv_def reconnect_timer_def add_connection_def pool_abort_def accounted_def queued_def)

text \<open>
  C29. Whatever happens to a pool, the frames for which a send reported success are exactly those
  written to a connection or still queued, so none is lost or duplicated; and over the whole life
  of the pool at most \<open>max_attempts\<close> reconnections are scheduled, however many connections
  succeeded in between.
\<close>

theorem pool_conserves_frames:
  "let (accepted, p) = fold pool_step evs ([], pool_init ep cfg metrics) in
     mset (map snd (written p)) + mset (map pm_data (queued p)) = mset accepted \<and>
     length (timers p) \<le> pc_max_attempts cfg"
proof -
  have "pool_inv cfg ([], pool_init ep cfg metrics)"
    by (simp add: pool_inv_def pool_init_def accounted_def queued_def outbound_init_def)
  moreover have "pool_inv cfg s \<Longrightarrow> pool_inv cfg (fold pool_step evs s)" for s
    by (induction evs arbitrary: s) (simp_all add: pool_inv_step)
  ultimately show ?thesis by (simp add: pool_inv_def accounted_def case_prod_beta)
qed

end
