(* ===== verification/Reliable_Delivery.thy ===== *)
theory Reliable_Delivery
  imports Endpoint "HOL-Library.AList" "HOL-Library.Multiset"
begin

text \<open>
  The two ends of at-least-once delivery: the sender's \<^verbatim>\<open>OutboundTracker\<close> with its retry policy
  and the receiver's \<^verbatim>\<open>DedupCache\<close>. Hash tables are association lists; where the source depends
  on the iteration order of a hash table, the order is a parameter.
\<close>

section \<open>The retry policy\<close>

record retry_policy =
  max_retries :: u32
  rp_initial_backoff :: int
  rp_max_backoff :: int
  backoff_multiplier :: real

definition backoff_for_attempt :: "u32 \<Rightarrow> retry_policy \<Rightarrow> int" where
  "backoff_for_attempt attempt p =
     (if attempt = 0 then 0
      else
        let ms = real_of_int (rp_initial_backoff p) * backoff_multiplier p ^ (unat attempt - 1);
            dur = \<lfloor>ms\<rfloor>
        in if dur > rp_max_backoff p then rp_max_backoff p else dur)"

definition should_retry :: "u32 \<Rightarrow> retry_policy \<Rightarrow> bool" where
  "should_retry attempt p \<longleftrightarrow> attempt < max_retries p"

section \<open>The outbound tracker\<close>

definition time_max :: int where
  "time_max = INT64_MAX"

definition kMaxPendingPerDestination :: nat where
  "kMaxPendingPerDestination = 1024"

record tracker_entry =
  te_message_id :: u64
  te_target :: actor_address
  te_payload :: "u8 list"
  retry_count :: u32
  next_retry_at :: int
  te_deadline :: int

record tracker =
  tr_policy :: retry_policy
  entries :: "(u64 \<times> tracker_entry) list"
  per_dest_count :: "(end_point \<times> nat) list"
  expired :: "tracker_entry list"

definition tracker_init :: "retry_policy \<Rightarrow> tracker" where
  "tracker_init p = \<lparr>tr_policy = p, entries = [], per_dest_count = [], expired = []\<rparr>"

text \<open>A node is named by its endpoint; the source uses the printed endpoint as the key.\<close>

definition te_node :: "tracker_entry \<Rightarrow> end_point" where
  "te_node e = address_endpoint (te_target e)"

definition dest_count :: "end_point \<Rightarrow> tracker \<Rightarrow> nat" where
  "dest_count node t = (case map_of (per_dest_count t) node of None \<Rightarrow> 0 | Some n \<Rightarrow> n)"

definition track :: "u64 \<Rightarrow> actor_address \<Rightarrow> u8 list \<Rightarrow> int \<Rightarrow> tracker \<Rightarrow> bool \<times> tracker" where
  "track msg_id tgt payload deadline t =
     (let node = address_endpoint tgt; n = dest_count node t
      in if n \<ge> kMaxPendingPerDestination then (False, t)
         else (True, t\<lparr>per_dest_count := AList.update node (n + 1) (per_dest_count t),
           entries := AList.update msg_id
             \<lparr>te_message_id = msg_id, te_target = tgt, te_payload = payload, retry_count = 0,
              next_retry_at = time_max, te_deadline = deadline\<rparr> (entries t)\<rparr>))"

definition decr_dest :: "end_point \<Rightarrow> tracker \<Rightarrow> tracker" where
  "decr_dest node t =
     (case map_of (per_dest_count t) node of
        Some n \<Rightarrow>
          if n > 0 then
            (if n - 1 = 0 then t\<lparr>per_dest_count := AList.delete node (per_dest_count t)\<rparr>
             else t\<lparr>per_dest_count := AList.update node (n - 1) (per_dest_count t)\<rparr>)
          else t
      | None \<Rightarrow> t)"

definition on_ack :: "u64 \<Rightarrow> tracker \<Rightarrow> tracker" where
  "on_ack msg_id t =
     (case map_of (entries t) msg_id of
        None \<Rightarrow> t
      | Some e \<Rightarrow> let t = decr_dest (te_node e) t in t\<lparr>entries := AList.delete msg_id (entries t)\<rparr>)"

definition expire_entry :: "u64 \<Rightarrow> tracker_entry \<Rightarrow> tracker \<Rightarrow> tracker" where
  "expire_entry msg_id e t =
     (let t = decr_dest (te_node e) t
      in t\<lparr>expired := expired t @ [e], entries := AList.delete msg_id (entries t)\<rparr>)"

definition on_nack :: "int \<Rightarrow> u64 \<Rightarrow> int \<Rightarrow> tracker \<Rightarrow> tracker" where
  "on_nack now msg_id retry_after t =
     (case map_of (entries t) msg_id of
        None \<Rightarrow> t
      | Some e \<Rightarrow>
          if \<not> should_retry (retry_count e) (tr_policy t) then expire_entry msg_id e t
          else t\<lparr>entries := AList.update msg_id
                 (e\<lparr>retry_count := retry_count e + 1, next_retry_at := now + retry_after\<rparr>) (entries t)\<rparr>)"

definition tick_entry :: "int \<Rightarrow> u64 \<times> tracker_entry \<Rightarrow> tracker \<Rightarrow> tracker" where
  "tick_entry now kv t =
     (case kv of (msg_id, e) \<Rightarrow>
        if te_deadline e \<noteq> time_max \<and> now \<ge> te_deadline e then expire_entry msg_id e t
        else if now \<ge> next_retry_at e \<and> next_retry_at e \<noteq> time_max then
          (if should_retry (retry_count e) (tr_policy t) then
             (let n = retry_count e + 1
              in t\<lparr>entries := AList.update msg_id
                   (e\<lparr>retry_count := n, next_retry_at := now + backoff_for_attempt n (tr_policy t)\<rparr>) (entries t)\<rparr>)
           else expire_entry msg_id e t)
        else t)"

definition tick :: "int \<Rightarrow> tracker \<Rightarrow> tracker" where
  "tick now t = fold (tick_entry now) (entries t) t"

definition fail_pending_for_node :: "end_point \<Rightarrow> tracker \<Rightarrow> tracker" where
  "fail_pending_for_node node t =
     t\<lparr>expired := expired t @ [e. (k, e) \<leftarrow> entries t, te_node e = node],
       entries := filter (\<lambda>(k, e). te_node e \<noteq> node) (entries t),
       per_dest_count := AList.delete node (per_dest_count t)\<rparr>"

definition pending_count :: "tracker \<Rightarrow> nat" where
  "pending_count t = length (entries t)"

definition drain_expired :: "tracker \<Rightarrow> tracker_entry list \<times> tracker" where
  "drain_expired t = (expired t, t\<lparr>expired := []\<rparr>)"

section \<open>The deduplication cache\<close>

type_synonym dedup_key = "end_point \<times> u64 \<times> u64"

record dedup_cache =
  max_entries :: nat
  ttl_ns :: u64
  cached :: "(dedup_key \<times> u64) list"
  hits :: u64
  inserts :: u64

definition dedup_init :: "nat \<Rightarrow> u64 \<Rightarrow> dedup_cache" where
  "dedup_init n ttl = \<lparr>max_entries = n, ttl_ns = ttl, cached = [], hits = 0, inserts = 0\<rparr>"

definition is_duplicate ::
    "((dedup_key \<times> u64) list \<Rightarrow> (dedup_key \<times> u64) list) \<Rightarrow> dedup_key \<Rightarrow> dedup_cache \<Rightarrow> bool \<times> dedup_cache" where
  "is_duplicate iteration key c =
     (if map_of (cached c) key \<noteq> None then (True, c\<lparr>hits := hits c + 1\<rparr>)
      else
        let c = c\<lparr>cached := AList.update key 0 (cached c), inserts := inserts c + 1\<rparr>
        in if length (cached c) > max_entries c then
             (let to_remove = (if max_entries c div 10 = 0 then 1 else max_entries c div 10)
              in (False, c\<lparr>cached := drop to_remove (iteration (cached c))\<rparr>))
           else (False, c))"

definition purge_expired :: "u64 \<Rightarrow> dedup_cache \<Rightarrow> dedup_cache" where
  "purge_expired now_ns c =
     c\<lparr>cached := concat (map (\<lambda>(k, ts). if ts = 0 then [(k, now_ns)]
         else if now_ns - ts > ttl_ns c then [] else [(k, ts)]) (cached c))\<rparr>"

definition dedup_remove :: "dedup_key \<Rightarrow> dedup_cache \<Rightarrow> dedup_cache" where
  "dedup_remove key c = c\<lparr>cached := AList.delete key (cached c)\<rparr>"

section \<open>The tracker keeps account\<close>

lemma mset_delete:
  "distinct (map fst xs) \<Longrightarrow> map_of xs k = Some v \<Longrightarrow> mset xs = add_mset (k, v) (mset (AList.delete k xs))"
proof (induction xs)
  case (Cons x xs)
  show ?case
  proof (cases "fst x = k")
    case True
    with Cons.prems have "k \<notin> fst ` set xs" "x = (k, v)" by (cases x; auto)+
    then show ?thesis by (simp add: delete_idem)
  next
    case False
    with Cons show ?thesis by (cases x) (auto split: if_splits)
  qed
qed simp

lemma mset_update_new: "map_of xs k = None \<Longrightarrow> mset (AList.update k v xs) = add_mset (k, v) (mset xs)"
  by (induction xs) auto

lemma mset_update_old:
  "distinct (map fst xs) \<Longrightarrow> map_of xs k = Some v \<Longrightarrow>
    mset (AList.update k v' xs) = add_mset (k, v') (mset (AList.delete k xs))"
proof (induction xs)
  case (Cons x xs)
  show ?case
  proof (cases "fst x = k")
    case True
    with Cons.prems have "k \<notin> fst ` set xs" by (cases x) auto
    with True show ?thesis by (cases x) (simp add: delete_idem)
  next
    case False
    with Cons show ?thesis by (cases x) (auto split: if_splits)
  qed
qed simp

definition pending_for :: "end_point \<Rightarrow> tracker \<Rightarrow> nat" where
  "pending_for node t = size (filter_mset (\<lambda>(k, e). te_node e = node) (mset (entries t)))"

definition tracker_inv :: "u64 multiset \<Rightarrow> tracker \<Rightarrow> bool" where
  "tracker_inv ids t \<longleftrightarrow> distinct (map fst (entries t)) \<and> (\<forall>(k, e) \<in> set (entries t). te_message_id e = k) \<and>
     image_mset fst (mset (entries t)) + mset (map te_message_id (expired t)) = ids \<and>
     (\<forall>node. dest_count node t = pending_for node t) \<and> (\<forall>node. pending_for node t \<le> kMaxPendingPerDestination)"

lemma dest_count_decr: "dest_count n (decr_dest node t) = (if n = node then dest_count n t - 1 else dest_count n t)"
  by (auto simp: dest_count_def decr_dest_def update_conv' delete_conv' split: option.splits)

lemma decr_dest_simps [simp]:
  "entries (decr_dest node t) = entries t" "expired (decr_dest node t) = expired t" "tr_policy (decr_dest node t) = tr_policy t"
  by (simp_all add: decr_dest_def split: option.splits)

lemma dest_count_cong [simp]:
  "dest_count n (t\<lparr>entries := x\<rparr>) = dest_count n t" "dest_count n (t\<lparr>expired := y\<rparr>) = dest_count n t"
  by (simp_all add: dest_count_def)

lemma removed_entry:
  assumes "tracker_inv ids t" "map_of (entries t) k = Some e"
  shows "pending_for node t = pending_for node (t\<lparr>entries := AList.delete k (entries t)\<rparr>) + (if te_node e = node then 1 else 0)"
    "te_message_id e = k" "image_mset fst (mset (entries t)) = add_mset k (image_mset fst (mset (AList.delete k (entries t))))"
    "distinct (map fst (AList.delete k (entries t)))"
proof -
  have d: "distinct (map fst (entries t))" and same: "\<forall>(k, e) \<in> set (entries t). te_message_id e = k"
    using assms(1) by (simp_all add: tracker_inv_def)
  note m = mset_delete [OF d assms(2)]
  show "pending_for node t = pending_for node (t\<lparr>entries := AList.delete k (entries t)\<rparr>) + (if te_node e = node then 1 else 0)"
    by (simp add: pending_for_def m)
  show "te_message_id e = k" using map_of_SomeD [OF assms(2)] same by auto
  show "image_mset fst (mset (entries t)) = add_mset k (image_mset fst (mset (AList.delete k (entries t))))" by (simp add: m)
  show "distinct (map fst (AList.delete k (entries t)))" using d by (rule distinct_delete)
qed

lemma set_delete_subset: "set (AList.delete k xs) \<subseteq> set xs"
  by (auto simp: AList.delete_eq)

lemma removed_counts:
  assumes "tracker_inv ids t" "map_of (entries t) k = Some e" "entries t' = AList.delete k (entries t)"
    and "\<And>n. dest_count n t' = dest_count n (decr_dest (te_node e) t)"
  shows "(\<forall>node. dest_count node t' = pending_for node t') \<and> (\<forall>node. pending_for node t' \<le> kMaxPendingPerDestination)"
proof -
  have p: "pending_for node t = pending_for node t' + (if te_node e = node then 1 else 0)" for node
    using removed_entry(1) [OF assms(1,2), of node] assms(3) by (simp add: pending_for_def)
  have "dest_count node t = pending_for node t" "pending_for node t \<le> kMaxPendingPerDestination" for node
    using assms(1) by (simp_all add: tracker_inv_def)
  with p assms(4) have "dest_count node t' = pending_for node t' \<and> pending_for node t' \<le> kMaxPendingPerDestination" for node
    by (metis (full_types) dest_count_decr add_diff_cancel_right' add_leD1 add_0_right)
  then show ?thesis by blast
qed

lemma tracker_inv_ack:
  assumes "tracker_inv ids t" "map_of (entries t) k = Some e"
  shows "tracker_inv (ids - {#k#}) (on_ack k t)"
proof -
  note r = removed_entry [OF assms]
  have x: "on_ack k t = (decr_dest (te_node e) t)\<lparr>entries := AList.delete k (entries t)\<rparr>"
    using assms(2) by (simp add: on_ack_def Let_def)
  have "(\<forall>node. dest_count node (on_ack k t) = pending_for node (on_ack k t)) \<and>
      (\<forall>node. pending_for node (on_ack k t) \<le> kMaxPendingPerDestination)"
    by (rule removed_counts [OF assms]) (simp_all add: x)
  moreover have "\<forall>(k, e) \<in> set (entries (on_ack k t)). te_message_id e = k"
    using assms(1) set_delete_subset [of k "entries t"] by (auto simp: x tracker_inv_def)
  moreover have "ids - {#k#} = image_mset fst (mset (AList.delete k (entries t))) + mset (map te_message_id (expired t))"
    using assms(1) r(3) by (auto simp: tracker_inv_def)
  ultimately show ?thesis using r(4) unfolding tracker_inv_def by (simp add: x)
qed

lemma tracker_inv_expire:
  assumes "tracker_inv ids t" "map_of (entries t) k = Some e"
  shows "tracker_inv ids (expire_entry k e t)"
proof -
  note r = removed_entry [OF assms]
  have x: "expire_entry k e t = (decr_dest (te_node e) t)\<lparr>expired := expired t @ [e], entries := AList.delete k (entries t)\<rparr>"
    by (simp add: expire_entry_def Let_def)
  have "(\<forall>node. dest_count node (expire_entry k e t) = pending_for node (expire_entry k e t)) \<and>
      (\<forall>node. pending_for node (expire_entry k e t) \<le> kMaxPendingPerDestination)"
    by (rule removed_counts [OF assms]) (simp_all add: x)
  moreover have "\<forall>(k, e) \<in> set (entries (expire_entry k e t)). te_message_id e = k"
    using assms(1) set_delete_subset [of k "entries t"] by (auto simp: x tracker_inv_def)
  moreover have "ids = image_mset fst (mset (AList.delete k (entries t))) + mset (map te_message_id (expired t @ [e]))"
    using assms(1) r(2,3) by (auto simp: tracker_inv_def)
  ultimately show ?thesis using r(4) unfolding tracker_inv_def by (simp add: x)
qed

lemma tracker_inv_update:
  assumes "tracker_inv ids t" "map_of (entries t) k = Some e" "te_node e' = te_node e" "te_message_id e' = te_message_id e"
  shows "tracker_inv ids (t\<lparr>entries := AList.update k e' (entries t)\<rparr>)"
proof -
  have d: "distinct (map fst (entries t))" using assms(1) by (simp add: tracker_inv_def)
  note r = removed_entry [OF assms(1,2)] and u = mset_update_old [OF d assms(2), of e'] and m = mset_delete [OF d assms(2)]
  have "\<forall>(k, e) \<in> set (AList.update k e' (entries t)). te_message_id e = k"
  proof -
    have "set (AList.update k e' (entries t)) = insert (k, e') (set (AList.delete k (entries t)))"
      using arg_cong [OF u, of set_mset] by simp
    then show ?thesis using assms r set_delete_subset [of k "entries t"] by (auto simp: tracker_inv_def)
  qed
  moreover have "pending_for node (t\<lparr>entries := AList.update k e' (entries t)\<rparr>) = pending_for node t" for node
    using assms(3) by (simp add: pending_for_def u m)
  moreover have "image_mset fst (mset (AList.update k e' (entries t))) = image_mset fst (mset (entries t))" by (simp add: u m)
  ultimately show ?thesis using assms(1) by (simp add: tracker_inv_def distinct_update)
qed


lemma tick_entry_inv:
  assumes "tracker_inv ids t" "map_of (entries t) k = Some e"
  shows "tracker_inv ids (tick_entry now (k, e) t)"
  using assms tracker_inv_expire [OF assms] tracker_inv_update [OF assms]
  by (simp add: tick_entry_def Let_def te_node_def)

lemma tick_entry_others: "k' \<noteq> k \<Longrightarrow> map_of (entries (tick_entry now (k, e) t)) k' = map_of (entries t) k'"
  by (simp add: tick_entry_def expire_entry_def Let_def update_conv' delete_conv')

lemma tick_fold_inv:
  assumes "tracker_inv ids t" "distinct (map fst xs)" "\<forall>(k, e) \<in> set xs. map_of (entries t) k = Some e"
  shows "tracker_inv ids (fold (tick_entry now) xs t)"
  using assms
proof (induction xs arbitrary: t)
  case (Cons x xs)
  obtain k e where x: "x = (k, e)" by (cases x)
  have "tracker_inv ids (tick_entry now x t)" using Cons.prems x by (simp add: tick_entry_inv)
  moreover have "\<forall>(k', e') \<in> set xs. map_of (entries (tick_entry now x t)) k' = Some e'"
  proof clarify
    fix k' e' assume m: "(k', e') \<in> set xs"
    then have "k' \<noteq> k" using Cons.prems(2) x by force
    moreover have "map_of (entries t) k' = Some e'" using m Cons.prems(3) by auto
    ultimately show "map_of (entries (tick_entry now x t)) k' = Some e'"
      unfolding x by (simp add: tick_entry_others)
  qed
  ultimately show ?case using Cons.IH Cons.prems(2) by simp
qed simp

lemma tracker_inv_tick: "tracker_inv ids t \<Longrightarrow> tracker_inv ids (tick now t)"
  unfolding tick_def by (rule tick_fold_inv) (auto simp: tracker_inv_def)

lemma tracker_inv_nack: "tracker_inv ids t \<Longrightarrow> tracker_inv ids (on_nack now k after t)"
  by (auto simp: on_nack_def te_node_def split: option.splits intro: tracker_inv_expire tracker_inv_update)

lemma tracker_inv_fail:
  assumes "tracker_inv ids t"
  shows "tracker_inv ids (fail_pending_for_node node t)"
proof -
  let ?t = "fail_pending_for_node node t" and ?P = "\<lambda>(k :: u64, e). te_node e = node"
  have same: "\<forall>(k, e) \<in> set (entries t). te_message_id e = k" and d: "distinct (map fst (entries t))"
    and ids: "image_mset fst (mset (entries t)) + mset (map te_message_id (expired t)) = ids"
    and counts: "\<And>n. dest_count n t = pending_for n t" "\<And>n. pending_for n t \<le> kMaxPendingPerDestination"
    using assms by (simp_all add: tracker_inv_def)
  have e: "entries ?t = filter (\<lambda>x. \<not> ?P x) (entries t)"
    by (simp add: fail_pending_for_node_def split_def)
  have x: "mset (map te_message_id (expired ?t)) = mset (map te_message_id (expired t)) + image_mset fst (filter_mset ?P (mset (entries t)))"
  proof -
    have "map te_message_id [e. (k, e) \<leftarrow> xs, te_node e = node] = map fst (filter ?P xs)"
      if "\<forall>(k, e) \<in> set xs. te_message_id e = k" for xs
      using that by (induction xs) (auto split: if_splits)
    from arg_cong [OF this [OF same], of mset] show ?thesis
      by (simp add: fail_pending_for_node_def flip: mset_map mset_filter)
  qed
  have p: "pending_for n ?t = (if n = node then 0 else pending_for n t)" for n
  proof -
    have "filter_mset (\<lambda>(k, e). te_node e = n) (filter_mset (\<lambda>x. \<not> ?P x) M) =
        (if n = node then {#} else filter_mset (\<lambda>(k, e). te_node e = n) M)" for M :: "(u64 \<times> tracker_entry) multiset"
      by (induction M) auto
    then show ?thesis by (simp add: pending_for_def e mset_filter)
  qed
  have c: "dest_count n ?t = (if n = node then 0 else dest_count n t)" for n
    by (simp add: dest_count_def fail_pending_for_node_def delete_conv')
  have "image_mset fst (mset (entries ?t)) + mset (map te_message_id (expired ?t)) = ids"
    using ids multiset_partition [of "mset (entries t)" ?P] unfolding e x mset_filter
    by (metis (no_types, lifting) add.assoc add.commute image_mset_union)
  then show ?thesis
    using same d p c counts by (auto simp: tracker_inv_def e distinct_map_filter)
qed

lemma tracker_inv_track:
  assumes "tracker_inv ids t" "map_of (entries t) k = None" "track k tgt payload deadline t = (ok, t')"
  shows "tracker_inv (if ok then add_mset k ids else ids) t'"
proof (cases ok)
  case False
  then show ?thesis using assms by (auto simp: track_def Let_def split: if_splits)
next
  case True
  let ?e = "\<lparr>te_message_id = k, te_target = tgt, te_payload = payload, retry_count = 0, next_retry_at = time_max, te_deadline = deadline\<rparr>"
  have n: "dest_count (address_endpoint tgt) t < kMaxPendingPerDestination"
    and t': "t' = t\<lparr>per_dest_count := AList.update (address_endpoint tgt) (dest_count (address_endpoint tgt) t + 1) (per_dest_count t),
      entries := AList.update k ?e (entries t)\<rparr>"
    using True assms(3) by (auto simp: track_def Let_def split: if_splits)
  have inv: "distinct (map fst (entries t))" "\<forall>(k, e) \<in> set (entries t). te_message_id e = k"
    "image_mset fst (mset (entries t)) + mset (map te_message_id (expired t)) = ids"
    "\<And>n. dest_count n t = pending_for n t" "\<And>n. pending_for n t \<le> kMaxPendingPerDestination"
    using assms(1) by (simp_all add: tracker_inv_def)
  note u = mset_update_new [OF assms(2), of ?e]
  have s: "set (AList.update k ?e (entries t)) = insert (k, ?e) (set (entries t))" using arg_cong [OF u, of set_mset] by simp
  have p: "pending_for n t' = pending_for n t + (if n = address_endpoint tgt then 1 else 0)" for n
    by (simp add: pending_for_def t' u te_node_def)
  have c: "dest_count n t' = dest_count n t + (if n = address_endpoint tgt then 1 else 0)" for n
    by (simp add: dest_count_def t' update_conv')
  have b: "pending_for n t' \<le> kMaxPendingPerDestination" for n
  proof (cases "n = address_endpoint tgt")
    case True
    then show ?thesis using n inv(4) p by simp
  next
    case False
    then show ?thesis using inv(5) p by simp
  qed
  have "distinct (map fst (entries t'))" "\<forall>(k, e) \<in> set (entries t'). te_message_id e = k"
    "image_mset fst (mset (entries t')) + mset (map te_message_id (expired t')) = add_mset k ids"
    using inv u s by (auto simp: t' distinct_update)
  then show ?thesis using True b c p inv(4) by (simp add: tracker_inv_def)
qed


datatype tracker_event =
    Track u64 actor_address "u8 list" int | AckReceived u64 | NackReceived int u64 int | Tick int | NodeFailed end_point | DrainExpired

record tracker_log =
  tl_tracker :: tracker
  accepted :: "u64 list"
  acked :: "u64 list"
  drained :: "u64 list"

fun tracker_step :: "tracker_event \<Rightarrow> tracker_log \<Rightarrow> tracker_log" where
  "tracker_step (Track k tgt payload deadline) l =
     (let (ok, t) = track k tgt payload deadline (tl_tracker l)
      in l\<lparr>tl_tracker := t, accepted := (if ok then accepted l @ [k] else accepted l)\<rparr>)"
| "tracker_step (AckReceived k) l =
     l\<lparr>tl_tracker := on_ack k (tl_tracker l),
       acked := (if map_of (entries (tl_tracker l)) k = None then acked l else acked l @ [k])\<rparr>"
| "tracker_step (NackReceived now k after) l = l\<lparr>tl_tracker := on_nack now k after (tl_tracker l)\<rparr>"
| "tracker_step (Tick now) l = l\<lparr>tl_tracker := tick now (tl_tracker l)\<rparr>"
| "tracker_step (NodeFailed node) l = l\<lparr>tl_tracker := fail_pending_for_node node (tl_tracker l)\<rparr>"
| "tracker_step DrainExpired l =
     (let (es, t) = drain_expired (tl_tracker l) in l\<lparr>tl_tracker := t, drained := drained l @ map te_message_id es\<rparr>)"

definition log_init :: "retry_policy \<Rightarrow> tracker_log" where
  "log_init p = \<lparr>tl_tracker = tracker_init p, accepted = [], acked = [], drained = []\<rparr>"

definition log_inv :: "u64 set \<Rightarrow> tracker_log \<Rightarrow> bool" where
  "log_inv ids l \<longleftrightarrow> set (accepted l) \<subseteq> ids \<and>
     (\<exists>ids. tracker_inv ids (tl_tracker l) \<and> mset (accepted l) = ids + mset (acked l) + mset (drained l))"

definition tracked_ids :: "tracker_event list \<Rightarrow> u64 list" where
  "tracked_ids evs = concat (map (\<lambda>ev. case ev of Track k _ _ _ \<Rightarrow> [k] | _ \<Rightarrow> []) evs)"


lemma log_inv_step:
  assumes "log_inv ids l" "set (tracked_ids [ev]) \<inter> ids = {}"
  shows "log_inv (ids \<union> set (tracked_ids [ev])) (tracker_step ev l)"
proof -
  obtain js where i: "tracker_inv js (tl_tracker l)" "mset (accepted l) = js + mset (acked l) + mset (drained l)"
    and sub: "set (accepted l) \<subseteq> ids" using assms(1) by (auto simp: log_inv_def)
  have sub2: "set_mset js \<subseteq> set (accepted l)" using arg_cong [OF i(2), of set_mset] by auto
  have ent: "k \<in># js" if "map_of (entries (tl_tracker l)) k = Some e" for k e
    using i(1) map_of_SomeD [OF that] by (force simp: tracker_inv_def)
  show ?thesis
  proof (cases ev)
    case (Track k tgt payload deadline)
    then have "k \<notin># js" using assms(2) sub2 sub by (auto simp: tracked_ids_def)
    then have "map_of (entries (tl_tracker l)) k = None" using ent by (cases "map_of (entries (tl_tracker l)) k") auto
    moreover obtain ok t where t: "track k tgt payload deadline (tl_tracker l) = (ok, t)" by (rule prod.exhaust)
    ultimately have "tracker_inv (if ok then add_mset k js else js) t" using i(1) by (blast intro: tracker_inv_track)
    then show ?thesis using Track t i(2) sub by (cases ok) (auto simp: log_inv_def tracked_ids_def)
  next
    case (AckReceived k)
    show ?thesis
    proof (cases "map_of (entries (tl_tracker l)) k")
      case None
      then show ?thesis using AckReceived assms(1) by (simp add: log_inv_def on_ack_def tracked_ids_def)
    next
      case (Some e)
      then have "tracker_inv (js - {#k#}) (on_ack k (tl_tracker l))" "k \<in># js" using tracker_inv_ack [OF i(1)] ent by blast+
      then show ?thesis using AckReceived Some i(2) sub by (auto simp: log_inv_def tracked_ids_def intro!: exI [of _ "js - {#k#}"])
    qed
  next
    case DrainExpired
    have "tracker_inv (image_mset fst (mset (entries (tl_tracker l)))) ((tl_tracker l)\<lparr>expired := []\<rparr>)"
      "js = image_mset fst (mset (entries (tl_tracker l))) + mset (map te_message_id (expired (tl_tracker l)))"
      using i(1) by (auto simp: tracker_inv_def pending_for_def)
    then show ?thesis using DrainExpired i(2) sub
      by (auto simp: log_inv_def drain_expired_def tracked_ids_def intro!: exI [of _ "image_mset fst (mset (entries (tl_tracker l)))"])
  qed (use i sub in \<open>auto simp: log_inv_def tracked_ids_def intro: tracker_inv_nack tracker_inv_tick tracker_inv_fail\<close>)
qed

lemma tracked_ids_Cons: "tracked_ids (ev # evs) = tracked_ids [ev] @ tracked_ids evs"
  by (simp add: tracked_ids_def)

lemma log_inv_run:
  "log_inv ids l \<Longrightarrow> distinct (tracked_ids evs) \<Longrightarrow> set (tracked_ids evs) \<inter> ids = {} \<Longrightarrow>
    \<exists>ids'. log_inv ids' (fold tracker_step evs l)"
proof (induction evs arbitrary: ids l)
  case (Cons ev evs)
  have *: "distinct (tracked_ids [ev] @ tracked_ids evs)" "set (tracked_ids [ev] @ tracked_ids evs) \<inter> ids = {}"
    using Cons.prems(2,3) by (metis tracked_ids_Cons)+
  then have "log_inv (ids \<union> set (tracked_ids [ev])) (tracker_step ev l)" using Cons.prems(1) by (intro log_inv_step) auto
  moreover have "distinct (tracked_ids evs)" "set (tracked_ids evs) \<inter> (ids \<union> set (tracked_ids [ev])) = {}" using * by auto
  ultimately show ?case using Cons.IH by simp
qed auto

text \<open>
  C31. As long as every message gets an identifier of its own, the tracker loses nothing: every
  message it accepted is acknowledged, drained as expired, waiting to be drained, or pending, and
  is so exactly once; and the number of pending messages of a destination is counted exactly and
  never exceeds 1024.
\<close>

theorem tracker_accounts_for_messages:
  assumes "distinct (tracked_ids evs)"
  shows "let l = fold tracker_step evs (log_init p); t = tl_tracker l in
     mset (accepted l) = mset (acked l) + mset (drained l) + mset (map te_message_id (expired t)) + mset (map fst (entries t)) \<and>
     (\<forall>node. dest_count node t = length (filter (\<lambda>(k, e). te_node e = node) (entries t)) \<and> dest_count node t \<le> 1024)"
proof -
  have "log_inv {} (log_init p)"
    by (auto simp: log_inv_def log_init_def tracker_init_def tracker_inv_def dest_count_def pending_for_def)
  then obtain ids where "log_inv ids (fold tracker_step evs (log_init p))" using log_inv_run [OF _ assms] by auto
  then show ?thesis
    by (auto simp: log_inv_def tracker_inv_def pending_for_def kMaxPendingPerDestination_def Let_def
        simp flip: mset_filter)
qed


definition sample_policy :: retry_policy where
  "sample_policy = \<lparr>max_retries = 1, rp_initial_backoff = 100, rp_max_backoff = 1000, backoff_multiplier = 2\<rparr>"

definition sample_target :: actor_address where
  "sample_target = default_address\<lparr>address_endpoint := Ipv4Endpoint 0x0A000001 0x5000\<rparr>"

theorem tracker_accounts_for_messages_witness:
  "let l = fold tracker_step [Track 1 sample_target [7] 50, Track 2 sample_target [8] 1000, Track 3 sample_target [9] time_max,
        AckReceived 3, NackReceived 10 2 5, NackReceived 20 2 5, Tick 60, DrainExpired] (log_init sample_policy);
       t = tl_tracker l in
     mset (accepted l) = mset (acked l) + mset (drained l) + mset (map te_message_id (expired t)) + mset (map fst (entries t)) \<and>
     (\<forall>node. dest_count node t = length (filter (\<lambda>(k, e). te_node e = node) (entries t)) \<and> dest_count node t \<le> 1024)"
  by (rule tracker_accounts_for_messages) (simp add: tracked_ids_def)

section \<open>Silence\<close>

lemma tick_fold_keeps:
  assumes "map_of (entries t) k = Some e" "te_deadline e = time_max" "next_retry_at e = time_max"
    and "distinct (map fst xs)" "\<forall>(k', e') \<in> set xs. k' = k \<longrightarrow> e' = e"
  shows "map_of (entries (fold (tick_entry now) xs t)) k = Some e"
  using assms
proof (induction xs arbitrary: t)
  case (Cons x xs)
  obtain k' e' where x: "x = (k', e')" by (cases x)
  have "map_of (entries (tick_entry now x t)) k = Some e"
  proof (cases "k' = k")
    case True
    with Cons.prems x show ?thesis by (simp add: tick_entry_def)
  next
    case False
    with Cons.prems(1) show ?thesis unfolding x by (simp add: tick_entry_others)
  qed
  with Cons show ?case by simp
qed simp

lemma tick_keeps_distinct: "distinct (map fst (entries t)) \<Longrightarrow> distinct (map fst (entries (tick now t)))"
proof -
  have step: "distinct (map fst (entries t)) \<Longrightarrow> distinct (map fst (entries (tick_entry now kv t)))" for kv t
    by (cases kv) (simp add: tick_entry_def expire_entry_def Let_def distinct_update distinct_delete)
  have "distinct (map fst (entries t)) \<Longrightarrow> distinct (map fst (entries (fold (tick_entry now) xs t)))" for xs t
    by (induction xs arbitrary: t) (simp_all add: step)
  then show "distinct (map fst (entries t)) \<Longrightarrow> distinct (map fst (entries (tick now t)))" by (simp add: tick_def)
qed



section \<open>Deduplication\<close>

datatype dedup_op = Check dedup_key | Purge u64 | Remove dedup_key

fun dedup_do ::
    "((dedup_key \<times> u64) list \<Rightarrow> (dedup_key \<times> u64) list) \<Rightarrow> dedup_op \<Rightarrow> dedup_cache \<Rightarrow> dedup_cache" where
  "dedup_do iteration (Check k) c = snd (is_duplicate iteration k c)"
| "dedup_do iteration (Purge now) c = purge_expired now c"
| "dedup_do iteration (Remove k) c = dedup_remove k c"

definition presented :: "dedup_key \<Rightarrow> dedup_op list \<Rightarrow> bool" where
  "presented k ops = fold (\<lambda>op b. if op = Check k then True else if op = Remove k then False else b) ops False"

lemma presented_snoc: "presented k (ops @ [op]) \<longleftrightarrow> op = Check k \<or> presented k ops \<and> op \<noteq> Remove k"
  by (simp add: presented_def)

lemma keys_update: "fst ` set (AList.update k v xs) = insert k (fst ` set xs)"
  by (induction xs) auto

lemma purge_list:
  fixes xs :: "('k \<times> u64) list" and now ttl :: u64
  defines "f \<equiv> \<lambda>(k :: 'k, ts :: u64). if ts = 0 then [(k, now)] else if now - ts > ttl then [] else [(k, ts)]"
  shows "length (concat (map f xs)) \<le> length xs" "fst ` set (concat (map f xs)) \<subseteq> fst ` set xs"
proof -
  have "length (concat (map f xs)) \<le> length xs \<and> fst ` set (concat (map f xs)) \<subseteq> fst ` set xs"
  proof (induction xs)
    case (Cons x xs)
    have 1: "length (f x) \<le> 1" "fst ` set (f x) \<subseteq> {fst x}" by (cases x; simp add: f_def)+
    have eq: "fst ` set (concat (map f (x # xs))) = fst ` set (f x) \<union> fst ` set (concat (map f xs))"
      by (simp add: image_Un)
    have "fst ` set (concat (map f (x # xs))) \<subseteq> fst ` set (x # xs)"
      unfolding eq list.set image_insert using 1(2) Cons.IH by blast
    moreover have "length (concat (map f (x # xs))) \<le> length (x # xs)" using 1(1) Cons.IH by simp
    ultimately show ?case by blast
  qed simp
  then show "length (concat (map f xs)) \<le> length xs" "fst ` set (concat (map f xs)) \<subseteq> fst ` set xs" by simp_all
qed

definition dedup_inv :: "nat \<Rightarrow> dedup_op list \<Rightarrow> dedup_cache \<Rightarrow> bool" where
  "dedup_inv n ops c \<longleftrightarrow> max_entries c = n \<and> length (cached c) \<le> n \<and> (\<forall>k \<in> fst ` set (cached c). presented k ops)"

lemma dedup_inv_check:
  assumes "\<And>xs. mset (iteration xs) = mset xs" "dedup_inv n ops c"
  shows "dedup_inv n (ops @ [Check k]) (snd (is_duplicate iteration k c))"
proof (cases "map_of (cached c) k")
  case (Some ts)
  then show ?thesis using assms(2) by (auto simp: is_duplicate_def dedup_inv_def presented_snoc)
next
  case None
  let ?new = "AList.update k 0 (cached c)"
  have len: "length ?new = Suc (length (cached c))"
    using arg_cong [OF mset_update_new [OF None, of 0], of size] by simp
  have s: "set (iteration xs) = set xs" "length (iteration xs) = length xs" for xs
    using assms(1) by (metis set_mset_mset, metis size_mset)
  define r where "r = (if n div 10 = 0 then 1 else n div 10)"
  have n: "max_entries c = n" "length (cached c) \<le> n" "\<forall>k \<in> fst ` set (cached c). presented k ops"
    using assms(2) by (simp_all add: dedup_inv_def)
  define c' where "c' = snd (is_duplicate iteration k c)"
  have c': "max_entries c' = n" "cached c' = (if length ?new > n then drop r (iteration ?new) else ?new)"
    using None n(1) by (simp_all add: c'_def is_duplicate_def Let_def r_def)
  have "1 \<le> r" by (simp add: r_def)
  then have "length (cached c') \<le> n" using c' n len s by auto
  moreover have "fst ` set (cached c') \<subseteq> insert k (fst ` set (cached c))"
  proof -
    have "set (cached c') \<subseteq> set ?new"
      using c'(2) s(1) [of ?new] set_drop_subset [of r "iteration ?new"] by (auto split: if_splits)
    from image_mono [OF this, of fst] show ?thesis unfolding keys_update .
  qed
  then have "\<forall>k' \<in> fst ` set (cached c'). presented k' (ops @ [Check k])" using n(3) unfolding presented_snoc by blast
  ultimately show ?thesis using c'(1) unfolding c'_def [symmetric] dedup_inv_def by blast
qed

lemma keys_delete: "fst ` set (AList.delete k xs) = fst ` set xs - {k}"
  by (induction xs) auto

lemma dedup_inv_shrink:
  assumes "dedup_inv n ops c" "max_entries c' = max_entries c" "length (cached c') \<le> length (cached c)"
    and "fst ` set (cached c') \<subseteq> fst ` set (cached c)" "\<forall>k \<in> fst ` set (cached c'). op \<noteq> Remove k"
  shows "dedup_inv n (ops @ [op]) c'"
proof -
  have "\<forall>k \<in> fst ` set (cached c'). presented k (ops @ [op])"
    using assms(1,4,5) unfolding dedup_inv_def presented_snoc by blast
  then show ?thesis using assms(1-3) by (simp add: dedup_inv_def)
qed

lemma dedup_inv_purge: "dedup_inv n ops c \<Longrightarrow> dedup_inv n (ops @ [Purge now]) (purge_expired now c)"
  by (erule dedup_inv_shrink)
    (use purge_list [of now "ttl_ns c" "cached c"] in \<open>simp_all add: purge_expired_def del: length_concat set_concat\<close>)

lemma dedup_inv_remove: "dedup_inv n ops c \<Longrightarrow> dedup_inv n (ops @ [Remove k]) (dedup_remove k c)"
  by (erule dedup_inv_shrink) (use length_delete_le [of k "cached c"] keys_delete [of k "cached c"] in \<open>auto simp: dedup_remove_def\<close>)

text \<open>
  C33. The cache never holds more entries than configured, and it never suppresses a message that is
  not a repetition: it reports a duplicate only for a key that was presented before and not removed
  since, whatever the iteration order of its table.
\<close>

theorem dedup_sound_and_bounded:
  assumes "\<And>xs. mset (iteration xs) = mset xs"
  shows "let c = fold (dedup_do iteration) ops (dedup_init n ttl) in
    length (cached c) \<le> n \<and> (fst (is_duplicate iteration k c) \<longrightarrow> presented k ops)"
proof -
  have "dedup_inv n ops (fold (dedup_do iteration) ops (dedup_init n ttl))"
  proof (induction ops rule: rev_induct)
    case Nil
    then show ?case by (simp add: dedup_inv_def dedup_init_def)
  next
    case (snoc op ops)
    then show ?case
      by (cases op) (simp_all add: dedup_inv_check [OF assms] dedup_inv_purge dedup_inv_remove)
  qed
  moreover have "k \<in> fst ` set (cached c)" if "fst (is_duplicate iteration k c)" for c
    using that map_of_eq_None_iff [of "cached c" k] by (auto simp: is_duplicate_def Let_def split: if_splits)
  ultimately show ?thesis unfolding dedup_inv_def Let_def by blast
qed

definition sample_key :: "u64 \<Rightarrow> dedup_key" where
  "sample_key n = (Ipv4Endpoint 0x0A000001 0x5000, 7, n)"

theorem dedup_sound_and_bounded_witness:
  "length (cached (fold (dedup_do rev) [Check (sample_key 1), Check (sample_key 2), Check (sample_key 3), Remove (sample_key 3)]
      (dedup_init 2 100))) \<le> 2 \<and> fst (is_duplicate rev (sample_key 1) (fold (dedup_do rev)
      [Check (sample_key 1), Check (sample_key 2), Check (sample_key 3), Remove (sample_key 3)] (dedup_init 2 100))) \<and>
   presented (sample_key 1) [Check (sample_key 1), Check (sample_key 2), Check (sample_key 3), Remove (sample_key 3)]"
proof -
  let ?ops = "[Check (sample_key 1), Check (sample_key 2), Check (sample_key 3), Remove (sample_key 3)]"
  have "fst (is_duplicate rev (sample_key 1) (fold (dedup_do rev) ?ops (dedup_init 2 100)))" by code_simp
  with dedup_sound_and_bounded [of rev ?ops 2 100 "sample_key 1"] show ?thesis by (simp only: Let_def mset_rev simp_thms)
qed

end
