(* ===== verification/Cluster_Model.thy ===== *)
theory Cluster_Model
  imports HPA_Prelude "HOL-Library.AList"
begin

text \<open>
  The failure model of a cluster: node identities and states (\<^verbatim>\<open>cluster_node_identity.hpp\<close>,
  \<^verbatim>\<open>cluster_node_state.hpp\<close>), partition policies (\<^verbatim>\<open>partition_policy.hpp\<close>), the class
  \<^verbatim>\<open>ClusterFailureModel\<close> of \<^verbatim>\<open>cluster_failure_model.cpp\<close> and the route invalidation it feeds.
  Observers and callbacks are outside code; the calls made to them are recorded.
\<close>

section \<open>Identities, states and policies\<close>

record cluster_identity =
  node_id :: string
  ci_incarnation :: u64
  process_start_id :: u64
  membership_epoch :: u64
  cluster_id :: string

definition fences :: "cluster_identity \<Rightarrow> cluster_identity \<Rightarrow> bool" where
  "fences newer older \<longleftrightarrow> node_id newer = node_id older \<and> ci_incarnation newer > ci_incarnation older"

definition is_identity_conflict :: "cluster_identity \<Rightarrow> cluster_identity \<Rightarrow> bool" where
  "is_identity_conflict a b \<longleftrightarrow> node_id a = node_id b \<and> ci_incarnation a = ci_incarnation b \<and>
     process_start_id a \<noteq> process_start_id b"

definition same_cluster :: "cluster_identity \<Rightarrow> cluster_identity \<Rightarrow> bool" where
  "same_cluster a b \<longleftrightarrow> cluster_id a = cluster_id b"

definition has_stale_epoch :: "cluster_identity \<Rightarrow> cluster_identity \<Rightarrow> bool" where
  "has_stale_epoch candidate current \<longleftrightarrow> membership_epoch candidate < membership_epoch current"

datatype node_state = Joining | Alive | Suspect | Unreachable | Quarantined | Leaving | Down | Removed

definition is_terminal :: "node_state \<Rightarrow> bool" where
  "is_terminal s \<longleftrightarrow> s = Down \<or> s = Removed"

definition can_transition :: "node_state \<Rightarrow> node_state \<Rightarrow> bool" where
  "can_transition from to =
     (if from = to then False
      else case from of
        Joining \<Rightarrow> to = Alive
      | Alive \<Rightarrow> to = Suspect \<or> to = Unreachable \<or> to = Quarantined \<or> to = Leaving
      | Suspect \<Rightarrow> to = Alive \<or> to = Unreachable \<or> to = Quarantined
      | Unreachable \<Rightarrow> to = Alive \<or> to = Down
      | Leaving \<Rightarrow> to = Down
      | Down \<Rightarrow> to = Removed
      | Quarantined \<Rightarrow> to = Joining
      | Removed \<Rightarrow> False)"

datatype partition_policy = FailOpen | FailClosed | StaticMajority

fun allow_user_delivery :: "partition_policy \<Rightarrow> bool \<Rightarrow> bool" where
  "allow_user_delivery FailOpen quorum_known = True"
| "allow_user_delivery FailClosed quorum_known = quorum_known"
| "allow_user_delivery StaticMajority quorum_known = quorum_known"

definition allow_ownership_change :: "partition_policy \<Rightarrow> bool \<Rightarrow> bool" where
  "allow_ownership_change policy majority_present = majority_present"

definition should_invalidate_routes :: "node_state \<Rightarrow> bool" where
  "should_invalidate_routes s \<longleftrightarrow> s = Down \<or> s = Quarantined \<or> s = Removed"

section \<open>The failure model\<close>

record node_record =
  nr_identity :: cluster_identity
  nr_state :: node_state

datatype conflict_resolution = NoResolution | QuarantineBoth | FenceOld

record failure_model =
  nodes :: "(string \<times> node_record) list"
  fm_policy :: partition_policy
  invalidation_queue :: "string list"
  observers :: nat
  notified :: "string list list"

definition failure_model_init :: failure_model where
  "failure_model_init = \<lparr>nodes = [], fm_policy = FailOpen, invalidation_queue = [], observers = 0, notified = []\<rparr>"

definition register_node :: "cluster_identity \<Rightarrow> failure_model \<Rightarrow> bool \<times> failure_model" where
  "register_node i m =
     (if map_of (nodes m) (node_id i) \<noteq> None then (False, m)
      else (True, m\<lparr>nodes := AList.update (node_id i) \<lparr>nr_identity = i, nr_state = Joining\<rparr> (nodes m)\<rparr>))"

definition alive_nodes :: "failure_model \<Rightarrow> string list" where
  "alive_nodes m = [n. (n, r) \<leftarrow> nodes m, nr_state r = Alive]"

datatype transition_result = NodeNotFound | IllegalTransition | Moved bool

definition cluster_transition :: "string \<Rightarrow> node_state \<Rightarrow> failure_model \<Rightarrow> transition_result \<times> failure_model" where
  "cluster_transition n to m =
     (case map_of (nodes m) n of
        None \<Rightarrow> (NodeNotFound, m)
      | Some r \<Rightarrow>
          if \<not> can_transition (nr_state r) to then (IllegalTransition, m)
          else
            let m = m\<lparr>nodes := AList.update n (r\<lparr>nr_state := to\<rparr>) (nodes m)\<rparr>;
                invalidated = (to = Down \<or> to = Quarantined \<or> to = Removed);
                m = (if invalidated then m\<lparr>invalidation_queue := invalidation_queue m @ [n]\<rparr> else m)
            in (Moved invalidated, m\<lparr>notified := notified m @ replicate (observers m) (alive_nodes m)\<rparr>))"

definition get_state :: "string \<Rightarrow> failure_model \<Rightarrow> node_state" where
  "get_state n m = (case map_of (nodes m) n of None \<Rightarrow> Removed | Some r \<Rightarrow> nr_state r)"

definition node_count :: "failure_model \<Rightarrow> nat" where
  "node_count m = length (nodes m)"

definition check_identity_conflict :: "cluster_identity \<Rightarrow> failure_model \<Rightarrow> bool \<times> conflict_resolution \<times> bool" where
  "check_identity_conflict received m =
     (case map_of (nodes m) (node_id received) of
        None \<Rightarrow> (False, NoResolution, False)
      | Some r \<Rightarrow>
          if is_identity_conflict received (nr_identity r) then (True, QuarantineBoth, False)
          else if fences received (nr_identity r) then (False, FenceOld, True)
          else (False, NoResolution, False))"

definition set_partition_policy :: "partition_policy \<Rightarrow> failure_model \<Rightarrow> failure_model" where
  "set_partition_policy p m = m\<lparr>fm_policy := p\<rparr>"

definition quorum_present :: "failure_model \<Rightarrow> bool" where
  "quorum_present m =
     (if nodes m = [] then False
      else length (filter (\<lambda>(n, r). nr_state r = Alive) (nodes m)) > length (nodes m) div 2)"

definition drain_invalidation_queue :: "failure_model \<Rightarrow> string list \<times> failure_model" where
  "drain_invalidation_queue m = (invalidation_queue m, m\<lparr>invalidation_queue := []\<rparr>)"

definition register_observer :: "failure_model \<Rightarrow> failure_model" where
  "register_observer m = m\<lparr>observers := observers m + 1\<rparr>"

text \<open>The calls of the registered callbacks made for a drained queue, as pairs of callback and node.\<close>

definition process_invalidations :: "nat \<Rightarrow> string list \<Rightarrow> (nat \<times> string) list" where
  "process_invalidations callbacks ns = [(c, n). n \<leftarrow> ns, c \<leftarrow> [0..<callbacks]]"

section \<open>Runs\<close>

datatype cluster_op = Register cluster_identity | Transit string node_state | DrainQueue | SetPolicy partition_policy | Observe

fun cluster_do :: "cluster_op \<Rightarrow> failure_model \<Rightarrow> failure_model" where
  "cluster_do (Register i) m = snd (register_node i m)"
| "cluster_do (Transit n to) m = snd (cluster_transition n to m)"
| "cluster_do DrainQueue m = snd (drain_invalidation_queue m)"
| "cluster_do (SetPolicy p) m = set_partition_policy p m"
| "cluster_do Observe m = register_observer m"

lemma node_step:
  assumes "map_of (nodes m) n = Some r"
  obtains r' where "map_of (nodes (cluster_do op m)) n = Some r'"
    "nr_state r' = nr_state r \<or> can_transition (nr_state r) (nr_state r')" "nr_identity r' = nr_identity r"
proof -
  have "\<exists>r'. map_of (nodes (cluster_do op m)) n = Some r' \<and>
      (nr_state r' = nr_state r \<or> can_transition (nr_state r) (nr_state r')) \<and> nr_identity r' = nr_identity r"
  proof (cases op)
    case (Transit n' to)
    then show ?thesis using assms
      by (cases "n' = n") (auto simp: cluster_transition_def update_conv' Let_def split: option.splits)
  next
    case (Register i)
    then show ?thesis using assms by (auto simp: register_node_def update_conv')
  qed (use assms in \<open>simp_all add: drain_invalidation_queue_def set_partition_policy_def register_observer_def\<close>)
  then show ?thesis using that by blast
qed

lemma gone_stays_gone:
  assumes "map_of (nodes m) n = Some r" "is_terminal (nr_state r)"
  shows "\<exists>r'. map_of (nodes (fold cluster_do ops m)) n = Some r' \<and> is_terminal (nr_state r') \<and> nr_identity r' = nr_identity r"
  using assms
proof (induction ops arbitrary: m r)
  case (Cons op ops)
  obtain r1 where r1: "map_of (nodes (cluster_do op m)) n = Some r1"
    "nr_state r1 = nr_state r \<or> can_transition (nr_state r) (nr_state r1)" "nr_identity r1 = nr_identity r"
    using Cons.prems(1) by (rule node_step)
  have "is_terminal (nr_state r1)"
    using r1(2) Cons.prems(2) by (cases "nr_state r") (auto simp: is_terminal_def can_transition_def split: if_splits)
  with Cons.IH [OF r1(1)] r1(3) show ?case by simp
qed auto


definition sample_identity :: "string \<Rightarrow> u64 \<Rightarrow> cluster_identity" where
  "sample_identity n inc = \<lparr>node_id = n, ci_incarnation = inc, process_start_id = 1, membership_epoch = 1, cluster_id = ''c''\<rparr>"

definition sample_model :: failure_model where
  "sample_model = fold cluster_do
     [Register (sample_identity ''a'' 1), Register (sample_identity ''b'' 1), Register (sample_identity ''c'' 1),
      Transit ''a'' Alive, Transit ''b'' Alive, Transit ''c'' Alive,
      Transit ''a'' Leaving, Transit ''a'' Down, Transit ''a'' Removed, Transit ''b'' Leaving, Transit ''b'' Down]
     failure_model_init"


section \<open>Quorum\<close>

fun registers :: "cluster_op \<Rightarrow> bool" where
  "registers (Register _) = True"
| "registers _ = False"

definition wf_model :: "failure_model \<Rightarrow> bool" where
  "wf_model m \<longleftrightarrow> distinct (map fst (nodes m))"

lemma wf_step: "wf_model m \<Longrightarrow> wf_model (cluster_do op m)"
  by (cases op)
    (auto simp: wf_model_def register_node_def cluster_transition_def drain_invalidation_queue_def set_partition_policy_def
      register_observer_def Let_def distinct_update split: option.splits)

lemma keys_update_known: "map_of xs k = Some v \<Longrightarrow> map fst (AList.update k w xs) = map fst xs"
  by (induction xs) (auto split: if_splits)

lemma keys_step: "\<not> registers op \<Longrightarrow> map fst (nodes (cluster_do op m)) = map fst (nodes m)"
  by (cases op)
    (auto simp: cluster_transition_def drain_invalidation_queue_def set_partition_policy_def register_observer_def
      Let_def keys_update_known split: option.splits)

lemma run_keys:
  "wf_model m \<Longrightarrow> \<forall>op \<in> set ops. \<not> registers op \<Longrightarrow>
    wf_model (fold cluster_do ops m) \<and> map fst (nodes (fold cluster_do ops m)) = map fst (nodes m)"
  by (induction ops arbitrary: m) (simp_all add: wf_step keys_step)

definition names_in :: "(node_state \<Rightarrow> bool) \<Rightarrow> failure_model \<Rightarrow> string set" where
  "names_in P m = {n. \<exists>r. map_of (nodes m) n = Some r \<and> P (nr_state r)}"

lemma count_names:
  assumes "wf_model m"
  shows "length (filter (\<lambda>(n, r). P (nr_state r)) (nodes m)) = card (names_in P m)"
proof -
  let ?f = "filter (\<lambda>(n, r). P (nr_state r)) (nodes m)"
  have d: "distinct (map fst ?f)" using assms by (simp add: wf_model_def distinct_map_filter)
  have "names_in P m = set (map fst ?f)"
    using assms by (force simp: names_in_def wf_model_def)
  then show ?thesis using distinct_card [OF d] by simp
qed

text \<open>
  Nodes that are down or removed still count: once at least half of the registered nodes are
  gone, no sequence of operations other than registering further nodes ever brings a quorum back,
  even if every remaining node is alive.
\<close>

theorem quorum_counts_removed_nodes:
  assumes "wf_model m" "\<forall>op \<in> set ops. \<not> registers op"
    and "node_count m \<le> 2 * card (names_in is_terminal m)"
  shows "\<not> quorum_present (fold cluster_do ops m)"
proof -
  let ?m = "fold cluster_do ops m" and ?K = "set (map fst (nodes m))"
  have wf: "wf_model ?m" and keys: "map fst (nodes ?m) = map fst (nodes m)" using run_keys [OF assms(1,2)] by simp_all
  have len: "length (nodes ?m) = node_count m" using arg_cong [OF keys, of length] by (simp add: node_count_def)
  have cardK: "card ?K = node_count m"
    using distinct_card [of "map fst (nodes m)"] assms(1) by (simp add: wf_model_def node_count_def)
  have T: "names_in is_terminal m \<subseteq> names_in is_terminal ?m"
    using gone_stays_gone [of m _ _ ops] by (fastforce simp: names_in_def)
  have "names_in (\<lambda>s. s = Alive) ?m \<subseteq> ?K - names_in is_terminal m"
  proof
    fix n assume "n \<in> names_in (\<lambda>s. s = Alive) ?m"
    then obtain r where r: "map_of (nodes ?m) n = Some r" "nr_state r = Alive" by (auto simp: names_in_def)
    have "n \<in> set (map fst (nodes ?m))" using map_of_SomeD [OF r(1)] by force
    moreover have "n \<notin> names_in is_terminal ?m" using r by (auto simp: names_in_def is_terminal_def)
    ultimately show "n \<in> ?K - names_in is_terminal m" using T keys by auto
  qed
  then have "card (names_in (\<lambda>s. s = Alive) ?m) \<le> card (?K - names_in is_terminal m)" by (intro card_mono) auto
  also have "\<dots> = node_count m - card (names_in is_terminal m)"
  proof -
    have "names_in is_terminal m \<subseteq> ?K" by (force simp: names_in_def dest: map_of_SomeD)
    then show ?thesis using card_Diff_subset [of "names_in is_terminal m" ?K] finite_subset cardK by fastforce
  qed
  finally have "length (filter (\<lambda>(n, r). nr_state r = Alive) (nodes ?m)) \<le> node_count m div 2"
    using count_names [OF wf, of "\<lambda>s. s = Alive"] assms(3) by linarith
  then show ?thesis using len by (simp add: quorum_present_def)
qed

theorem quorum_counts_removed_nodes_witness:
  "alive_nodes sample_model = [''c''] \<and> \<not> quorum_present (fold cluster_do [Transit ''b'' Removed, DrainQueue] sample_model)"
proof -
  have al: "alive_nodes sample_model = [''c'']" and wf: "wf_model sample_model" by code_simp+
  have "filter (\<lambda>(n, r). is_terminal (nr_state r)) (nodes sample_model) \<noteq> [] \<and>
      length (filter (\<lambda>(n, r). is_terminal (nr_state r)) (nodes sample_model)) = 2" "node_count sample_model = 3"
    by code_simp+
  then have "node_count sample_model \<le> 2 * card (names_in is_terminal sample_model)"
    using count_names [OF wf, of is_terminal] by simp
  from quorum_counts_removed_nodes [OF wf _ this, of "[Transit ''b'' Removed, DrainQueue]"] al show ?thesis by simp
qed

end
