(* ===== verification/Edf_Queue.thy ===== *)
theory Edf_Queue
  imports HPA_Prelude "HOL-Library.Multiset" "HOL-Library.Product_Lexorder"
begin

text \<open>
  \<open>src/sched/edf_queue.cpp\<close>: the earliest-deadline-first run queue of the scheduler, a binary
  heap in a vector. Items are compared by deadline and then by the push sequence number.
\<close>

section \<open>Operations\<close>

record 'w heap_item =
  item_deadline :: int
  item_sequence :: u64
  item_work :: 'w

record 'w edf_queue =
  edf_items :: "'w heap_item list"
  next_sequence :: u64

definition edf_init :: "'w edf_queue" where
  "edf_init = \<lparr>edf_items = [], next_sequence = 0\<rparr>"

definition later_deadline :: "'w heap_item \<Rightarrow> 'w heap_item \<Rightarrow> bool" where
  "later_deadline a b =
     (if item_deadline a \<noteq> item_deadline b then item_deadline a > item_deadline b
      else item_sequence a < item_sequence b)"

definition heap_parent :: "nat \<Rightarrow> nat" where
  "heap_parent i = (i - 1) div 2"

definition swap_items :: "nat \<Rightarrow> nat \<Rightarrow> 'a list \<Rightarrow> 'a list" where
  "swap_items i j xs = xs[i := xs ! j, j := xs ! i]"

function sift_up :: "nat \<Rightarrow> 'w heap_item list \<Rightarrow> 'w heap_item list" where
  "sift_up i xs =
     (if i > 0 then
        (let p = heap_parent i in
         if later_deadline (xs ! p) (xs ! i) then sift_up p (swap_items p i xs) else xs)
      else xs)"
  by pat_completeness auto
termination
  by (relation "measure fst") (auto simp: heap_parent_def)

definition smallest_child :: "nat \<Rightarrow> 'w heap_item list \<Rightarrow> nat" where
  "smallest_child i xs =
     (let n = length xs; l = 2 * i + 1; r = 2 * i + 2;
          s1 = (if l < n \<and> later_deadline (xs ! i) (xs ! l) then l else i)
      in if r < n \<and> later_deadline (xs ! s1) (xs ! r) then r else s1)"

lemma smallest_child_bounds:
  "smallest_child i xs \<noteq> i \<Longrightarrow> i < smallest_child i xs \<and> smallest_child i xs < length xs"
  by (auto simp: smallest_child_def Let_def split: if_splits)

function sift_down :: "nat \<Rightarrow> 'w heap_item list \<Rightarrow> 'w heap_item list" where
  "sift_down i xs =
     (let s = smallest_child i xs in
      if s \<noteq> i then sift_down s (swap_items i s xs) else xs)"
  by pat_completeness auto
termination
proof (relation "measure (\<lambda>(i, xs). length xs - i)", goal_cases)
  case 1
  then show ?case by simp
next
  case (2 i xs s)
  then show ?case using smallest_child_bounds [of i xs] by (simp add: swap_items_def diff_less_mono2)
qed

declare sift_up.simps [simp del] sift_down.simps [simp del]

definition edf_push :: "int \<Rightarrow> 'w \<Rightarrow> 'w edf_queue \<Rightarrow> 'w edf_queue" where
  "edf_push deadline_ns w q =
     (let hi = \<lparr>item_deadline = deadline_ns, item_sequence = next_sequence q, item_work = w\<rparr>;
          xs = edf_items q @ [hi]
      in \<lparr>edf_items = sift_up (length xs - 1) xs, next_sequence = next_sequence q + 1\<rparr>)"

definition edf_pop :: "'w edf_queue \<Rightarrow> 'w option \<times> 'w edf_queue" where
  "edf_pop q =
     (case edf_items q of
        [] \<Rightarrow> (None, q)
      | hi # his \<Rightarrow>
          (Some (item_work hi),
           if his = [] then q\<lparr>edf_items := []\<rparr>
           else q\<lparr>edf_items := sift_down 0 (butlast ((hi # his)[0 := last (hi # his)]))\<rparr>))"

definition edf_peek :: "'w edf_queue \<Rightarrow> int option" where
  "edf_peek q = (case edf_items q of [] \<Rightarrow> None | hi # _ \<Rightarrow> Some (item_deadline hi))"

definition edf_clear :: "'w edf_queue \<Rightarrow> 'w edf_queue" where
  "edf_clear q = q\<lparr>edf_items := []\<rparr>"

section \<open>The heap order\<close>

text \<open>The comparison is a total order on these keys.\<close>

definition edf_key :: "'w heap_item \<Rightarrow> int \<times> int" where
  "edf_key it = (item_deadline it, - uint (item_sequence it))"

lemma later_deadline_key: "later_deadline a b \<longleftrightarrow> edf_key b < edf_key a"
  by (auto simp: later_deadline_def edf_key_def word_less_def)

definition edf_heap :: "'w heap_item list \<Rightarrow> bool" where
  "edf_heap xs \<longleftrightarrow> (\<forall>j. 0 < j \<and> j < length xs \<longrightarrow> edf_key (xs ! heap_parent j) \<le> edf_key (xs ! j))"

definition heap_up_to :: "nat \<Rightarrow> 'w heap_item list \<Rightarrow> bool" where
  "heap_up_to i xs \<longleftrightarrow> i < length xs \<and>
     (\<forall>j. 0 < j \<and> j < length xs \<and> j \<noteq> i \<longrightarrow> edf_key (xs ! heap_parent j) \<le> edf_key (xs ! j)) \<and>
     (\<forall>j. 0 < j \<and> j < length xs \<and> heap_parent j = i \<and> 0 < i \<longrightarrow>
        edf_key (xs ! heap_parent i) \<le> edf_key (xs ! j))"

definition heap_down_from :: "nat \<Rightarrow> 'w heap_item list \<Rightarrow> bool" where
  "heap_down_from i xs \<longleftrightarrow> i < length xs \<and>
     (\<forall>j. 0 < j \<and> j < length xs \<and> heap_parent j \<noteq> i \<longrightarrow> edf_key (xs ! heap_parent j) \<le> edf_key (xs ! j)) \<and>
     (\<forall>j. 0 < j \<and> j < length xs \<and> heap_parent j = i \<and> 0 < i \<longrightarrow>
        edf_key (xs ! heap_parent i) \<le> edf_key (xs ! j))"

lemma length_swap [simp]: "length (swap_items i j xs) = length xs"
  by (simp add: swap_items_def)

lemma nth_swap:
  "i < length xs \<Longrightarrow> j < length xs \<Longrightarrow> k < length xs \<Longrightarrow>
   swap_items i j xs ! k = (if k = j then xs ! i else if k = i then xs ! j else xs ! k)"
  by (simp add: swap_items_def nth_list_update)

lemma mset_swap_items: "i < length xs \<Longrightarrow> j < length xs \<Longrightarrow> mset (swap_items i j xs) = mset xs"
  unfolding swap_items_def by (rule mset_swap)

lemma heap_parent_less: "0 < j \<Longrightarrow> heap_parent j < j"
  by (simp add: heap_parent_def)

lemma sift_up_heap:
  "heap_up_to i xs \<Longrightarrow> edf_heap (sift_up i xs) \<and> mset (sift_up i xs) = mset xs"
proof (induction i xs rule: sift_up.induct)
  case (1 i xs)
  let ?p = "heap_parent i"
  show ?case
  proof (cases "i > 0 \<and> later_deadline (xs ! ?p) (xs ! i)")
    case False
    then have "edf_heap xs"
      using "1.prems" by (auto simp: edf_heap_def heap_up_to_def later_deadline_key not_less)
    then show ?thesis using False by (subst sift_up.simps) (auto simp: Let_def sift_up.simps [of i xs])
  next
    case True
    have i: "i < length xs" "?p < length xs" "?p < i" using "1.prems" True heap_parent_less [of i]
      by (auto simp: heap_up_to_def)
    have lt: "edf_key (xs ! i) < edf_key (xs ! ?p)" using True by (simp add: later_deadline_key)
    let ?ys = "swap_items ?p i xs"
    have h: "edf_key (xs ! heap_parent j) \<le> edf_key (xs ! j)" if "0 < j" "j < length xs" "j \<noteq> i" for j
      using "1.prems" that by (simp add: heap_up_to_def)
    have c: "edf_key (xs ! ?p) \<le> edf_key (xs ! j)" if "0 < j" "j < length xs" "heap_parent j = i" for j
      using "1.prems" that True by (simp add: heap_up_to_def)
    have "heap_up_to ?p ?ys"
      unfolding heap_up_to_def
    proof (intro conjI allI impI)
      show "?p < length ?ys" using i by simp
    next
      fix j assume j: "0 < j \<and> j < length ?ys \<and> j \<noteq> ?p"
      then have hj: "heap_parent j < length xs" using heap_parent_less [of j] by simp
      consider "j = i" | "j \<noteq> i" "heap_parent j = i" | "j \<noteq> i" "heap_parent j = ?p"
        | "j \<noteq> i" "heap_parent j \<noteq> i" "heap_parent j \<noteq> ?p" by blast
      then show "edf_key (?ys ! heap_parent j) \<le> edf_key (?ys ! j)"
      proof cases
        case 1
        then show ?thesis using i lt by (simp add: nth_swap)
      next
        case 2
        then show ?thesis using i j c [of j] by (simp add: nth_swap)
      next
        case 3
        then show ?thesis using i j lt h [of j] by (simp add: nth_swap)
      next
        case 4
        then show ?thesis using i j hj h [of j] by (simp add: nth_swap)
      qed
    next
      fix j assume j: "0 < j \<and> j < length ?ys \<and> heap_parent j = ?p \<and> 0 < ?p"
      have pp: "heap_parent ?p < length xs" "heap_parent ?p < ?p" using j i heap_parent_less [of ?p] by auto
      have "edf_key (xs ! heap_parent ?p) \<le> edf_key (xs ! ?p)" using h [of ?p] j i by simp
      moreover have "j \<noteq> i \<Longrightarrow> edf_key (xs ! ?p) \<le> edf_key (xs ! j)" using h [of j] j by simp
      moreover have "j \<noteq> ?p" using j heap_parent_less [of j] by auto
      ultimately show "edf_key (?ys ! heap_parent ?p) \<le> edf_key (?ys ! j)"
        using i j pp by (cases "j = i") (auto simp: nth_swap)
    qed
    then show ?thesis
      using "1.IH" [OF _ refl] True i mset_swap_items [of ?p xs i] by (subst (1 2) sift_up.simps) (simp add: Let_def)
  qed
qed

lemma smallest_child_le:
  assumes "i < length xs" and "0 < j" and "j < length xs" and "heap_parent j = i"
  shows "edf_key (xs ! smallest_child i xs) \<le> edf_key (xs ! j)"
proof -
  have "j = 2 * i + 1 \<or> j = 2 * i + 2" using assms(2,4) by (auto simp: heap_parent_def)
  then show ?thesis
    using assms by (auto simp: smallest_child_def Let_def later_deadline_key not_less)
qed

lemma smallest_child_parent:
  "smallest_child i xs \<noteq> i \<Longrightarrow> heap_parent (smallest_child i xs) = i \<and>
     edf_key (xs ! smallest_child i xs) < edf_key (xs ! i)"
  by (auto simp: smallest_child_def Let_def heap_parent_def later_deadline_key split: if_splits)

lemma sift_down_heap:
  "heap_down_from i xs \<Longrightarrow> edf_heap (sift_down i xs) \<and> mset (sift_down i xs) = mset xs"
proof (induction i xs rule: sift_down.induct)
  case (1 i xs)
  let ?s = "smallest_child i xs"
  have i: "i < length xs" using "1.prems" by (simp add: heap_down_from_def)
  show ?case
  proof (cases "?s = i")
    case True
    have "edf_heap xs"
      unfolding edf_heap_def
    proof (intro allI impI)
      fix j assume "0 < j \<and> j < length xs"
      then show "edf_key (xs ! heap_parent j) \<le> edf_key (xs ! j)"
        using "1.prems" smallest_child_le [OF i, of j] True
        by (cases "heap_parent j = i") (auto simp: heap_down_from_def)
    qed
    then show ?thesis using True by (subst (1 2) sift_down.simps) simp
  next
    case False
    note b = smallest_child_bounds [OF False] and p = smallest_child_parent [OF False]
    let ?ys = "swap_items i ?s xs"
    have "heap_down_from ?s ?ys"
      unfolding heap_down_from_def
    proof (intro conjI allI impI)
      show "?s < length ?ys" using b by simp
    next
      fix j assume j: "0 < j \<and> j < length ?ys \<and> heap_parent j \<noteq> ?s"
      have hp: "heap_parent j < length xs" using j heap_parent_less [of j] by simp
      show "edf_key (?ys ! heap_parent j) \<le> edf_key (?ys ! j)"
      proof (cases "heap_parent j = i")
        case True
        then show ?thesis
          using j i b hp p smallest_child_le [OF i, of j] by (auto simp: nth_swap)
      next
        case False
        then have "j \<noteq> ?s" using p by auto
        show ?thesis
        proof (cases "j = i")
          case True
          then show ?thesis
            using j i b hp False "1.prems" p by (auto simp: nth_swap heap_down_from_def)
        next
          case ji: False
          then show ?thesis
            using j i b hp False \<open>j \<noteq> ?s\<close> "1.prems" by (auto simp: nth_swap heap_down_from_def)
        qed
      qed
    next
      fix j assume j: "0 < j \<and> j < length ?ys \<and> heap_parent j = ?s \<and> 0 < ?s"
      then have "j > ?s" using heap_parent_less [of j] by auto
      have "edf_key (xs ! ?s) \<le> edf_key (xs ! j)"
        using "1.prems" j False by (auto simp: heap_down_from_def)
      then show "edf_key (?ys ! heap_parent ?s) \<le> edf_key (?ys ! j)"
        using p i b j \<open>j > ?s\<close> by (simp add: nth_swap)
    qed
    then show ?thesis
      using "1.IH" [OF refl] False mset_swap_items [OF i, of ?s] b
      by (subst (1 2) sift_down.simps) (simp add: Let_def)
  qed
qed

lemma edf_heap_root:
  "edf_heap xs \<Longrightarrow> j < length xs \<Longrightarrow> edf_key (xs ! 0) \<le> edf_key (xs ! j)"
proof (induction j rule: less_induct)
  case (less j)
  show ?case
  proof (cases "j = 0")
    case False
    then have "edf_key (xs ! heap_parent j) \<le> edf_key (xs ! j)" "heap_parent j < j"
      using less.prems heap_parent_less by (auto simp: edf_heap_def)
    then show ?thesis using less.IH [of "heap_parent j"] less.prems by (meson order.trans less_trans)
  qed simp
qed

lemma edf_push_heap:
  assumes "edf_heap (edf_items q)"
  shows "edf_heap (edf_items (edf_push d w q)) \<and>
    mset (edf_items (edf_push d w q)) =
      add_mset \<lparr>item_deadline = d, item_sequence = next_sequence q, item_work = w\<rparr> (mset (edf_items q))"
proof -
  let ?xs = "edf_items q @ [\<lparr>item_deadline = d, item_sequence = next_sequence q, item_work = w\<rparr>]"
  have "heap_up_to (length ?xs - 1) ?xs"
    unfolding heap_up_to_def
  proof (intro conjI allI impI)
    fix j assume "0 < j \<and> j < length ?xs \<and> j \<noteq> length ?xs - 1"
    then show "edf_key (?xs ! heap_parent j) \<le> edf_key (?xs ! j)"
      using assms heap_parent_less [of j] by (auto simp: edf_heap_def nth_append)
  next
    fix j assume "0 < j \<and> j < length ?xs \<and> heap_parent j = length ?xs - 1 \<and> 0 < length ?xs - 1"
    then show "edf_key (?xs ! heap_parent (length ?xs - 1)) \<le> edf_key (?xs ! j)"
      using heap_parent_less [of j] by auto
  qed simp
  from sift_up_heap [OF this] show ?thesis by (simp add: edf_push_def Let_def)
qed

lemma edf_pop_heap:
  assumes "edf_heap (edf_items q)" and "edf_items q = hi # his"
  shows "\<exists>q'. edf_pop q = (Some (item_work hi), q') \<and> edf_heap (edf_items q') \<and>
    next_sequence q' = next_sequence q \<and> mset (edf_items q) = add_mset hi (mset (edf_items q'))"
proof (cases "his = []")
  case True
  then show ?thesis using assms(2) by (simp add: edf_pop_def edf_heap_def)
next
  case False
  let ?ys = "butlast ((hi # his)[0 := last (hi # his)])"
  have ys: "?ys = last his # butlast his" using False by simp
  have len: "length ?ys = length his" using False by (simp add: ys)
  have nth: "?ys ! j = (hi # his) ! j" if "0 < j" "j < length his" for j
    using that False by (cases j) (simp_all add: ys nth_butlast)
  have "heap_down_from 0 ?ys"
    unfolding heap_down_from_def
  proof (intro conjI allI impI)
    show "0 < length ?ys" using False len by simp
    fix j assume j: "0 < j \<and> j < length ?ys \<and> heap_parent j \<noteq> 0"
    have "j < length (hi # his)" using j len by simp
    then have "edf_key ((hi # his) ! heap_parent j) \<le> edf_key ((hi # his) ! j)"
      using assms j unfolding edf_heap_def by metis
    moreover have "?ys ! j = (hi # his) ! j" using nth j len by metis
    moreover have "?ys ! heap_parent j = (hi # his) ! heap_parent j"
      using nth [of "heap_parent j"] heap_parent_less [of j] j len by linarith
    ultimately show "edf_key (?ys ! heap_parent j) \<le> edf_key (?ys ! j)" by metis
  qed simp
  from sift_down_heap [OF this] have "edf_heap (sift_down 0 ?ys)" "mset (sift_down 0 ?ys) = mset ?ys"
    by simp_all
  moreover have "mset ?ys = mset his"
    using False unfolding ys by (metis append_butlast_last_id mset.simps(2) mset_append union_mset_add_mset_right
        add.right_neutral mset.simps(1))
  ultimately show ?thesis using assms(2) False by (simp add: edf_pop_def)
qed

section \<open>The contract of a deadline queue\<close>

fun drain_queue :: "('q \<Rightarrow> 'w option \<times> 'q) \<Rightarrow> nat \<Rightarrow> 'q \<Rightarrow> 'w list" where
  "drain_queue pop 0 q = []"
| "drain_queue pop (Suc n) q =
     (case pop q of (None, q') \<Rightarrow> [] | (Some w, q') \<Rightarrow> w # drain_queue pop n q')"

locale deadline_queue =
  fixes push :: "int \<Rightarrow> 'w \<Rightarrow> 'q \<Rightarrow> 'q"
    and pop :: "'q \<Rightarrow> 'w option \<times> 'q"
    and jobs :: "'q \<Rightarrow> (int \<times> 'w) multiset"
    and ok :: "'q \<Rightarrow> bool"
  assumes push_ok: "ok q \<Longrightarrow> ok (push d w q)"
    and push_jobs: "ok q \<Longrightarrow> jobs (push d w q) = add_mset (d, w) (jobs q)"
    and pop_none: "ok q \<Longrightarrow> jobs q = {#} \<Longrightarrow> pop q = (None, q)"
    and pop_earliest: "ok q \<Longrightarrow> jobs q \<noteq> {#} \<Longrightarrow>
      \<exists>d w q'. pop q = (Some w, q') \<and> ok q' \<and> jobs q = add_mset (d, w) (jobs q') \<and>
        (\<forall>e \<in># jobs q'. d \<le> fst e)"
begin

lemma push_all:
  "ok q \<Longrightarrow> ok (fold (\<lambda>(d, w). push d w) js q) \<and>
     jobs (fold (\<lambda>(d, w). push d w) js q) = mset js + jobs q"
  by (induction js arbitrary: q) (auto simp: push_ok push_jobs)

lemma drain_sorted:
  "ok q \<Longrightarrow> size (jobs q) = n \<Longrightarrow>
   \<exists>ds. length ds = n \<and> length (drain_queue pop n q) = n \<and> sorted ds \<and>
     mset (zip ds (drain_queue pop n q)) = jobs q"
proof (induction n arbitrary: q)
  case 0
  then show ?case by simp
next
  case (Suc n)
  then have "jobs q \<noteq> {#}" by auto
  with pop_earliest [OF Suc.prems(1)] obtain d w q' where p: "pop q = (Some w, q')" "ok q'"
    "jobs q = add_mset (d, w) (jobs q')" "\<forall>e \<in># jobs q'. d \<le> fst e" by blast
  then obtain ds where ds: "length ds = n" "length (drain_queue pop n q') = n" "sorted ds"
    "mset (zip ds (drain_queue pop n q')) = jobs q'"
    using Suc.IH [of q'] Suc.prems(2) by auto
  define ws where "ws = drain_queue pop n q'"
  have "set (zip ds ws) = set_mset (jobs q')" using ds(4) unfolding ws_def by (metis set_mset_mset)
  moreover have "map fst (zip ds ws) = ds" using ds(1,2) unfolding ws_def by simp
  then have "set ds = fst ` set (zip ds ws)" by (metis set_map)
  ultimately have "\<forall>e \<in> set ds. d \<le> e" using p(4) by auto
  then have "sorted (d # ds)" using ds(3) by simp
  moreover have "mset (zip (d # ds) (drain_queue pop (Suc n) q)) = jobs q" using p ds by simp
  ultimately show ?case using p(1) ds(1,2) by (intro exI [of _ "d # ds"]) simp
qed

end

definition edf_jobs :: "'w edf_queue \<Rightarrow> (int \<times> 'w) multiset" where
  "edf_jobs q = image_mset (\<lambda>it. (item_deadline it, item_work it)) (mset (edf_items q))"

interpretation edf: deadline_queue edf_push edf_pop edf_jobs "\<lambda>q. edf_heap (edf_items q)"
proof
  fix q :: "'w edf_queue" and d w
  assume ok: "edf_heap (edf_items q)"
  show "edf_heap (edf_items (edf_push d w q))" using edf_push_heap [OF ok] by simp
  show "edf_jobs (edf_push d w q) = add_mset (d, w) (edf_jobs q)"
    using edf_push_heap [OF ok, of d w] by (simp add: edf_jobs_def)
  show "edf_jobs q = {#} \<Longrightarrow> edf_pop q = (None, q)" by (simp add: edf_jobs_def edf_pop_def)
  assume "edf_jobs q \<noteq> {#}"
  then obtain hi his where e: "edf_items q = hi # his" by (cases "edf_items q") (auto simp: edf_jobs_def)
  obtain q' where p: "edf_pop q = (Some (item_work hi), q')" "edf_heap (edf_items q')"
    "mset (edf_items q) = add_mset hi (mset (edf_items q'))"
    using edf_pop_heap [OF ok e] by blast
  have "item_deadline hi \<le> item_deadline x" if "x \<in> set (edf_items q')" for x
  proof -
    have "x \<in> set (edf_items q)" using that p(3) by (metis set_mset_mset insert_iff set_mset_add_mset_insert)
    then obtain j where "j < length (edf_items q)" "edf_items q ! j = x" by (metis in_set_conv_nth)
    then have "edf_key hi \<le> edf_key x" using edf_heap_root [OF ok, of j] e by simp
    then show ?thesis by (auto simp: edf_key_def)
  qed
  then show "\<exists>d w q'. edf_pop q = (Some w, q') \<and> edf_heap (edf_items q') \<and>
      edf_jobs q = add_mset (d, w) (edf_jobs q') \<and> (\<forall>e\<in>#edf_jobs q'. d \<le> fst e)"
    using p by (intro exI [of _ "item_deadline hi"] exI [of _ "item_work hi"] exI [of _ q'])
      (auto simp: edf_jobs_def)
qed

text \<open>
  C23. The run queue is earliest deadline first: whatever jobs are pushed, popping as often
  returns each of them exactly once, in order of their deadlines.
\<close>

theorem edf_earliest_deadline_first:
  fixes js :: "(int \<times> 'w) list"
  shows "\<exists>ds. sorted ds \<and> length ds = length js \<and>
     mset (zip ds (drain_queue edf_pop (length js) (fold (\<lambda>(d, w). edf_push d w) js edf_init))) = mset js"
proof -
  let ?q = "fold (\<lambda>(d, w). edf_push d w) js edf_init"
  have "edf_heap (edf_items (edf_init :: 'w edf_queue))" "edf_jobs (edf_init :: 'w edf_queue) = {#}"
    by (simp_all add: edf_init_def edf_heap_def edf_jobs_def)
  then have "edf_heap (edf_items ?q)" "edf_jobs ?q = mset js"
    using edf.push_all [of edf_init js] by simp_all
  then show ?thesis using edf.drain_sorted [of ?q "length js"] by auto
qed

text \<open>
  C24. Jobs with the same deadline are served last in, first out: pushing several jobs with
  one deadline into an empty queue and popping them all returns them in reverse order.
\<close>

theorem edf_equal_deadlines_lifo:
  assumes "length ws \<le> 2 ^ 64"
  shows "drain_queue edf_pop (length ws) (fold (edf_push d) ws edf_init) = rev ws"
proof -
  let ?it = "\<lambda>i. \<lparr>item_deadline = d, item_sequence = of_nat i, item_work = ws ! i\<rparr>"
  define holds where "holds k q \<longleftrightarrow> edf_heap (edf_items q) \<and> mset (edf_items q) = mset (map ?it [0..<k])"
    for k and q :: "'a edf_queue"
  have push: "holds (length us) (fold (edf_push d) us edf_init) \<and>
      next_sequence (fold (edf_push d) us edf_init) = of_nat (length us)"
    if "ws = us @ vs" for us vs
    using that
  proof (induction us arbitrary: vs rule: rev_induct)
    case Nil
    show ?case by (simp add: holds_def edf_init_def edf_heap_def)
  next
    case (snoc u us)
    let ?q = "fold (edf_push d) us edf_init"
    have ih: "holds (length us) ?q" "next_sequence ?q = of_nat (length us)" using snoc.IH [of "u # vs"] snoc.prems by simp_all
    have "ws ! length us = u" using snoc.prems by (simp add: nth_append)
    then show ?case
      using edf_push_heap [of ?q d u] ih by (simp add: holds_def) (simp add: edf_push_def)
  qed
  have pop: "\<exists>q'. edf_pop q = (Some (ws ! k), q') \<and> holds k q'" if h: "holds (Suc k) q" and k: "k < length ws" for k q
  proof -
    have ok: "edf_heap (edf_items q)" and ms: "mset (edf_items q) = mset (map ?it [0..<Suc k])"
      using h by (simp_all add: holds_def)
    then obtain hi his where e: "edf_items q = hi # his" by (cases "edf_items q") auto
    have st: "set (edf_items q) = ?it ` {0..<Suc k}"
      using ms by (metis set_mset_mset set_map set_upt)
    then have "hi \<in> ?it ` {0..<Suc k}" using e by (metis list.set_intros(1))
    then obtain i where i: "i < Suc k" "hi = ?it i" by auto
    have "?it k \<in> set (edf_items q)" using st by auto
    then obtain j where "j < length (edf_items q)" "edf_items q ! j = ?it k" by (metis in_set_conv_nth)
    then have "edf_key hi \<le> edf_key (?it k)" using edf_heap_root [OF ok, of j] e by simp
    then have "uint (of_nat k :: u64) \<le> uint (of_nat i :: u64)" using i(2) by (simp add: edf_key_def)
    then have "unat (of_nat k :: u64) \<le> unat (of_nat i :: u64)" by (simp add: word_le_nat_alt flip: word_le_def)
    then have "k = i" using i(1) k assms by (simp add: unat_of_nat_less)
    moreover obtain q' where "edf_pop q = (Some (item_work hi), q')" "edf_heap (edf_items q')"
      "mset (edf_items q) = add_mset hi (mset (edf_items q'))"
      using edf_pop_heap [OF ok e] by blast
    ultimately show ?thesis using ms i(2) by (simp add: holds_def)
  qed
  have "drain_queue edf_pop k q = rev (take k ws)" if "holds k q" "k \<le> length ws" for k q
    using that
  proof (induction k arbitrary: q)
    case 0
    then show ?case by simp
  next
    case (Suc k)
    then obtain q' where "edf_pop q = (Some (ws ! k), q')" "holds k q'" using pop [of k q] by auto
    then show ?case using Suc by (simp add: take_Suc_conv_app_nth)
  qed
  then show ?thesis using push [of ws "[]"] by simp
qed

theorem edf_equal_deadlines_lifo_witness:
  "length [1, 2, 3 :: nat] \<le> 2 ^ 64 \<and>
   drain_queue edf_pop 3 (fold (edf_push 5) [1, 2, 3 :: nat] edf_init) = [3, 2, 1]"
  using edf_equal_deadlines_lifo [of "[1, 2, 3 :: nat]" 5] by (simp add: numeral_3_eq_3 del: drain_queue.simps)

end
