(* ===== verification/Timing_Wheel.thy ===== *)
theory Timing_Wheel
  imports HPA_Prelude "HOL-Library.Multiset"
begin

text \<open>
  The hierarchical timing wheel of \<^verbatim>\<open>src/timer/timing_wheel.cpp\<close>.

  Timers are objects on a heap (\<open>timer_heap\<close>, an address per \<^verbatim>\<open>new Timer\<close>); the
  buckets of the wheel and the index \<open>timer_map\<close> hold addresses, so that the level and bucket
  a timer remembers can be compared with the bucket it is in.  Each entry point runs under the
  mutex and is one function of the state; the clock readings are arguments.  Times are
  mathematical integers, which agree with the 64-bit arithmetic of the code as long as it does not
  overflow; the bucket arithmetic, which masks and wraps, is done on 32-bit words.

  The result is that a wheel that is advanced in steps of at most 255 ticks, which the clamp
  inside \<^verbatim>\<open>advance\<close> ensures for ticks of at least 392157 ns, fires exactly the timers that
  are due, each once, whatever levels they were filed under.
\<close>

unbundle bit_operations_syntax

section \<open>State\<close>

record 'c wheel_timer =
  expire_ns :: int
  timer_id :: u64
  timer_callback :: 'c
  timer_level :: nat
  timer_bucket :: u32

record 'c timing_wheel =
  tick_ns :: int
  num_levels :: nat
  level_ranges :: "int list"
  wheel_buckets :: "nat \<Rightarrow> nat \<Rightarrow> nat list"
  wheel_time :: int
  next_timer_id :: u64
  min_deadline :: int
  timer_map :: "u64 \<Rightarrow> nat option"
  timer_heap :: "nat \<Rightarrow> 'c wheel_timer option"
  next_address :: nat

definition level_range :: "int \<Rightarrow> nat \<Rightarrow> int" where
  "level_range tick level = fold (\<lambda>k range. range * 256) [0..<level + 1] tick"

definition timing_wheel_init :: "int \<Rightarrow> nat \<Rightarrow> int \<Rightarrow> 'c timing_wheel" where
  "timing_wheel_init tick levels now =
     \<lparr>tick_ns = tick, num_levels = levels, level_ranges = map (level_range tick) [0..<levels],
      wheel_buckets = (\<lambda>_ _. []), wheel_time = now, next_timer_id = 1, min_deadline = INT64_MAX,
      timer_map = (\<lambda>_. None), timer_heap = (\<lambda>_. None), next_address = 0\<rparr>"

section \<open>Operations\<close>

definition id_mask :: u64 where
  "id_mask = 0xFFFFFFFFFFFF"

definition level_offset :: "int \<Rightarrow> nat \<Rightarrow> int \<Rightarrow> int" where
  "level_offset tick level time = fold (\<lambda>l offset. offset div 256) [0..<level] (time div tick)"

definition bucket_index :: "int \<Rightarrow> nat \<Rightarrow> int \<Rightarrow> u32" where
  "bucket_index tick level time = word_of_int (level_offset tick level time) AND 255"

definition put_bucket :: "nat \<Rightarrow> nat \<Rightarrow> nat list \<Rightarrow> 'c timing_wheel \<Rightarrow> 'c timing_wheel" where
  "put_bucket l b ps w = w\<lparr>wheel_buckets := (wheel_buckets w)(l := (wheel_buckets w l)(b := ps))\<rparr>"

definition choose_level :: "int \<Rightarrow> 'c timing_wheel \<Rightarrow> nat" where
  "choose_level diff w =
     (case find (\<lambda>l. diff < level_ranges w ! l) [0..<num_levels w] of
        Some l \<Rightarrow> l
      | None \<Rightarrow> num_levels w - 1)"

definition insert_timer :: "nat \<Rightarrow> 'c wheel_timer \<Rightarrow> 'c timing_wheel \<Rightarrow> 'c timing_wheel" where
  "insert_timer p t w =
     (let now = wheel_time w;
          expire = max (expire_ns t) now;
          level = choose_level (expire - now) w;
          bucket = bucket_index (tick_ns w) level expire;
          t = t\<lparr>timer_level := level, timer_bucket := bucket,
                timer_id := timer_id t OR push_bit 48 (of_nat level)\<rparr>
      in put_bucket level (unat bucket) (wheel_buckets w level (unat bucket) @ [p])
           (w\<lparr>timer_heap := (timer_heap w)(p \<mapsto> t)\<rparr>))"

definition add_timer_internal :: "int \<Rightarrow> 'c \<Rightarrow> 'c timing_wheel \<Rightarrow> u64 \<times> 'c timing_wheel" where
  "add_timer_internal expire cb w =
     (let p = next_address w;
          t = \<lparr>expire_ns = expire, timer_id = next_timer_id w, timer_callback = cb,
               timer_level = 0, timer_bucket = 0\<rparr>;
          w = w\<lparr>next_address := Suc p, next_timer_id := next_timer_id w + 1,
                timer_map := (timer_map w)(timer_id t \<mapsto> p),
                min_deadline := (if expire < min_deadline w then expire else min_deadline w)\<rparr>;
          w = insert_timer p t w
      in (case timer_heap w p of Some t \<Rightarrow> timer_id t | None \<Rightarrow> 0, w))"

definition schedule_at :: "int \<Rightarrow> 'c \<Rightarrow> 'c timing_wheel \<Rightarrow> u64 \<times> 'c timing_wheel" where
  "schedule_at expire cb w = add_timer_internal expire cb w"

definition schedule :: "int \<Rightarrow> 'c \<Rightarrow> 'c timing_wheel \<Rightarrow> u64 \<times> 'c timing_wheel" where
  "schedule delay cb w = schedule_at (wheel_time w + delay) cb w"

definition remove_timer ::
    "u64 \<Rightarrow> 'c timing_wheel \<Rightarrow> (nat \<times> 'c wheel_timer) option \<times> 'c timing_wheel" where
  "remove_timer tid w =
     (let tid = tid AND id_mask
      in case timer_map w tid of
        None \<Rightarrow> (None, w)
      | Some p \<Rightarrow>
          let w = w\<lparr>timer_map := (timer_map w)(tid := None)\<rparr>
          in case timer_heap w p of
               None \<Rightarrow> (None, w)
             | Some t \<Rightarrow>
                 (Some (p, t),
                  if timer_level t < num_levels w \<and> unat (timer_bucket t) < 256
                  then put_bucket (timer_level t) (unat (timer_bucket t))
                         (remove1 p (wheel_buckets w (timer_level t) (unat (timer_bucket t)))) w
                  else w))"

definition all_timers :: "'c timing_wheel \<Rightarrow> nat list" where
  "all_timers w = concat (map (\<lambda>l. concat (map (wheel_buckets w l) [0..<256])) [0..<num_levels w])"

definition wheel_empty :: "'c timing_wheel \<Rightarrow> bool" where
  "wheel_empty w \<longleftrightarrow> (\<forall>l \<in> set [0..<num_levels w]. \<forall>b \<in> set [0..<256]. wheel_buckets w l b = [])"

definition wheel_size :: "'c timing_wheel \<Rightarrow> nat" where
  "wheel_size w = (\<Sum>l\<leftarrow>[0..<num_levels w]. \<Sum>b\<leftarrow>[0..<256]. length (wheel_buckets w l b))"

definition next_deadline :: "'c timing_wheel \<Rightarrow> int" where
  "next_deadline w = min_deadline w"

definition recompute_min_deadline :: "'c timing_wheel \<Rightarrow> 'c timing_wheel" where
  "recompute_min_deadline w =
     w\<lparr>min_deadline :=
         fold (\<lambda>p m. case timer_heap w p of Some t \<Rightarrow> min m (expire_ns t) | None \<Rightarrow> m)
           (all_timers w) INT64_MAX\<rparr>"

definition delete_timer :: "nat \<Rightarrow> 'c timing_wheel \<Rightarrow> 'c timing_wheel" where
  "delete_timer p w = w\<lparr>timer_heap := (timer_heap w)(p := None)\<rparr>"

definition cancel :: "u64 \<Rightarrow> 'c timing_wheel \<Rightarrow> bool \<times> 'c timing_wheel" where
  "cancel tid w =
     (case remove_timer tid w of
        (None, w) \<Rightarrow> (False, w)
      | (Some (p, t), w) \<Rightarrow>
          (True, delete_timer p (if expire_ns t \<le> min_deadline w then recompute_min_deadline w else w)))"

definition fire_timer :: "nat \<Rightarrow> 'c wheel_timer \<Rightarrow> nat \<Rightarrow> nat \<Rightarrow> 'c timing_wheel \<Rightarrow> 'c timing_wheel" where
  "fire_timer p t l b w =
     delete_timer p (put_bucket l b (remove1 p (wheel_buckets w l b))
       (w\<lparr>timer_map := (timer_map w)(timer_id t AND id_mask := None)\<rparr>))"

definition cascade_timer :: "nat \<Rightarrow> 'c wheel_timer \<Rightarrow> nat \<Rightarrow> nat \<Rightarrow> 'c timing_wheel \<Rightarrow> 'c timing_wheel" where
  "cascade_timer p t l b w =
     (let lower_level = l - 1;
          lower_bucket = bucket_index (tick_ns w) lower_level (expire_ns t);
          t = t\<lparr>timer_level := lower_level, timer_bucket := lower_bucket,
                timer_id := (timer_id t AND id_mask) OR push_bit 48 (of_nat lower_level)\<rparr>;
          w = put_bucket l b (remove1 p (wheel_buckets w l b)) (w\<lparr>timer_heap := (timer_heap w)(p \<mapsto> t)\<rparr>)
      in put_bucket lower_level (unat lower_bucket)
           (wheel_buckets w lower_level (unat lower_bucket) @ [p]) w)"

definition scan_timer ::
    "int \<Rightarrow> nat \<Rightarrow> nat \<Rightarrow> nat \<Rightarrow> 'c list \<times> 'c timing_wheel \<Rightarrow> 'c list \<times> 'c timing_wheel" where
  "scan_timer now l b p s =
     (case s of (pending, w) \<Rightarrow>
        case timer_heap w p of
          None \<Rightarrow> (pending, w)
        | Some t \<Rightarrow>
            if expire_ns t \<le> now then (pending @ [timer_callback t], fire_timer p t l b w)
            else if l > 0 then (pending, cascade_timer p t l b w)
            else (pending, w))"

definition scan_bucket ::
    "int \<Rightarrow> nat \<times> nat \<Rightarrow> 'c list \<times> 'c timing_wheel \<Rightarrow> 'c list \<times> 'c timing_wheel" where
  "scan_bucket now lb s =
     (case lb of (l, b) \<Rightarrow> fold (scan_timer now l b) (wheel_buckets (snd s) l b) s)"

definition scan_count :: "u32 \<Rightarrow> u32 \<Rightarrow> nat" where
  "scan_count start_bucket end_bucket = unat ((end_bucket - start_bucket + 256) mod 256 + 1)"

definition scan_level ::
    "int \<Rightarrow> int \<Rightarrow> nat \<Rightarrow> 'c list \<times> 'c timing_wheel \<Rightarrow> 'c list \<times> 'c timing_wheel" where
  "scan_level old now l s =
     (let start_bucket = bucket_index (tick_ns (snd s)) l old;
          end_bucket = bucket_index (tick_ns (snd s)) l now
      in fold (\<lambda>i. scan_bucket now (l, unat ((start_bucket + of_nat i) mod 256)))
           [0..<scan_count start_bucket end_bucket] s)"

definition kMaxAdvanceNs :: int where
  "kMaxAdvanceNs = 100000000"

definition advance :: "int \<Rightarrow> 'c timing_wheel \<Rightarrow> 'c list \<times> 'c timing_wheel" where
  "advance now w =
     (let old = wheel_time w
      in if now \<le> old then ([], w)
         else
           let now = (if now - old > kMaxAdvanceNs then old + kMaxAdvanceNs else now);
               (pending, w) = fold (scan_level old now) [0..<num_levels w] ([], w\<lparr>wheel_time := now\<rparr>)
           in (pending, if pending \<noteq> [] then recompute_min_deadline w else w))"

section \<open>Well-formed wheels\<close>

definition wheel_wf :: "int \<Rightarrow> 'c timing_wheel \<Rightarrow> bool" where
  "wheel_wf time w \<longleftrightarrow> 0 < tick_ns w \<and> 0 < num_levels w \<and>
     (\<forall>l b. distinct (wheel_buckets w l b)) \<and>
     (\<forall>l b p. p \<in> set (wheel_buckets w l b) \<longleftrightarrow>
        (\<exists>t. timer_heap w p = Some t \<and> timer_level t = l \<and> unat (timer_bucket t) = b)) \<and>
     (\<forall>p t. timer_heap w p = Some t \<longrightarrow> timer_level t < num_levels w \<and> p < next_address w \<and>
        timer_bucket t = bucket_index (tick_ns w) (timer_level t) (max (expire_ns t) time)) \<and>
     (\<forall>i p. timer_map w i = Some p \<longleftrightarrow> (\<exists>t. timer_heap w p = Some t \<and> timer_id t AND id_mask = i)) \<and>
     (\<forall>i p. timer_map w i = Some p \<longrightarrow> unat i < unat (next_timer_id w)) \<and>
     unat (next_timer_id w) \<le> 2 ^ 48"

lemma id_mask_eq: "id_mask = mask 48"
  by (simp add: id_mask_def mask_eq_exp_minus_1)

lemma masked_level [simp]: "(x OR push_bit 48 y) AND id_mask = x AND id_mask"
  unfolding id_mask_eq by (rule bit_word_eqI) (auto simp: bit_simps)

lemma masked_twice [simp]: "(x AND id_mask) AND id_mask = x AND id_mask"
  by (simp add: and.assoc)

lemma masked_small: "unat x < 2 ^ 48 \<Longrightarrow> x AND id_mask = x"
proof -
  assume "unat x < 2 ^ 48"
  then have "take_bit 48 (unat x) = unat x" by (simp add: take_bit_nat_eq_self_iff)
  then have "take_bit 48 x = x" by (simp add: word_unat_eq_iff unsigned_take_bit_eq)
  then show ?thesis by (simp add: id_mask_eq flip: take_bit_eq_mask)
qed

lemma level_offset_div: "0 < tick \<Longrightarrow> level_offset tick level x = x div (tick * 256 ^ level)"
  unfolding level_offset_def
proof (induction level)
  case (Suc level)
  then show ?case by (simp add: zdiv_zmult2_eq [symmetric] ac_simps)
qed simp

lemma unat_bucket_index: "unat (bucket_index tick l x) = nat (level_offset tick l x mod 256)"
proof -
  let ?x = "level_offset tick l x"
  have m: "(255 :: u32) = mask 8" by (simp add: mask_eq_exp_minus_1)
  have "uint (bucket_index tick l x) = take_bit 8 (take_bit 32 ?x)"
    unfolding bucket_index_def m take_bit_eq_mask [symmetric]
    by (simp add: unsigned_take_bit_eq uint_word_of_int_eq)
  also have "\<dots> = take_bit 8 ?x" by (simp add: take_bit_take_bit)
  finally show ?thesis by (simp add: take_bit_eq_mod unat_eq_nat_uint)
qed

lemma unat_bucket_index_less [simp]: "unat (bucket_index tick l x) < 256"
  by (simp add: unat_bucket_index nat_less_iff)

lemma choose_level_less: "0 < num_levels w \<Longrightarrow> choose_level d w < num_levels w"
  by (auto simp: choose_level_def find_Some_iff split: option.splits)

lemma put_bucket_simps [simp]:
  "tick_ns (put_bucket l b ps w) = tick_ns w" "num_levels (put_bucket l b ps w) = num_levels w"
  "wheel_time (put_bucket l b ps w) = wheel_time w" "min_deadline (put_bucket l b ps w) = min_deadline w"
  "timer_map (put_bucket l b ps w) = timer_map w" "timer_heap (put_bucket l b ps w) = timer_heap w"
  "next_address (put_bucket l b ps w) = next_address w"
  "next_timer_id (put_bucket l b ps w) = next_timer_id w"
  "level_ranges (put_bucket l b ps w) = level_ranges w"
  "wheel_buckets (put_bucket l b ps w) l' b' = (if l' = l \<and> b' = b then ps else wheel_buckets w l' b')"
  by (simp_all add: put_bucket_def)

lemma wf_bucketD:
  "wheel_wf time w \<Longrightarrow> p \<in> set (wheel_buckets w l b) \<longleftrightarrow>
     (\<exists>t. timer_heap w p = Some t \<and> timer_level t = l \<and> unat (timer_bucket t) = b)"
  and wf_distinct: "wheel_wf time w \<Longrightarrow> distinct (wheel_buckets w l b)"
  and wf_timerD: "wheel_wf time w \<Longrightarrow> timer_heap w p = Some t \<Longrightarrow>
     timer_level t < num_levels w \<and> p < next_address w \<and>
     timer_bucket t = bucket_index (tick_ns w) (timer_level t) (max (expire_ns t) time)"
  and wf_mapD: "wheel_wf time w \<Longrightarrow> timer_map w i = Some p \<longleftrightarrow>
     (\<exists>t. timer_heap w p = Some t \<and> timer_id t AND id_mask = i)"
  and wf_idD: "wheel_wf time w \<Longrightarrow> timer_map w i = Some p \<Longrightarrow> unat i < unat (next_timer_id w)"
  and wf_constD: "wheel_wf time w \<Longrightarrow>
     0 < tick_ns w \<and> 0 < num_levels w \<and> unat (next_timer_id w) \<le> 2 ^ 48"
  unfolding wheel_wf_def by blast+

lemma wf_id_unique:
  "wheel_wf time w \<Longrightarrow> timer_heap w p = Some t \<Longrightarrow> timer_heap w q = Some u \<Longrightarrow>
     timer_id t AND id_mask = timer_id u AND id_mask \<Longrightarrow> p = q"
  by (metis wf_mapD option.inject)

lemma fire_timer_simps [simp]:
  "tick_ns (fire_timer p t l b w) = tick_ns w" "num_levels (fire_timer p t l b w) = num_levels w"
  "wheel_time (fire_timer p t l b w) = wheel_time w" "min_deadline (fire_timer p t l b w) = min_deadline w"
  "timer_map (fire_timer p t l b w) = (timer_map w)(timer_id t AND id_mask := None)"
  "timer_heap (fire_timer p t l b w) = (timer_heap w)(p := None)"
  "next_address (fire_timer p t l b w) = next_address w"
  "next_timer_id (fire_timer p t l b w) = next_timer_id w"
  "wheel_buckets (fire_timer p t l b w) l' b' =
     (if l' = l \<and> b' = b then remove1 p (wheel_buckets w l b) else wheel_buckets w l' b')"
  by (simp_all add: fire_timer_def delete_timer_def put_bucket_def)

lemma wf_fire_timer:
  assumes wf: "wheel_wf time w" and t: "timer_heap w p = Some t"
  shows "wheel_wf time (fire_timer p t (timer_level t) (unat (timer_bucket t)) w)"
proof -
  let ?w = "fire_timer p t (timer_level t) (unat (timer_bucket t)) w"
  have b: "q \<in> set (wheel_buckets ?w l b) \<longleftrightarrow>
      (\<exists>u. timer_heap ?w q = Some u \<and> timer_level u = l \<and> unat (timer_bucket u) = b)" for q l b
    using wf_bucketD [OF wf, of q l b] wf_distinct [OF wf, of l b] t by (cases "q = p") auto
  have m: "timer_map ?w i = Some q \<longleftrightarrow> (\<exists>u. timer_heap ?w q = Some u \<and> timer_id u AND id_mask = i)" for i q
  proof (cases "i = timer_id t AND id_mask")
    case True
    then show ?thesis using wf_id_unique [OF wf t, of q] by auto
  next
    case False
    then show ?thesis using wf_mapD [OF wf, of i q] t by (cases "q = p") simp_all
  qed
  have d: "distinct (wheel_buckets ?w l b)" for l b
    using wf_distinct [OF wf, of l b] by (auto intro: distinct_remove1)
  have k: "timer_level u < num_levels ?w \<and> q < next_address ?w \<and>
      timer_bucket u = bucket_index (tick_ns ?w) (timer_level u) (max (expire_ns u) time)"
    if "timer_heap ?w q = Some u" for q u
    using that wf_timerD [OF wf, of q u] by (simp split: if_splits)
  have "0 < tick_ns ?w" "0 < num_levels ?w" "unat (next_timer_id ?w) \<le> 2 ^ 48"
    using wf_constD [OF wf] by simp_all
  moreover have "unat i < unat (next_timer_id ?w)" if "timer_map ?w i = Some q" for i q
    using that wf_idD [OF wf, of i q] by (simp split: if_splits)
  ultimately show ?thesis
    unfolding wheel_wf_def using b d m k by blast
qed

lemma cascade_timer_simps [simp]:
  "tick_ns (cascade_timer p t l b w) = tick_ns w" "num_levels (cascade_timer p t l b w) = num_levels w"
  "wheel_time (cascade_timer p t l b w) = wheel_time w"
  "min_deadline (cascade_timer p t l b w) = min_deadline w"
  "timer_map (cascade_timer p t l b w) = timer_map w"
  "next_address (cascade_timer p t l b w) = next_address w"
  "next_timer_id (cascade_timer p t l b w) = next_timer_id w"
  by (simp_all add: cascade_timer_def Let_def)

definition cascaded :: "'c timing_wheel \<Rightarrow> 'c wheel_timer \<Rightarrow> nat \<Rightarrow> 'c wheel_timer" where
  "cascaded w t l = t\<lparr>timer_level := l, timer_bucket := bucket_index (tick_ns w) l (expire_ns t),
     timer_id := (timer_id t AND id_mask) OR push_bit 48 (of_nat l)\<rparr>"

lemma cascaded_simps [simp]:
  "expire_ns (cascaded w t l) = expire_ns t" "timer_callback (cascaded w t l) = timer_callback t"
  "timer_level (cascaded w t l) = l" "timer_id (cascaded w t l) AND id_mask = timer_id t AND id_mask"
  "timer_bucket (cascaded w t l) = bucket_index (tick_ns w) l (expire_ns t)"
  by (simp_all add: cascaded_def)

lemma cascade_timer_heap [simp]:
  "timer_heap (cascade_timer p t l b w) = (timer_heap w)(p \<mapsto> cascaded w t (l - 1))"
  by (simp add: cascade_timer_def Let_def cascaded_def)

lemma cascade_timer_buckets:
  "wheel_buckets (cascade_timer p t (Suc l) b w) l' b' =
     (if l' = Suc l \<and> b' = b then remove1 p (wheel_buckets w (Suc l) b)
      else if l' = l \<and> b' = unat (bucket_index (tick_ns w) l (expire_ns t))
      then wheel_buckets w l' b' @ [p] else wheel_buckets w l' b')"
  unfolding cascade_timer_def Let_def by simp

lemma wf_cascade_timer:
  assumes wf: "wheel_wf time w" and t: "timer_heap w p = Some t" and e: "time < expire_ns t"
    and l: "timer_level t = Suc k"
  shows "wheel_wf time (cascade_timer p t (Suc k) (unat (timer_bucket t)) w)"
proof -
  let ?w = "cascade_timer p t (Suc k) (unat (timer_bucket t)) w"
  have b: "q \<in> set (wheel_buckets ?w l b) \<longleftrightarrow>
      (\<exists>u. timer_heap ?w q = Some u \<and> timer_level u = l \<and> unat (timer_bucket u) = b)" for q l b
    using wf_bucketD [OF wf, of q l b] wf_distinct [OF wf, of l b] t assms(4)
    by (cases "q = p"; cases "l = Suc k"; cases "l = k") (auto simp: cascade_timer_buckets)
  have d: "distinct (wheel_buckets ?w l b)" for l b
    using wf_bucketD [OF wf, of p l b] wf_distinct [OF wf, of l b] t assms(4)
    by (auto simp: cascade_timer_buckets intro: distinct_remove1)
  have m: "timer_map ?w i = Some q \<longleftrightarrow> (\<exists>u. timer_heap ?w q = Some u \<and> timer_id u AND id_mask = i)" for i q
    using wf_mapD [OF wf, of i q] t by (cases "q = p") simp_all
  have k: "timer_level u < num_levels ?w \<and> q < next_address ?w \<and>
      timer_bucket u = bucket_index (tick_ns ?w) (timer_level u) (max (expire_ns u) time)"
    if "timer_heap ?w q = Some u" for q u
    using that wf_timerD [OF wf] wf_timerD [OF wf t] e l by (auto split: if_splits)
  have "0 < tick_ns ?w" "0 < num_levels ?w" "unat (next_timer_id ?w) \<le> 2 ^ 48"
    using wf_constD [OF wf] by simp_all
  moreover have "unat i < unat (next_timer_id ?w)" if "timer_map ?w i = Some q" for i q
    using that wf_idD [OF wf, of i q] by (simp split: if_splits)
  ultimately show ?thesis
    unfolding wheel_wf_def using b d m k by blast
qed

section \<open>One pass of advance\<close>

definition scanned ::
    "int \<Rightarrow> int \<Rightarrow> 'c timing_wheel \<Rightarrow> (nat \<times> nat) set \<Rightarrow> 'c list \<times> 'c timing_wheel \<Rightarrow> bool" where
  "scanned old now w0 visited s \<longleftrightarrow>
     wheel_wf old (snd s) \<and> tick_ns (snd s) = tick_ns w0 \<and> num_levels (snd s) = num_levels w0 \<and>
     wheel_time (snd s) = wheel_time w0 \<and> next_timer_id (snd s) = next_timer_id w0 \<and>
     min_deadline (snd s) = min_deadline w0 \<and>
     (\<forall>p t. timer_heap (snd s) p = Some t \<longrightarrow>
        (\<exists>t0. timer_heap w0 p = Some t0 \<and> expire_ns t = expire_ns t0 \<and>
           timer_callback t = timer_callback t0 \<and> timer_id t AND id_mask = timer_id t0 AND id_mask \<and>
           (expire_ns t \<le> now \<longrightarrow> t = t0 \<and> (timer_level t, unat (timer_bucket t)) \<notin> visited))) \<and>
     (\<forall>p t0. timer_heap w0 p = Some t0 \<and> timer_heap (snd s) p = None \<longrightarrow> expire_ns t0 \<le> now) \<and>
     mset (fst s) = image_mset (\<lambda>p. timer_callback (the (timer_heap w0 p)))
       (mset_set (dom (timer_heap w0) - dom (timer_heap (snd s))))"

lemma wf_finite_heap: "wheel_wf time w \<Longrightarrow> finite (dom (timer_heap w))"
  by (rule finite_subset [of _ "{..<next_address w}"]) (auto dest: wf_timerD)

lemma scan_timer_heap:
  "q \<noteq> p \<Longrightarrow> timer_heap (snd (scan_timer now l b p s)) q = timer_heap (snd s) q"
  by (cases s) (auto simp: scan_timer_def split: option.splits)

lemma scanned_timer:
  assumes s: "scanned old now w0 V s" and "old < now" and fin: "finite (dom (timer_heap w0))"
    and p: "p \<in> set (wheel_buckets (snd s) l b)"
  shows "scanned old now w0 V (scan_timer now l b p s) \<and>
    (\<forall>t. timer_heap (snd (scan_timer now l b p s)) p = Some t \<longrightarrow> now < expire_ns t)"
proof -
  obtain pending w where sw: "s = (pending, w)" by (cases s)
  have wf: "wheel_wf old w" using s by (simp add: scanned_def sw)
  obtain t where t: "timer_heap w p = Some t" "timer_level t = l" "unat (timer_bucket t) = b"
    using p wf_bucketD [OF wf, of p l b] by (auto simp: sw)
  obtain t0 where t0: "timer_heap w0 p = Some t0" "expire_ns t = expire_ns t0"
    "timer_callback t = timer_callback t0" "timer_id t AND id_mask = timer_id t0 AND id_mask"
    using s t(1) unfolding scanned_def sw snd_conv by blast
  consider (fire) "expire_ns t \<le> now" | (cascade) k where "now < expire_ns t" "l = Suc k"
    | (keep) "now < expire_ns t" "l = 0" by (cases l) fastforce+
  then show ?thesis
  proof cases
    case fire
    have e: "scan_timer now l b p s = (pending @ [timer_callback t], fire_timer p t l b w)"
      using fire t(1) by (simp add: scan_timer_def sw)
    have "dom (timer_heap w0) - dom ((timer_heap w)(p := None)) =
        insert p (dom (timer_heap w0) - dom (timer_heap w))" using t0(1) by auto
    then have "mset_set (dom (timer_heap w0) - dom ((timer_heap w)(p := None))) =
        add_mset p (mset_set (dom (timer_heap w0) - dom (timer_heap w)))"
      using fin t(1) by (simp add: mset_set.insert domIff)
    then have "mset (pending @ [timer_callback t]) =
        image_mset (\<lambda>p. timer_callback (the (timer_heap w0 p)))
          (mset_set (dom (timer_heap w0) - dom ((timer_heap w)(p := None))))"
      using s t0 by (simp add: scanned_def sw)
    then show ?thesis
      using s wf_fire_timer [OF wf t(1)] t fire t0 unfolding e by (simp add: scanned_def sw)
  next
    case cascade
    have e: "scan_timer now l b p s = (pending, cascade_timer p t l b w)"
      using cascade t(1) by (simp add: scan_timer_def sw)
    have "dom ((timer_heap w)(p \<mapsto> cascaded w t k)) = dom (timer_heap w)" using t(1) by auto
    then show ?thesis
      using s wf_cascade_timer [OF wf t(1), of k] t cascade t0 \<open>old < now\<close> unfolding e
      by (simp add: scanned_def sw)
  next
    case keep
    then have "scan_timer now l b p s = s" using t(1) by (simp add: scan_timer_def sw)
    then show ?thesis using s keep t(1) by (simp add: sw)
  qed
qed

lemma scan_timer_bucket:
  assumes "scanned old now w0 V s" and "scanned old now w0 V (scan_timer now l b p s)"
    and "q \<noteq> p" and "q \<in> set (wheel_buckets (snd s) l b)"
  shows "q \<in> set (wheel_buckets (snd (scan_timer now l b p s)) l b)"
proof -
  have "wheel_wf old (snd s)" "wheel_wf old (snd (scan_timer now l b p s))"
    using assms(1,2) by (simp_all add: scanned_def)
  then show ?thesis
    using assms(4) wf_bucketD [of old "snd s" q l b] wf_bucketD [of old "snd (scan_timer now l b p s)" q l b]
      scan_timer_heap [OF assms(3), of now l b s] by simp
qed

lemma scanned_timers:
  assumes "old < now" and "finite (dom (timer_heap w0))"
  shows "scanned old now w0 V s \<Longrightarrow> distinct ps \<Longrightarrow> set ps \<subseteq> set (wheel_buckets (snd s) l b) \<Longrightarrow>
    scanned old now w0 V (fold (scan_timer now l b) ps s) \<and>
    (\<forall>p \<in> set ps. \<forall>t. timer_heap (snd (fold (scan_timer now l b) ps s)) p = Some t \<longrightarrow> now < expire_ns t) \<and>
    (\<forall>q. q \<notin> set ps \<longrightarrow> timer_heap (snd (fold (scan_timer now l b) ps s)) q = timer_heap (snd s) q)"
proof (induction ps arbitrary: s)
  case (Cons p ps)
  let ?s = "scan_timer now l b p s"
  have s: "scanned old now w0 V ?s" "\<forall>t. timer_heap (snd ?s) p = Some t \<longrightarrow> now < expire_ns t"
    using scanned_timer [OF Cons.prems(1) assms, of p l b] Cons.prems(3) by auto
  have "set ps \<subseteq> set (wheel_buckets (snd ?s) l b)"
  proof
    fix q assume "q \<in> set ps"
    then have "q \<noteq> p" "q \<in> set (wheel_buckets (snd s) l b)" using Cons.prems(2,3) by auto
    then show "q \<in> set (wheel_buckets (snd ?s) l b)" by (rule scan_timer_bucket [OF Cons.prems(1) s(1)])
  qed
  then show ?case
    using Cons.IH [OF s(1)] Cons.prems(2) s(2) scan_timer_heap [of _ p now l b s] by simp
qed simp

lemma scanned_bucket:
  assumes "scanned old now w0 V s" and "old < now" and "finite (dom (timer_heap w0))"
  shows "scanned old now w0 (insert lb V) (scan_bucket now lb s)"
proof -
  obtain l b where lb: "lb = (l, b)" by (cases lb)
  let ?ps = "wheel_buckets (snd s) l b" and ?r = "scan_bucket now lb s"
  have wf: "wheel_wf old (snd s)" using assms(1) by (simp add: scanned_def)
  have r: "scanned old now w0 V ?r" "\<forall>p \<in> set ?ps. \<forall>t. timer_heap (snd ?r) p = Some t \<longrightarrow> now < expire_ns t"
    "\<forall>q. q \<notin> set ?ps \<longrightarrow> timer_heap (snd ?r) q = timer_heap (snd s) q"
    using scanned_timers [OF assms(2,3,1) wf_distinct [OF wf] order.refl, of l b]
    by (simp_all add: scan_bucket_def lb)
  have "(timer_level t, unat (timer_bucket t)) \<noteq> lb"
    if "timer_heap (snd ?r) p = Some t" "expire_ns t \<le> now" for p t
  proof -
    have "p \<notin> set ?ps" using r(2) that by force
    then have "p \<notin> set ?ps" "timer_heap (snd s) p = Some t" using r(3) that(1) by simp_all
    then show ?thesis using wf_bucketD [OF wf, of p l b] by (auto simp: lb)
  qed
  then show ?thesis using r(1) unfolding scanned_def by blast
qed

lemma scanned_buckets:
  assumes "old < now" and "finite (dom (timer_heap w0))"
  shows "scanned old now w0 V s \<Longrightarrow> scanned old now w0 (set lbs \<union> V) (fold (scan_bucket now) lbs s)"
proof (induction lbs arbitrary: s V)
  case (Cons lb lbs)
  then show ?case using Cons.IH [OF scanned_bucket [OF Cons.prems assms, of lb]] by simp
qed simp

definition visited_level :: "int \<Rightarrow> int \<Rightarrow> int \<Rightarrow> nat \<Rightarrow> (nat \<times> nat) set" where
  "visited_level tick old now l =
     (\<lambda>i. (l, unat ((bucket_index tick l old + of_nat i) mod 256))) `
       {..<scan_count (bucket_index tick l old) (bucket_index tick l now)}"

lemma scanned_level:
  assumes s: "scanned old now w0 V s" and "old < now" and "finite (dom (timer_heap w0))"
  shows "scanned old now w0 (visited_level (tick_ns w0) old now l \<union> V) (scan_level old now l s)"
proof -
  let ?lb = "\<lambda>i. (l, unat ((bucket_index (tick_ns w0) l old + of_nat i) mod 256))"
  let ?n = "scan_count (bucket_index (tick_ns w0) l old) (bucket_index (tick_ns w0) l now)"
  have "tick_ns (snd s) = tick_ns w0" using s by (simp add: scanned_def)
  then have "scan_level old now l s = fold (scan_bucket now) (map ?lb [0..<?n]) s"
    by (simp add: scan_level_def Let_def fold_map comp_def)
  then show ?thesis
    using scanned_buckets [OF assms(2,3) s, of "map ?lb [0..<?n]"]
    by (simp add: visited_level_def atLeast0LessThan)
qed

lemma scanned_levels:
  assumes "old < now" and "finite (dom (timer_heap w0))"
  shows "scanned old now w0 V s \<Longrightarrow>
    scanned old now w0 (\<Union> (visited_level (tick_ns w0) old now ` set ls) \<union> V) (fold (scan_level old now) ls s)"
proof (induction ls arbitrary: s V)
  case (Cons l ls)
  have "\<Union> (visited_level (tick_ns w0) old now ` set (l # ls)) \<union> V =
      \<Union> (visited_level (tick_ns w0) old now ` set ls) \<union> (visited_level (tick_ns w0) old now l \<union> V)" by auto
  then show ?case using Cons.IH [OF scanned_level [OF Cons.prems assms, of l]] by simp
qed simp

lemma scan_count_eq:
  assumes "unat s < 256" and "unat e < 256"
  shows "scan_count s e = (256 + unat e - unat s) mod 256 + 1"
proof -
  have "s \<le> 256" using assms(1) by (simp add: word_le_nat_alt)
  then have m: "unat (256 - s) = 256 - unat s" using unat_minus_le [of s 256] by simp
  have "unat (e + (256 - s)) = unat e + (256 - unat s)"
    using assms m unat_plus_no_wrap [of e "256 - s"] by simp
  moreover have "e - s + 256 = e + (256 - s)" by simp
  ultimately have "unat (e - s + 256) = unat e + (256 - unat s)" by metis
  then have u: "unat (e - s + 256) = 256 + unat e - unat s" using assms(1) by linarith
  let ?x = "(e - s + 256) mod 256"
  have x: "unat ?x = (256 + unat e - unat s) mod 256" unfolding unat_mod u by simp
  have "unat ?x < 256" unfolding x by simp
  then have "unat (?x + 1) = unat ?x + 1" using unat_plus_no_wrap [of ?x 1] by simp
  then show ?thesis unfolding scan_count_def x .
qed

lemma offset_mono: "0 < tick \<Longrightarrow> x \<le> y \<Longrightarrow> level_offset tick l x \<le> level_offset tick l y"
  by (simp add: level_offset_div zdiv_mono1)

lemma offset_close:
  assumes "0 < tick" and "now - old \<le> 255 * tick"
  shows "level_offset tick l now \<le> level_offset tick l old + 255"
proof -
  let ?c = "tick * 256 ^ l"
  have c: "tick \<le> ?c" "0 < ?c" using assms(1) by simp_all
  then have "now \<le> old + 255 * ?c" using assms(2) by linarith
  then have "now div ?c \<le> (old + 255 * ?c) div ?c" using c(2) by (rule zdiv_mono1)
  then show ?thesis using assms(1) c(2) by (simp add: level_offset_div)
qed

lemma due_bucket_visited:
  assumes "0 < tick" and "old \<le> x" and "x \<le> now" and "now - old \<le> 255 * tick"
  shows "(l, unat (bucket_index tick l x)) \<in> visited_level tick old now l"
proof -
  define A X B where "A = level_offset tick l old" and "X = level_offset tick l x" and "B = level_offset tick l now"
  have ord: "A \<le> X" "X \<le> B" "B \<le> A + 255"
    using offset_mono [OF assms(1)] offset_close [OF assms(1,4)] assms(2,3) by (simp_all add: A_def X_def B_def)
  let ?s = "bucket_index tick l old" and ?i = "nat (X - A)"
  have s: "unat ?s = nat (A mod 256)" and e: "unat (bucket_index tick l now) = nat (B mod 256)"
    by (simp_all add: unat_bucket_index A_def B_def)
  have i: "?i < 256" using ord by linarith
  have "scan_count ?s (bucket_index tick l now) = (256 + nat (B mod 256) - nat (A mod 256)) mod 256 + 1"
    by (simp add: scan_count_eq s e)
  also have "(256 + nat (B mod 256) - nat (A mod 256)) mod 256 = nat (B - A)"
  proof -
    have "int ((256 + nat (B mod 256) - nat (A mod 256)) mod 256) = (256 + B mod 256 - A mod 256) mod 256"
      by (simp add: zmod_int of_nat_diff nat_le_iff add_increasing2 order.trans [OF mod_le_divisor])
    also have "256 + B mod 256 - A mod 256 = (B mod 256 - A mod 256) + 256" by simp
    also have "\<dots> mod 256 = (B - A) mod 256" by (simp only: mod_add_self2 mod_diff_eq)
    also have "\<dots> = B - A" using ord by simp
    finally show ?thesis by linarith
  qed
  finally have n: "?i < scan_count ?s (bucket_index tick l now)" using ord by linarith
  have "unat (?s + of_nat ?i) = nat (A mod 256) + ?i"
    using i by (subst unat_plus_no_wrap) (simp_all add: unat_of_nat s)
  then have "unat ((?s + of_nat ?i) mod 256) = (nat (A mod 256) + ?i) mod 256" by (simp add: unat_mod)
  also have "\<dots> = nat (X mod 256)"
  proof -
    have "int ((nat (A mod 256) + ?i) mod 256) = (A mod 256 + (X - A)) mod 256" using ord by (simp add: zmod_int)
    also have "\<dots> = X mod 256" by (simp add: mod_simps)
    finally show ?thesis by linarith
  qed
  finally show ?thesis using n unfolding visited_level_def
    by (intro image_eqI [of _ _ ?i]) (simp_all add: unat_bucket_index X_def)
qed

section \<open>Refinement of a table of pending timers\<close>

definition wheel_deadlines :: "'c timing_wheel \<Rightarrow> int set" where
  "wheel_deadlines w = expire_ns ` ran (timer_heap w)"

definition wheel_ok :: "'c timing_wheel \<Rightarrow> bool" where
  "wheel_ok w \<longleftrightarrow> wheel_wf (wheel_time w) w \<and> min_deadline w = Min (insert INT64_MAX (wheel_deadlines w))"

definition wheel_timers :: "'c timing_wheel \<Rightarrow> u64 \<Rightarrow> (int \<times> 'c) option" where
  "wheel_timers w i =
     (case timer_map w i of
        None \<Rightarrow> None
      | Some p \<Rightarrow> map_option (\<lambda>t. (expire_ns t, timer_callback t)) (timer_heap w p))"

lemma wheel_timers_Some:
  "wheel_wf time w \<Longrightarrow> wheel_timers w i = Some (e, c) \<longleftrightarrow>
     (\<exists>p t. timer_heap w p = Some t \<and> timer_id t AND id_mask = i \<and> expire_ns t = e \<and> timer_callback t = c)"
  by (auto simp: wheel_timers_def wf_mapD split: option.splits) (metis wf_mapD option.inject option.distinct(1))+

lemma wf_cong:
  "wheel_wf time w \<Longrightarrow> wheel_wf time (w\<lparr>min_deadline := m\<rparr>)" "wheel_wf time w \<Longrightarrow> wheel_wf time (w\<lparr>wheel_time := m\<rparr>)"
  by (simp_all add: wheel_wf_def)

lemma wf_bucket_less:
  assumes "wheel_wf time w" and "timer_heap w p = Some t"
  shows "unat (timer_bucket t) < 256"
  using wf_timerD [OF assms] unat_bucket_index_less by metis

lemma set_all_timers: "wheel_wf time w \<Longrightarrow> set (all_timers w) = dom (timer_heap w)"
  by (auto simp: all_timers_def wf_bucketD wf_bucket_less dest: wf_timerD)

lemma fold_min_Min:
  fixes f :: "'a \<Rightarrow> int"
  shows "fold (\<lambda>p m. min m (f p)) xs m = Min (insert m (f ` set xs))"
proof (induction xs arbitrary: m)
  case (Cons x xs)
  then show ?case by (cases "xs = []") (simp_all add: min.assoc)
qed simp

lemma finite_wheel_deadlines: "wheel_wf time w \<Longrightarrow> finite (wheel_deadlines w)"
  by (simp add: wheel_deadlines_def wf_finite_heap finite_ran)

lemma recompute_min:
  assumes "wheel_wf time w"
  shows "min_deadline (recompute_min_deadline w) = Min (insert INT64_MAX (wheel_deadlines w))"
proof -
  let ?f = "\<lambda>p. expire_ns (the (timer_heap w p))"
  have s: "set (all_timers w) = dom (timer_heap w)" using assms by (rule set_all_timers)
  have "fold (\<lambda>p m. case timer_heap w p of Some t \<Rightarrow> min m (expire_ns t) | None \<Rightarrow> m) (all_timers w) INT64_MAX =
      fold (\<lambda>p m. min m (?f p)) (all_timers w) INT64_MAX"
    by (rule fold_cong) (auto simp: s fun_eq_iff)
  moreover have "?f ` dom (timer_heap w) = wheel_deadlines w"
    by (force simp: wheel_deadlines_def ran_def image_def)
  ultimately show ?thesis by (simp add: recompute_min_deadline_def fold_min_Min s)
qed

lemma recompute_simps [simp]:
  "timer_heap (recompute_min_deadline w) = timer_heap w" "timer_map (recompute_min_deadline w) = timer_map w"
  "wheel_time (recompute_min_deadline w) = wheel_time w" "tick_ns (recompute_min_deadline w) = tick_ns w"
  "num_levels (recompute_min_deadline w) = num_levels w" "next_timer_id (recompute_min_deadline w) = next_timer_id w"
  "wheel_wf time w \<Longrightarrow> wheel_wf time (recompute_min_deadline w)"
  "wheel_timers (recompute_min_deadline w) = wheel_timers w"
  "wheel_deadlines (recompute_min_deadline w) = wheel_deadlines w"
  by (simp_all add: recompute_min_deadline_def wf_cong wheel_timers_def wheel_deadlines_def fun_eq_iff split: option.splits)

lemma recompute_ok: "wheel_wf (wheel_time w) w \<Longrightarrow> wheel_ok (recompute_min_deadline w)"
  by (simp add: wheel_ok_def recompute_min)

definition due_ids :: "int \<Rightarrow> (u64 \<Rightarrow> (int \<times> 'c) option) \<Rightarrow> u64 set" where
  "due_ids now T = {i. \<exists>e c. T i = Some (e, c) \<and> e \<le> now}"

definition due_callbacks :: "int \<Rightarrow> (u64 \<Rightarrow> (int \<times> 'c) option) \<Rightarrow> 'c multiset" where
  "due_callbacks now T = image_mset (\<lambda>i. snd (the (T i))) (mset_set (due_ids now T))"

lemma due_callbacks_heap:
  assumes wf: "wheel_wf time w" and P: "P = {p. \<exists>t. timer_heap w p = Some t \<and> expire_ns t \<le> now}"
  shows "due_callbacks now (wheel_timers w) =
    image_mset (\<lambda>p. timer_callback (the (timer_heap w p))) (mset_set P)"
proof -
  let ?id = "\<lambda>p. timer_id (the (timer_heap w p)) AND id_mask"
  have inj: "inj_on ?id P" using wf_id_unique [OF wf] by (auto simp: inj_on_def P)
  have ids: "due_ids now (wheel_timers w) = ?id ` P"
    by (force simp: due_ids_def wheel_timers_Some [OF wf] P)
  have cb: "snd (the (wheel_timers w (?id p))) = timer_callback (the (timer_heap w p))" if "p \<in> P" for p
  proof -
    obtain t where "timer_heap w p = Some t" using \<open>p \<in> P\<close> by (auto simp: P)
    moreover then have "timer_map w (?id p) = Some p" using wf_mapD [OF wf] by auto
    ultimately show ?thesis by (simp add: wheel_timers_def)
  qed
  have "finite P" by (rule finite_subset [OF _ wf_finite_heap [OF wf]]) (auto simp: P)
  then show ?thesis
    unfolding due_callbacks_def ids image_mset_mset_set [OF inj, symmetric] multiset.map_comp comp_def
    using cb by (intro image_mset_cong) simp
qed

definition after_due :: "int \<Rightarrow> (u64 \<Rightarrow> (int \<times> 'c) option) \<Rightarrow> u64 \<Rightarrow> (int \<times> 'c) option" where
  "after_due now T = (\<lambda>i. if i \<in> due_ids now T then None else T i)"

definition clamp_now :: "int \<Rightarrow> int \<Rightarrow> int" where
  "clamp_now old now = (if now - old > kMaxAdvanceNs then old + kMaxAdvanceNs else now)"

lemma scan_all:
  fixes w :: "'c timing_wheel"
  assumes wf: "wheel_wf old w" and "old < now" and step: "now - old \<le> 255 * tick_ns w"
    and r: "fold (scan_level old now) [0..<num_levels w] ([], w) = (pending, w')"
  shows "scanned old now w UNIV (pending, w')"
proof -
  have "scanned old now w {} ([], w)" using wf by (auto simp: scanned_def)
  from scanned_levels [OF \<open>old < now\<close> wf_finite_heap [OF wf] this, of "[0..<num_levels w]"]
  have s: "scanned old now w (\<Union> (visited_level (tick_ns w) old now ` {0..<num_levels w})) (pending, w')"
    (is "scanned _ _ _ ?V _") by (simp add: r)
  have "(timer_level t, unat (timer_bucket t)) \<in> ?V" if "timer_heap w p = Some t" "expire_ns t \<le> now" for p t
  proof -
    have "(timer_level t, unat (timer_bucket t)) \<in> visited_level (tick_ns w) old now (timer_level t)"
      using due_bucket_visited [of "tick_ns w" old "max (expire_ns t) old" now "timer_level t"]
        wf_timerD [OF wf that(1)] wf_constD [OF wf] step that(2) \<open>old < now\<close> by simp
    then show ?thesis using wf_timerD [OF wf that(1)] by auto
  qed
  then show ?thesis using s unfolding scanned_def by blast
qed

lemma wf_later:
  assumes wf: "wheel_wf old w" and "old \<le> now" and late: "\<And>p t. timer_heap w p = Some t \<Longrightarrow> now < expire_ns t"
  shows "wheel_wf now w"
proof -
  have "max (expire_ns t) old = max (expire_ns t) now" if "timer_heap w p = Some t" for p t
    using late [OF that] assms(2) by simp
  then have "\<forall>p t. timer_heap w p = Some t \<longrightarrow> timer_level t < num_levels w \<and> p < next_address w \<and>
      timer_bucket t = bucket_index (tick_ns w) (timer_level t) (max (expire_ns t) now)"
    using wf_timerD [OF wf] by metis
  then show ?thesis using wf unfolding wheel_wf_def by blast
qed

lemma scanned_late:
  assumes s: "scanned old now w UNIV (pending, w')" and t: "timer_heap w' p = Some t"
  shows "now < expire_ns t"
proof (rule ccontr)
  assume "\<not> now < expire_ns t"
  then have "expire_ns t \<le> now" by simp
  then show False using s t unfolding scanned_def snd_conv by blast
qed

lemma scanned_old:
  assumes s: "scanned old now w V (pending, w')" and t: "timer_heap w' p = Some t"
  shows "\<exists>t0. timer_heap w p = Some t0 \<and> expire_ns t = expire_ns t0 \<and>
    timer_callback t = timer_callback t0 \<and> timer_id t AND id_mask = timer_id t0 AND id_mask"
  using s t unfolding scanned_def snd_conv by blast

lemma scanned_kept:
  assumes s: "scanned old now w V (pending, w')" and t0: "timer_heap w p = Some t0" "now < expire_ns t0"
  shows "\<exists>t. timer_heap w' p = Some t"
proof (cases "timer_heap w' p")
  case None
  then have "expire_ns t0 \<le> now" using s t0 unfolding scanned_def snd_conv by blast
  then show ?thesis using t0 by simp
qed simp

lemma scanned_fired:
  assumes s: "scanned old now w UNIV (pending, w')"
  shows "dom (timer_heap w) - dom (timer_heap w') = {p. \<exists>t. timer_heap w p = Some t \<and> expire_ns t \<le> now}"
    (is "_ = ?P")
proof (intro equalityI subsetI)
  fix p assume "p \<in> dom (timer_heap w) - dom (timer_heap w')"
  then obtain t0 where t0: "timer_heap w p = Some t0" "timer_heap w' p = None" by auto
  then have "\<not> now < expire_ns t0" using scanned_kept [OF s, of p t0] by auto
  then show "p \<in> ?P" using t0 by simp
next
  fix p assume "p \<in> ?P"
  then obtain t0 where t0: "timer_heap w p = Some t0" "expire_ns t0 \<le> now" by auto
  have "timer_heap w' p = None"
  proof (cases "timer_heap w' p")
    case (Some t)
    then show ?thesis using scanned_old [OF s Some] scanned_late [OF s Some] t0 by simp
  qed simp
  then show "p \<in> dom (timer_heap w) - dom (timer_heap w')" using t0 by auto
qed

lemma scanned_pending:
  assumes s: "scanned old now w UNIV (pending, w')" and wf: "wheel_wf old w"
  shows "mset pending = due_callbacks now (wheel_timers w)"
  using s unfolding due_callbacks_heap [OF wf refl] scanned_def fst_conv snd_conv scanned_fired [OF s] by blast

lemma scanned_timers_left:
  fixes w :: "'c timing_wheel"
  assumes s: "scanned old now w UNIV (pending, w')" and wf: "wheel_wf old w"
  shows "wheel_timers w' = after_due now (wheel_timers w)"
proof (intro ext option_eqI)
  fix i and ec :: "int \<times> 'c"
  have wf': "wheel_wf old w'" using s by (simp add: scanned_def)
  obtain e c where ec: "ec = (e, c)" by (cases ec)
  have "wheel_timers w' i = Some (e, c) \<longleftrightarrow> wheel_timers w i = Some (e, c) \<and> now < e"
  proof
    assume "wheel_timers w' i = Some (e, c)"
    then obtain p t where t: "timer_heap w' p = Some t" "timer_id t AND id_mask = i" "expire_ns t = e"
      "timer_callback t = c" unfolding wheel_timers_Some [OF wf'] by blast
    then show "wheel_timers w i = Some (e, c) \<and> now < e"
      using scanned_old [OF s t(1)] scanned_late [OF s t(1)] unfolding wheel_timers_Some [OF wf] by metis
  next
    assume "wheel_timers w i = Some (e, c) \<and> now < e"
    then obtain p t0 where t0: "timer_heap w p = Some t0" "timer_id t0 AND id_mask = i" "expire_ns t0 = e"
      "timer_callback t0 = c" "now < expire_ns t0" unfolding wheel_timers_Some [OF wf] by blast
    then obtain t where t: "timer_heap w' p = Some t" using scanned_kept [OF s] by blast
    then show "wheel_timers w' i = Some (e, c)"
      using scanned_old [OF s t] t0 unfolding wheel_timers_Some [OF wf'] by (metis option.inject)
  qed
  then show "(wheel_timers w' i = Some ec) = (after_due now (wheel_timers w) i = Some ec)"
    by (auto simp: ec after_due_def due_ids_def)
qed

lemma scanned_deadlines:
  assumes s: "scanned old now w UNIV ([], w')" and wf: "wheel_wf old w"
  shows "wheel_deadlines w' = wheel_deadlines w"
proof -
  let ?P = "{p. \<exists>t. timer_heap w p = Some t \<and> expire_ns t \<le> now}"
  have "mset_set ?P = {#}"
    using s unfolding scanned_def fst_conv snd_conv scanned_fired [OF s] by simp
  moreover have "finite ?P" by (rule finite_subset [OF _ wf_finite_heap [OF wf]]) auto
  ultimately have "?P = {}" by (simp add: mset_set_empty_iff)
  then have d: "dom (timer_heap w) \<subseteq> dom (timer_heap w')" using scanned_fired [OF s] by blast
  show ?thesis
  proof (intro equalityI subsetI)
    fix e assume "e \<in> wheel_deadlines w'"
    then obtain p t where t: "timer_heap w' p = Some t" "e = expire_ns t"
      by (auto simp: wheel_deadlines_def ran_def)
    then show "e \<in> wheel_deadlines w" using scanned_old [OF s t(1)] by (auto simp: wheel_deadlines_def intro: ranI)
  next
    fix e assume "e \<in> wheel_deadlines w"
    then obtain p t0 where t0: "timer_heap w p = Some t0" "e = expire_ns t0"
      by (auto simp: wheel_deadlines_def ran_def)
    then obtain t where t: "timer_heap w' p = Some t" using d by blast
    then have "e = expire_ns t" using scanned_old [OF s t] t0 by auto
    then show "e \<in> wheel_deadlines w'" using ranI [of "timer_heap w'" p t] t by (simp add: wheel_deadlines_def)
  qed
qed

lemma advance_ok:
  assumes ok: "wheel_ok w" and tick: "kMaxAdvanceNs \<le> 255 * tick_ns w" and later: "wheel_time w < now"
    and r: "advance now w = (pending, w')"
  shows "wheel_ok w' \<and> wheel_time w' = clamp_now (wheel_time w) now \<and> tick_ns w' = tick_ns w \<and>
    wheel_timers w' = after_due (wheel_time w') (wheel_timers w) \<and>
    mset pending = due_callbacks (wheel_time w') (wheel_timers w)"
proof -
  define old where "old = wheel_time w"
  define n where "n = clamp_now old now"
  define w0 where "w0 = w\<lparr>wheel_time := n\<rparr>"
  have n: "old < n" "n - old \<le> 255 * tick_ns w0"
    using tick later by (simp_all add: n_def clamp_now_def old_def w0_def kMaxAdvanceNs_def)
  have wf: "wheel_wf old w0" and same: "wheel_timers w0 = wheel_timers w" "wheel_deadlines w0 = wheel_deadlines w"
    using ok by (auto simp: w0_def wheel_ok_def old_def wf_cong wheel_timers_def [abs_def] wheel_deadlines_def
        cong: option.case_cong)
  obtain w1 where f: "fold (scan_level old n) [0..<num_levels w0] ([], w0) = (pending, w1)"
    and w': "w' = (if pending \<noteq> [] then recompute_min_deadline w1 else w1)"
    using r later by (auto simp: advance_def Let_def n_def w0_def clamp_now_def old_def split: prod.splits)
  have s: "scanned old n w0 UNIV (pending, w1)" using wf n f by (rule scan_all)
  have wf1: "wheel_wf n w1"
    by (rule wf_later [OF _ less_imp_le [OF n(1)] scanned_late [OF s]]) (use s in \<open>simp add: scanned_def\<close>)
  have t1: "wheel_time w1 = n" "min_deadline w1 = min_deadline w" "tick_ns w1 = tick_ns w"
    using s by (simp_all add: scanned_def w0_def)
  have "wheel_ok w'"
  proof (cases "pending = []")
    case True
    then have "scanned old n w0 UNIV ([], w1)" using s by simp
    then have "wheel_deadlines w1 = wheel_deadlines w" using scanned_deadlines [OF _ wf] same by simp
    then show ?thesis using ok wf1 t1 True by (simp add: wheel_ok_def w')
  next
    case False
    then show ?thesis using recompute_ok [of w1] wf1 t1 by (simp add: w')
  qed
  moreover have "wheel_time w' = n" "tick_ns w' = tick_ns w" "wheel_timers w' = wheel_timers w1"
    using t1 by (simp_all add: w')
  ultimately show ?thesis
    using scanned_timers_left [OF s wf] scanned_pending [OF s wf] same by (simp add: n_def old_def)
qed

definition placed :: "'c wheel_timer \<Rightarrow> 'c timing_wheel \<Rightarrow> 'c wheel_timer" where
  "placed t w =
     (let e = max (expire_ns t) (wheel_time w); l = choose_level (e - wheel_time w) w
      in t\<lparr>timer_level := l, timer_bucket := bucket_index (tick_ns w) l e,
           timer_id := timer_id t OR push_bit 48 (of_nat l)\<rparr>)"

lemma placed_simps [simp]:
  "expire_ns (placed t w) = expire_ns t" "timer_callback (placed t w) = timer_callback t"
  "timer_id (placed t w) AND id_mask = timer_id t AND id_mask"
  "0 < num_levels w \<Longrightarrow> timer_level (placed t w) < num_levels w"
  "timer_bucket (placed t w) = bucket_index (tick_ns w) (timer_level (placed t w)) (max (expire_ns t) (wheel_time w))"
  by (simp_all add: placed_def Let_def choose_level_less)

lemma insert_timer_eq:
  "insert_timer p t w =
     put_bucket (timer_level (placed t w)) (unat (timer_bucket (placed t w)))
       (wheel_buckets w (timer_level (placed t w)) (unat (timer_bucket (placed t w))) @ [p])
       (w\<lparr>timer_heap := (timer_heap w)(p \<mapsto> placed t w)\<rparr>)"
  by (simp add: insert_timer_def placed_def Let_def)

lemma Min_insert_sentinel:
  "finite (A :: int set) \<Longrightarrow> Min (insert m (insert e A)) = min e (Min (insert m A))"
  by (subst insert_commute) simp

lemma schedule_shape:
  assumes wf: "wheel_wf (wheel_time w) w" and room: "unat (next_timer_id w) < 2 ^ 48"
    and r: "schedule_at e c w = (i, w')"
  obtains u where "timer_heap w' = (timer_heap w)(next_address w \<mapsto> u)"
    "timer_map w' = (timer_map w)(next_timer_id w \<mapsto> next_address w)"
    "wheel_buckets w' = (\<lambda>l b. if l = timer_level u \<and> b = unat (timer_bucket u)
       then wheel_buckets w l b @ [next_address w] else wheel_buckets w l b)"
    "expire_ns u = e" "timer_callback u = c" "timer_id u AND id_mask = next_timer_id w" "i = timer_id u"
    "timer_level u < num_levels w"
    "timer_bucket u = bucket_index (tick_ns w) (timer_level u) (max e (wheel_time w))"
    "tick_ns w' = tick_ns w" "num_levels w' = num_levels w" "wheel_time w' = wheel_time w"
    "next_address w' = Suc (next_address w)" "unat (next_timer_id w') = Suc (unat (next_timer_id w))"
    "min_deadline w' = min e (min_deadline w)"
proof -
  let ?p = "next_address w" and ?n = "next_timer_id w"
  let ?t = "\<lparr>expire_ns = e, timer_id = ?n, timer_callback = c, timer_level = 0, timer_bucket = 0\<rparr>"
  define x where "x = w\<lparr>next_address := Suc ?p, next_timer_id := ?n + 1, timer_map := (timer_map w)(?n \<mapsto> ?p),
    min_deadline := (if e < min_deadline w then e else min_deadline w)\<rparr>"
  have x: "wheel_buckets x = wheel_buckets w" "timer_heap x = timer_heap w" "tick_ns x = tick_ns w"
    "num_levels x = num_levels w" "wheel_time x = wheel_time w" "0 < num_levels w"
    "timer_map x = (timer_map w)(?n \<mapsto> ?p)" "next_address x = Suc ?p" "next_timer_id x = ?n + 1"
    "min_deadline x = min e (min_deadline w)"
    using wf_constD [OF wf] by (simp_all add: x_def)
  have w': "w' = insert_timer ?p ?t x" and i: "i = timer_id (placed ?t x)"
    using r by (auto simp: schedule_at_def add_timer_internal_def Let_def insert_timer_eq x_def)
  have "unat (?n + 1) = Suc (unat ?n)" using room unat_plus_no_wrap [of ?n 1] by simp
  then show ?thesis
    using masked_small [OF room] x placed_simps(4) [of x ?t]
    by (intro that [of "placed ?t x"]) (simp_all add: w' i insert_timer_eq fun_eq_iff)
qed

lemma schedule_wf:
  assumes wf: "wheel_wf (wheel_time w) w" and room: "unat (next_timer_id w) < 2 ^ 48"
    and r: "schedule_at e c w = (i, w')"
  shows "wheel_wf (wheel_time w) w'"
proof -
  let ?p = "next_address w" and ?n = "next_timer_id w"
  obtain u where u: "timer_heap w' = (timer_heap w)(?p \<mapsto> u)" "timer_map w' = (timer_map w)(?n \<mapsto> ?p)"
    "wheel_buckets w' = (\<lambda>l b. if l = timer_level u \<and> b = unat (timer_bucket u)
       then wheel_buckets w l b @ [?p] else wheel_buckets w l b)"
    "expire_ns u = e" "timer_id u AND id_mask = ?n" "timer_level u < num_levels w"
    "timer_bucket u = bucket_index (tick_ns w) (timer_level u) (max e (wheel_time w))"
    and w': "tick_ns w' = tick_ns w" "num_levels w' = num_levels w"
    "next_address w' = Suc ?p" "unat (next_timer_id w') = Suc (unat ?n)"
    by (rule schedule_shape [OF assms])
  have p: "timer_heap w ?p = None" using wf_timerD [OF wf, of ?p] by (cases "timer_heap w ?p") auto
  have n: "timer_map w ?n = None" using wf_idD [OF wf, of ?n] by (cases "timer_map w ?n") auto
  have fresh: "timer_id t AND id_mask \<noteq> ?n" if "timer_heap w q = Some t" for q t
    using n wf_mapD [OF wf, of "timer_id t AND id_mask" q] that by auto
  have pb: "?p \<notin> set (wheel_buckets w l b)" for l b using p wf_bucketD [OF wf, of ?p l b] by simp
  show ?thesis
    unfolding wheel_wf_def
  proof (intro conjI allI impI)
    show "0 < tick_ns w'" "0 < num_levels w'" "unat (next_timer_id w') \<le> 2 ^ 48"
      using wf_constD [OF wf] room by (simp_all add: w')
    fix l b q
    show "distinct (wheel_buckets w' l b)" using wf_distinct [OF wf, of l b] pb by (auto simp: u(3))
    show "(q \<in> set (wheel_buckets w' l b)) =
        (\<exists>t. timer_heap w' q = Some t \<and> timer_level t = l \<and> unat (timer_bucket t) = b)"
      using wf_bucketD [OF wf, of q l b] pb [of l b] by (cases "q = ?p") (auto simp: u(1,3))
  next
    fix q t assume "timer_heap w' q = Some t"
    then show "timer_level t < num_levels w'" "q < next_address w'"
      "timer_bucket t = bucket_index (tick_ns w') (timer_level t) (max (expire_ns t) (wheel_time w))"
      using wf_timerD [OF wf, of q t] u(4,6,7) by (auto simp: u(1) w' split: if_splits)
  next
    fix j q
    show "(timer_map w' j = Some q) = (\<exists>t. timer_heap w' q = Some t \<and> timer_id t AND id_mask = j)"
      using wf_mapD [OF wf, of j q] p n fresh [of q] u(5) unfolding u(1,2)
      by (cases "q = ?p"; cases "j = ?n") auto
  next
    fix j q assume "timer_map w' j = Some q"
    then show "unat j < unat (next_timer_id w')"
      using wf_idD [OF wf, of j q] by (simp add: u(2) w' split: if_splits)
  qed
qed

lemma schedule_ok:
  assumes ok: "wheel_ok w" and room: "unat (next_timer_id w) < 2 ^ 48" and r: "schedule_at e c w = (i, w')"
  shows "wheel_ok w' \<and> wheel_time w' = wheel_time w \<and> tick_ns w' = tick_ns w \<and>
    wheel_timers w (i AND id_mask) = None \<and> wheel_timers w' = (wheel_timers w)(i AND id_mask \<mapsto> (e, c))"
proof -
  let ?p = "next_address w" and ?n = "next_timer_id w"
  have wf: "wheel_wf (wheel_time w) w" using ok by (simp add: wheel_ok_def)
  obtain u where u: "timer_heap w' = (timer_heap w)(?p \<mapsto> u)" "timer_map w' = (timer_map w)(?n \<mapsto> ?p)"
    "expire_ns u = e" "timer_callback u = c" "timer_id u AND id_mask = ?n" "i = timer_id u"
    and w': "tick_ns w' = tick_ns w" "wheel_time w' = wheel_time w" "min_deadline w' = min e (min_deadline w)"
    by (rule schedule_shape [OF wf room r])
  have p: "timer_heap w ?p = None" using wf_timerD [OF wf, of ?p] by (cases "timer_heap w ?p") auto
  have n: "timer_map w ?n = None" using wf_idD [OF wf, of ?n] by (cases "timer_map w ?n") auto
  have "wheel_timers w' j = ((wheel_timers w)(?n \<mapsto> (e, c))) j" for j
    using p wf_mapD [OF wf, of j ?p] by (auto simp: wheel_timers_def u split: option.splits)
  then have "wheel_timers w' = (wheel_timers w)(?n \<mapsto> (e, c))" by (rule ext)
  moreover have dl: "wheel_deadlines w' = insert e (wheel_deadlines w)" using p u by (simp add: wheel_deadlines_def)
  have "min_deadline w' = Min (insert INT64_MAX (wheel_deadlines w'))"
    unfolding w'(3) dl Min_insert_sentinel [OF finite_wheel_deadlines [OF wf]]
    using ok unfolding wheel_ok_def by metis
  ultimately show ?thesis
    using schedule_wf [OF wf room r] n u w' by (simp add: wheel_ok_def wheel_timers_def)
qed

lemma cancel_ok:
  assumes ok: "wheel_ok w" and r: "cancel tid w = (found, w')"
  shows "wheel_ok w' \<and> wheel_time w' = wheel_time w \<and> tick_ns w' = tick_ns w \<and>
    next_timer_id w' = next_timer_id w \<and>
    found = (wheel_timers w (tid AND id_mask) \<noteq> None) \<and> wheel_timers w' = (wheel_timers w)(tid AND id_mask := None)"
proof (cases "timer_map w (tid AND id_mask)")
  case None
  then show ?thesis
    using ok r by (auto simp: cancel_def remove_timer_def Let_def wheel_timers_def)
next
  case (Some p)
  let ?i = "tid AND id_mask"
  have wf: "wheel_wf (wheel_time w) w" using ok by (simp add: wheel_ok_def)
  obtain t where t: "timer_heap w p = Some t" "timer_id t AND id_mask = ?i"
    using wf_mapD [OF wf, of ?i p] Some by auto
  let ?f = "fire_timer p t (timer_level t) (unat (timer_bucket t)) w"
  have f: "wheel_wf (wheel_time w) ?f" using wf t(1) by (rule wf_fire_timer)
  define x where "x = put_bucket (timer_level t) (unat (timer_bucket t))
    (remove1 p (wheel_buckets w (timer_level t) (unat (timer_bucket t)))) (w\<lparr>timer_map := (timer_map w)(?i := None)\<rparr>)"
  have fx: "?f = delete_timer p x" by (simp add: fire_timer_def x_def t)
  have rt: "remove_timer tid w = (Some (p, t), x)"
    using Some t wf_timerD [OF wf t(1)] wf_bucket_less [OF wf t(1)] by (simp add: remove_timer_def Let_def x_def)
  have m: "fold (\<lambda>p m. case timer_heap x p of Some t \<Rightarrow> min m (expire_ns t) | None \<Rightarrow> m) (all_timers x) INT64_MAX
      = min_deadline (recompute_min_deadline ?f)"
  proof -
    have "all_timers x = all_timers ?f" by (simp add: fx delete_timer_def all_timers_def)
    moreover have "p \<notin> set (all_timers ?f)" unfolding set_all_timers [OF f] by simp
    ultimately show ?thesis
      unfolding recompute_min_deadline_def by (auto simp: fx delete_timer_def intro!: fold_cong)
  qed
  have w': "w' = (if expire_ns t \<le> min_deadline w then recompute_min_deadline ?f else ?f)" and found: "found"
    using r rt m by (auto simp: cancel_def fx recompute_min_deadline_def delete_timer_def x_def)
  have ran: "wheel_deadlines w = insert (expire_ns t) (wheel_deadlines ?f)"
  proof -
    have "ran (timer_heap w) = insert t (ran ((timer_heap w)(p := None)))"
      using t(1) ran_map_upd [of "(timer_heap w)(p := None)" p t] by (simp add: fun_upd_idem)
    then show ?thesis unfolding wheel_deadlines_def by simp
  qed
  have "wheel_ok w'"
  proof (cases "expire_ns t \<le> min_deadline w")
    case False
    have "min_deadline w = min (expire_ns t) (Min (insert INT64_MAX (wheel_deadlines ?f)))"
      unfolding Min_insert_sentinel [OF finite_wheel_deadlines [OF f], symmetric] ran [symmetric]
      using ok by (simp add: wheel_ok_def)
    then show ?thesis using False f by (simp add: w' wheel_ok_def)
  next
    case True
    then show ?thesis using recompute_ok [of ?f] f by (simp add: w')
  qed
  moreover have "wheel_timers ?f j = ((wheel_timers w)(?i := None)) j" for j
  proof (cases "j = ?i")
    case False
    then have "timer_map w j \<noteq> Some p" using wf_mapD [OF wf, of j p] t by simp
    then show ?thesis using False by (simp add: wheel_timers_def t split: option.splits)
  qed (simp add: wheel_timers_def t)
  then have "wheel_timers w' = (wheel_timers w)(?i := None)" by (auto simp: w')
  moreover have "wheel_timers w ?i \<noteq> None" using Some t by (simp add: wheel_timers_def)
  ultimately show ?thesis using found by (simp add: w')
qed

section \<open>The contract of a timer service\<close>

fun run_advances :: "(int \<Rightarrow> 'w \<Rightarrow> 'c list \<times> 'w) \<Rightarrow> int list \<Rightarrow> 'w \<Rightarrow> 'c list \<times> 'w" where
  "run_advances adv [] w = ([], w)"
| "run_advances adv (now # nows) w =
     (let (fired, w) = adv now w; (rest, w) = run_advances adv nows w in (fired @ rest, w))"

lemma after_due_twice: "a \<le> b \<Longrightarrow> after_due b (after_due a T) = after_due b T"
  by (fastforce simp: after_due_def due_ids_def fun_eq_iff)

lemma due_callbacks_split:
  assumes "a \<le> b"
  shows "due_callbacks a T + due_callbacks b (after_due a T) = due_callbacks b T"
proof -
  let ?A = "due_ids a T" and ?B = "due_ids b (after_due a T)"
  have "i \<in> due_ids b T \<longleftrightarrow> i \<in> ?A \<or> i \<in> ?B" for i
    using assms by (cases "T i") (auto simp: due_ids_def after_due_def)
  then have u: "due_ids b T = ?A \<union> ?B" by blast
  have d: "?A \<inter> ?B = {}" by (auto simp: due_ids_def after_due_def)
  have "image_mset (\<lambda>i. snd (the (after_due a T i))) (mset_set ?B) = image_mset (\<lambda>i. snd (the (T i))) (mset_set ?B)"
    by (rule image_mset_cong) (auto simp: due_ids_def after_due_def split: if_splits)
  then show ?thesis unfolding due_callbacks_def u by (simp add: mset_set_Union d)
qed

locale timer_service =
  fixes ok :: "'w \<Rightarrow> bool"
    and timers :: "'w \<Rightarrow> u64 \<Rightarrow> (int \<times> 'c) option"
    and clock :: "'w \<Rightarrow> int"
    and adv :: "int \<Rightarrow> 'w \<Rightarrow> 'c list \<times> 'w"
    and step :: int
  assumes step_pos: "0 < step"
    and stale: "now \<le> clock w \<Longrightarrow> adv now w = ([], w)"
    and due: "ok w \<Longrightarrow> clock w < now \<Longrightarrow> adv now w = (fired, w') \<Longrightarrow>
      ok w' \<and> clock w' = min now (clock w + step) \<and>
      timers w' = after_due (clock w') (timers w) \<and> mset fired = due_callbacks (clock w') (timers w)"
begin

lemma run_fires_due:
  "ok w \<Longrightarrow> run_advances adv nows w = (fired, w') \<Longrightarrow>
   ok w' \<and> (fired = [] \<and> w' = w \<or>
     clock w < clock w' \<and> timers w' = after_due (clock w') (timers w) \<and>
     mset fired = due_callbacks (clock w') (timers w))"
proof (induction nows arbitrary: w fired)
  case (Cons now nows)
  obtain f1 w1 f2 where r: "adv now w = (f1, w1)" "run_advances adv nows w1 = (f2, w')" "fired = f1 @ f2"
    using Cons.prems(2) by (auto simp: Let_def split: prod.splits)
  show ?case
  proof (cases "now \<le> clock w")
    case True
    then show ?thesis using stale [OF True] r Cons.IH [of w f2] Cons.prems(1) by simp
  next
    case False
    then have w1: "ok w1" "clock w < clock w1" "timers w1 = after_due (clock w1) (timers w)"
      "mset f1 = due_callbacks (clock w1) (timers w)"
      using due [OF Cons.prems(1) _ r(1)] step_pos by auto
    from Cons.IH [OF w1(1) r(2)] show ?thesis
    proof (elim conjE disjE)
      assume "ok w'" "f2 = []" "w' = w1"
      then show ?thesis using w1 r(3) by simp
    next
      assume a: "ok w'" "clock w1 < clock w'" "timers w' = after_due (clock w') (timers w1)"
        "mset f2 = due_callbacks (clock w') (timers w1)"
      then have "mset fired = due_callbacks (clock w') (timers w)"
        using w1 r(3) due_callbacks_split [of "clock w1" "clock w'" "timers w"] by simp
      then show ?thesis using a w1 by (simp add: after_due_twice)
    qed
  qed
qed simp

lemma run_catches_up:
  "ok w \<Longrightarrow> clock w \<le> now \<Longrightarrow> now - clock w \<le> int n * step \<Longrightarrow>
   clock (snd (run_advances adv (replicate n now) w)) = now"
proof (induction n arbitrary: w)
  case (Suc n)
  obtain f w1 where r: "adv now w = (f, w1)" by (cases "adv now w")
  show ?case
  proof (cases "clock w = now")
    case True
    then have "run_advances adv (replicate m now) w = ([], w)" for m
      by (induction m) (simp_all add: stale)
    from this [of "Suc n"] show ?thesis using True by (simp del: replicate_Suc run_advances.simps)
  next
    case False
    then have w1: "ok w1" "clock w1 = min now (clock w + step)" using due [OF Suc.prems(1) _ r] Suc.prems(2) by auto
    have "now - clock w1 \<le> int n * step" using Suc.prems(3) w1(2) step_pos by (auto simp: min_def algebra_simps)
    then show ?thesis using Suc.IH [OF w1(1)] w1(2) r by (simp add: Let_def case_prod_beta)
  qed
qed simp

end

interpretation wheel: timer_service
  "\<lambda>w. wheel_ok w \<and> kMaxAdvanceNs \<le> 255 * tick_ns w" wheel_timers wheel_time advance kMaxAdvanceNs
proof
  show "0 < kMaxAdvanceNs" by (simp add: kMaxAdvanceNs_def)
  fix now and w :: "'c timing_wheel"
  show "now \<le> wheel_time w \<Longrightarrow> advance now w = ([], w)" by (simp add: advance_def Let_def)
  fix fired w'
  assume w: "wheel_ok w \<and> kMaxAdvanceNs \<le> 255 * tick_ns w" and "wheel_time w < now" "advance now w = (fired, w')"
  from advance_ok [OF conjunct1 [OF w] conjunct2 [OF w] this(2,3)] w
  show "(wheel_ok w' \<and> kMaxAdvanceNs \<le> 255 * tick_ns w') \<and> wheel_time w' = min now (wheel_time w + kMaxAdvanceNs) \<and>
      wheel_timers w' = after_due (wheel_time w') (wheel_timers w) \<and>
      mset fired = due_callbacks (wheel_time w') (wheel_timers w)"
    by (auto simp: clamp_now_def min_def)
qed

section \<open>Reachable wheels\<close>

inductive wheel_reachable :: "int \<Rightarrow> 'c timing_wheel \<Rightarrow> bool" for tick where
  "0 < levels \<Longrightarrow> 0 \<le> now \<Longrightarrow> wheel_reachable tick (timing_wheel_init tick levels now)"
| "wheel_reachable tick w \<Longrightarrow> unat (next_timer_id w) < 2 ^ 48 \<Longrightarrow> wheel_reachable tick (snd (schedule_at e c w))"
| "wheel_reachable tick w \<Longrightarrow> unat (next_timer_id w) < 2 ^ 48 \<Longrightarrow> wheel_reachable tick (snd (schedule d c w))"
| "wheel_reachable tick w \<Longrightarrow> wheel_reachable tick (snd (cancel i w))"
| "wheel_reachable tick w \<Longrightarrow> wheel_reachable tick (snd (advance now w))"

lemma init_ok: "0 < tick \<Longrightarrow> 0 < levels \<Longrightarrow> wheel_ok (timing_wheel_init tick levels now)"
  by (simp add: wheel_ok_def wheel_wf_def timing_wheel_init_def wheel_deadlines_def)

lemma reachable_ok:
  assumes "392157 \<le> tick"
  shows "wheel_reachable tick w \<Longrightarrow> wheel_ok w \<and> tick_ns w = tick \<and> kMaxAdvanceNs \<le> 255 * tick_ns w"
proof (induction rule: wheel_reachable.induct)
  case (1 levels now)
  then show ?case using assms init_ok [of tick levels now]
    by (simp add: timing_wheel_init_def kMaxAdvanceNs_def)
next
  case (2 w e c)
  obtain i w' where r: "schedule_at e c w = (i, w')" by (cases "schedule_at e c w")
  show ?case using 2 schedule_ok [OF _ _ r] r by simp
next
  case (3 w d c)
  obtain i w' where r: "schedule_at (wheel_time w + d) c w = (i, w')" by (cases "schedule_at (wheel_time w + d) c w")
  show ?case using 3 schedule_ok [OF _ _ r] r by (simp add: schedule_def)
next
  case (4 w i)
  obtain found w' where r: "cancel i w = (found, w')" by (cases "cancel i w")
  show ?case using 4 cancel_ok [OF _ r] r by simp
next
  case (5 w now)
  obtain fired w' where r: "advance now w = (fired, w')" by (cases "advance now w")
  show ?case
  proof (cases "wheel_time w < now")
    case True
    then show ?thesis using "5.IH" advance_ok [OF _ _ True r] r by simp
  next
    case False
    then show ?thesis using "5.IH" by (simp add: advance_def)
  qed
qed

section \<open>A sample wheel\<close>

definition sample_wheel :: "string timing_wheel" where
  "sample_wheel = snd (schedule_at 5000000 ''ping'' (timing_wheel_init 1000000 4 0))"

lemma sample_wheel_reachable: "wheel_reachable 1000000 sample_wheel"
  unfolding sample_wheel_def
  by (intro wheel_reachable.intros(2) wheel_reachable.intros(1)) (simp_all add: timing_wheel_init_def)

lemma sample_wheel_timers:
  "wheel_timers sample_wheel = [1 \<mapsto> (5000000, ''ping'')]" "wheel_time sample_wheel = 0"
  by (auto simp: sample_wheel_def schedule_at_def add_timer_internal_def Let_def insert_timer_eq
      timing_wheel_init_def wheel_timers_def fun_eq_iff)

lemma due_callbacks_single: "due_callbacks now [i \<mapsto> (e, c)] = (if e \<le> now then {#c#} else {#})"
proof -
  have "due_ids now [i \<mapsto> (e, c)] = (if e \<le> now then {i} else {})"
    by (auto simp: due_ids_def split: if_splits)
  then show ?thesis by (simp add: due_callbacks_def)
qed

section \<open>Properties\<close>

text \<open>
  C19. However a wheel with ticks of at least 392157 ns was built up by schedules, cancellations and
  advances, and however time is then advanced, the callbacks that run are exactly those of
  the pending timers whose deadline is not later than the time reached, each once; every other
  timer stays pending.
\<close>

theorem timing_wheel_fires_exactly_due:
  assumes "wheel_reachable tick w" and "392157 \<le> tick"
    and "run_advances advance nows w = (fired, w')" and "wheel_time w < wheel_time w'"
  shows "mset fired = due_callbacks (wheel_time w') (wheel_timers w) \<and>
    wheel_timers w' = after_due (wheel_time w') (wheel_timers w)"
  using wheel.run_fires_due [OF _ assms(3)] reachable_ok [OF assms(2,1)] assms(4) by auto

theorem timing_wheel_fires_exactly_due_witness:
  "run_advances advance [3000000, 6000000] sample_wheel =
     ([''ping''], snd (run_advances advance [3000000, 6000000] sample_wheel)) \<and>
   wheel_timers (snd (run_advances advance [3000000, 6000000] sample_wheel)) = Map.empty"
proof -
  obtain f1 w1 f2 w2 where r: "advance 3000000 sample_wheel = (f1, w1)" "advance 6000000 w1 = (f2, w2)"
    by (metis surj_pair)
  have ok: "wheel_ok sample_wheel \<and> kMaxAdvanceNs \<le> 255 * tick_ns sample_wheel"
    using reachable_ok [OF _ sample_wheel_reachable] by simp
  have t1: "wheel_time w1 = 3000000" "wheel_ok w1 \<and> kMaxAdvanceNs \<le> 255 * tick_ns w1"
    using wheel.due [OF ok _ r(1)] sample_wheel_timers(2) by (simp_all add: kMaxAdvanceNs_def)
  have t2: "wheel_time w2 = 6000000" using wheel.due [OF t1(2) _ r(2)] t1(1) by (simp add: kMaxAdvanceNs_def)
  have run: "run_advances advance [3000000, 6000000] sample_wheel = (f1 @ f2, w2)" using r by simp
  have "mset (f1 @ f2) = {#''ping''#} \<and> wheel_timers w2 = after_due 6000000 [1 \<mapsto> (5000000, ''ping'')]"
    using timing_wheel_fires_exactly_due [OF sample_wheel_reachable _ run] t2
    by (simp add: sample_wheel_timers due_callbacks_single)
  then have "f1 @ f2 = [''ping'']" and "wheel_timers w2 = after_due 6000000 [1 \<mapsto> (5000000, ''ping'')]"
    by (metis mset_single_iff)+
  then show ?thesis unfolding run by (auto simp: after_due_def due_ids_def fun_eq_iff)
qed

text \<open>
  C20. The clamp inside advance only delays: calling it once per 100 ms of backlog, with the same
  reading of the clock, brings the wheel to that time and fires every timer due by then.
\<close>

theorem timing_wheel_catches_up:
  assumes "wheel_reachable tick w" and "392157 \<le> tick" and "wheel_time w < now"
    and "now - wheel_time w \<le> int n * kMaxAdvanceNs"
  shows "wheel_time (snd (run_advances advance (replicate n now) w)) = now \<and>
    mset (fst (run_advances advance (replicate n now) w)) = due_callbacks now (wheel_timers w)"
proof -
  have ok: "wheel_ok w \<and> kMaxAdvanceNs \<le> 255 * tick_ns w" using reachable_ok [OF assms(2,1)] by simp
  have "wheel_time (snd (run_advances advance (replicate n now) w)) = now"
    using wheel.run_catches_up [OF ok less_imp_le [OF assms(3)] assms(4)] .
  then show ?thesis
    using wheel.run_fires_due [OF ok, of "replicate n now"] assms(3)
    by (cases "run_advances advance (replicate n now) w") auto
qed

theorem timing_wheel_catches_up_witness:
  "fst (run_advances advance (replicate 3 250000000) sample_wheel) = [''ping'']"
  using timing_wheel_catches_up [OF sample_wheel_reachable, of 250000000 3]
  by (simp add: sample_wheel_timers due_callbacks_single kMaxAdvanceNs_def del: run_advances.simps)

text \<open>
  The identifier schedule returns finds the timer again, although it carries the level the
  timer was filed under: cancelling it succeeds once, removes exactly that timer, and a
  second cancellation fails.
\<close>

theorem timing_wheel_cancel_roundtrip:
  assumes "wheel_reachable tick w" and "392157 \<le> tick" and "unat (next_timer_id w) < 2 ^ 48"
    and "schedule_at e c w = (i, w1)"
  shows "fst (cancel i w1) \<and> wheel_timers (snd (cancel i w1)) = wheel_timers w \<and>
    \<not> fst (cancel i (snd (cancel i w1)))"
proof -
  have ok: "wheel_ok w" using reachable_ok [OF assms(2,1)] by simp
  have w1: "wheel_ok w1" "wheel_timers w (i AND id_mask) = None"
    "wheel_timers w1 = (wheel_timers w)(i AND id_mask \<mapsto> (e, c))"
    using schedule_ok [OF ok assms(3,4)] by simp_all
  obtain f2 w2 where r2: "cancel i w1 = (f2, w2)" by (cases "cancel i w1")
  have w2: "wheel_ok w2" "f2" "wheel_timers w2 = (wheel_timers w1)(i AND id_mask := None)"
    using cancel_ok [OF w1(1) r2] w1(3) by simp_all
  obtain f3 w3 where r3: "cancel i w2 = (f3, w3)" by (cases "cancel i w2")
  have "\<not> f3" using cancel_ok [OF w2(1) r3] w2(3) by simp
  then show ?thesis using w1(2,3) w2 r2 r3 by (simp add: fun_upd_idem)
qed

theorem timing_wheel_cancel_roundtrip_witness:
  "case schedule_at 70000000000 ''later'' sample_wheel of (i, w) \<Rightarrow> fst (cancel i w) \<and> \<not> fst (cancel i (snd (cancel i w)))"
proof -
  have "unat (next_timer_id sample_wheel) < 2 ^ 48"
    by (simp add: sample_wheel_def schedule_at_def add_timer_internal_def Let_def insert_timer_eq timing_wheel_init_def)
  then show ?thesis
    using timing_wheel_cancel_roundtrip [OF sample_wheel_reachable] by (auto split: prod.splits)
qed

text \<open>
  The deadline the poller sleeps on is exact: next_deadline is the earliest deadline of the
  pending timers, or INT64_MAX when there is none, and the wheel is empty exactly when no timer is pending.
\<close>

theorem timing_wheel_next_deadline:
  assumes "wheel_reachable tick w" and "392157 \<le> tick"
  shows "next_deadline w = Min (insert INT64_MAX {e. \<exists>i c. wheel_timers w i = Some (e, c)}) \<and>
    (wheel_empty w \<longleftrightarrow> (\<forall>i. wheel_timers w i = None))"
proof -
  have ok: "wheel_ok w" and wf: "wheel_wf (wheel_time w) w"
    using reachable_ok [OF assms(2,1)] by (simp_all add: wheel_ok_def)
  have "wheel_deadlines w = {e. \<exists>i c. wheel_timers w i = Some (e, c)}"
    by (force simp: wheel_timers_Some [OF wf] wheel_deadlines_def ran_def image_def)
  moreover have "wheel_empty w \<longleftrightarrow> set (all_timers w) = {}"
    by (auto simp: wheel_empty_def all_timers_def)
  moreover have "dom (timer_heap w) = {} \<longleftrightarrow> (\<forall>i. wheel_timers w i = None)"
    using wheel_timers_Some [OF wf] by (metis (no_types, lifting) dom_eq_empty_conv not_None_eq old.prod.exhaust)
  ultimately show ?thesis using ok by (simp add: next_deadline_def wheel_ok_def set_all_timers [OF wf])
qed

theorem timing_wheel_next_deadline_witness:
  "next_deadline sample_wheel = 5000000 \<and> \<not> wheel_empty sample_wheel"
proof -
  have "{e. \<exists>i c. [1 \<mapsto> (5000000, ''ping'')] (i :: u64) = Some (e, c)} = {5000000 :: int}"
    by (auto split: if_splits)
  then show ?thesis
    using timing_wheel_next_deadline [OF sample_wheel_reachable]
    by (simp add: sample_wheel_timers INT64_MAX_def split: if_splits)
qed

end
