(* ===== verification/Calendar_Queue.thy ===== *)
theory Calendar_Queue
  imports Timing_Wheel
begin

text \<open>
  The calendar queue of \<^verbatim>\<open>src/timer/calendar_queue.cpp\<close>, the alternative timer backend of the scheduler.

  A timer is reached through its identifier: identifiers come from an atomic counter and never
  change, so the identifier also stands for the address of the timer, and \<open>cq_timers\<close> is
  \<^verbatim>\<open>timer_map_\<close> together with the objects it points to.  A bucket is the sequence of its
  linked list.  The loops that walk a bucket while they unlink and re-file its timers are
  modelled with the pointer \<^verbatim>\<open>next\<close> the code keeps, as partial functions whose value \<^term>\<open>None\<close> is a loop
  that never ends.  Every entry point holds the mutex; times are mathematical integers.
\<close>

unbundle bit_operations_syntax

section \<open>State\<close>

record 'c cq_timer =
  cq_expire :: int
  cq_callback :: 'c
  cq_bucket_idx :: u32
  cq_level :: u8

record cq_config =
  cfg_fine_bucket_ns :: int
  cfg_fine_buckets :: u32
  cfg_coarse_buckets :: u32
  cfg_remote_buckets :: u32
  cfg_max_advance_buckets :: u32

record 'c calendar_queue =
  cq_wheels :: "u8 \<Rightarrow> nat \<Rightarrow> u64 list"
  cq_timers :: "u64 \<Rightarrow> 'c cq_timer option"
  fine_bucket_ns :: int
  coarse_bucket_ns :: int
  remote_bucket_ns :: int
  fine_mask :: u32
  coarse_mask :: u32
  remote_mask :: u32
  max_advance_buckets :: u32
  current_fine :: u32
  current_coarse :: u32
  current_remote :: u32
  last_advance_ns :: int
  cq_next_id :: u64
  cq_size :: u64

definition default_cq_config :: cq_config where
  "default_cq_config = \<lparr>cfg_fine_bucket_ns = 1000000, cfg_fine_buckets = 256, cfg_coarse_buckets = 256,
     cfg_remote_buckets = 256, cfg_max_advance_buckets = 4096\<rparr>"

definition cq_init :: "cq_config \<Rightarrow> 'c calendar_queue option" where
  "cq_init cfg =
     (let coarse = cfg_fine_bucket_ns cfg * uint (cfg_fine_buckets cfg);
          remote = coarse * uint (cfg_coarse_buckets cfg)
      in if cfg_fine_buckets cfg AND (cfg_fine_buckets cfg - 1) \<noteq> 0 \<or>
            cfg_coarse_buckets cfg AND (cfg_coarse_buckets cfg - 1) \<noteq> 0 \<or>
            cfg_remote_buckets cfg AND (cfg_remote_buckets cfg - 1) \<noteq> 0
         then None
         else Some \<lparr>cq_wheels = (\<lambda>_ _. []), cq_timers = (\<lambda>_. None), fine_bucket_ns = cfg_fine_bucket_ns cfg,
           coarse_bucket_ns = coarse, remote_bucket_ns = remote, fine_mask = cfg_fine_buckets cfg - 1,
           coarse_mask = cfg_coarse_buckets cfg - 1, remote_mask = cfg_remote_buckets cfg - 1,
           max_advance_buckets = cfg_max_advance_buckets cfg, current_fine = 0, current_coarse = 0,
           current_remote = 0, last_advance_ns = 0, cq_next_id = 1, cq_size = 0\<rparr>)"

section \<open>Buckets\<close>

definition bucket_push_back :: "u64 \<Rightarrow> u64 list \<Rightarrow> u64 list" where
  "bucket_push_back t ts = ts @ [t]"

definition bucket_unlink :: "u64 \<Rightarrow> u64 list \<Rightarrow> u64 list" where
  "bucket_unlink t ts = remove1 t ts"

definition bucket_head :: "u64 list \<Rightarrow> u64 option" where
  "bucket_head ts = (case ts of [] \<Rightarrow> None | t # _ \<Rightarrow> Some t)"

fun bucket_next :: "u64 \<Rightarrow> u64 list \<Rightarrow> u64 option" where
  "bucket_next t [] = None"
| "bucket_next t (u # us) = (if u = t then bucket_head us else bucket_next t us)"

definition set_bucket :: "u8 \<Rightarrow> u32 \<Rightarrow> u64 list \<Rightarrow> 'c calendar_queue \<Rightarrow> 'c calendar_queue" where
  "set_bucket level b ts q =
     q\<lparr>cq_wheels := (cq_wheels q)(level := (cq_wheels q level)(unat b := ts))\<rparr>"

definition get_bucket :: "u8 \<Rightarrow> u32 \<Rightarrow> 'c calendar_queue \<Rightarrow> u64 list" where
  "get_bucket level b q = cq_wheels q level (unat b)"

section \<open>Operations\<close>

definition cq_place :: "int \<Rightarrow> int \<Rightarrow> 'c calendar_queue \<Rightarrow> u8 \<times> u32" where
  "cq_place expire_at now q =
     (let expire = max expire_at (now + fine_bucket_ns q)
      in if expire < now + fine_bucket_ns q * uint (fine_mask q + 1)
         then (0, word_of_int (expire div fine_bucket_ns q) AND fine_mask q)
         else if expire < now + coarse_bucket_ns q * uint (coarse_mask q + 1)
         then (1, word_of_int (expire div coarse_bucket_ns q) AND coarse_mask q)
         else (2, word_of_int (expire div remote_bucket_ns q) AND remote_mask q))"

definition cq_insert_timer :: "u64 \<Rightarrow> 'c cq_timer \<Rightarrow> int \<Rightarrow> 'c calendar_queue \<Rightarrow> 'c calendar_queue" where
  "cq_insert_timer p t now q =
     (case cq_place (cq_expire t) now q of (level, b) \<Rightarrow>
        set_bucket level b (bucket_push_back p (get_bucket level b q))
          (q\<lparr>cq_timers := (cq_timers q)(p \<mapsto> t\<lparr>cq_bucket_idx := b, cq_level := level\<rparr>)\<rparr>))"

definition schedule_at_locked :: "int \<Rightarrow> 'c \<Rightarrow> 'c calendar_queue \<Rightarrow> u64 \<times> 'c calendar_queue" where
  "schedule_at_locked expire cb q =
     (let p = cq_next_id q;
          t = \<lparr>cq_expire = expire, cq_callback = cb, cq_bucket_idx = 0, cq_level = 0\<rparr>;
          q = q\<lparr>cq_next_id := p + 1\<rparr>;
          q = cq_insert_timer p t (last_advance_ns q) q
      in (p, q\<lparr>cq_size := cq_size q + 1\<rparr>))"

definition cq_schedule_at :: "int \<Rightarrow> 'c \<Rightarrow> 'c calendar_queue \<Rightarrow> u64 \<times> 'c calendar_queue" where
  "cq_schedule_at expire cb q = schedule_at_locked expire cb q"

definition cq_schedule :: "int \<Rightarrow> 'c \<Rightarrow> 'c calendar_queue \<Rightarrow> u64 \<times> 'c calendar_queue" where
  "cq_schedule delay cb q =
     (let now = last_advance_ns q;
          expire = (if delay \<le> 0 then now + fine_bucket_ns q else now + delay)
      in schedule_at_locked expire cb q)"

definition cq_cancel :: "u64 \<Rightarrow> 'c calendar_queue \<Rightarrow> bool \<times> 'c calendar_queue" where
  "cq_cancel p q =
     (case cq_timers q p of
        None \<Rightarrow> (False, q)
      | Some t \<Rightarrow>
          let q = q\<lparr>cq_timers := (cq_timers q)(p := None)\<rparr>;
              q = (if cq_level t \<le> 2
                   then set_bucket (cq_level t) (cq_bucket_idx t)
                          (bucket_unlink p (get_bucket (cq_level t) (cq_bucket_idx t) q)) q
                   else q)
          in (True, q\<lparr>cq_size := cq_size q - 1\<rparr>))"

partial_function (option) cascade_loop ::
    "int \<Rightarrow> u8 \<Rightarrow> u32 \<Rightarrow> u64 option \<Rightarrow> 'c calendar_queue \<Rightarrow> 'c calendar_queue option" where
  "cascade_loop now level b t q =
     (case t of
        None \<Rightarrow> Some q
      | Some p \<Rightarrow>
          let nxt = bucket_next p (get_bucket level b q);
              q = set_bucket level b (bucket_unlink p (get_bucket level b q)) q
          in case cq_timers q p of
               None \<Rightarrow> Some q
             | Some tm \<Rightarrow> cascade_loop now level b nxt (cq_insert_timer p tm now q))"

definition cascade_coarse :: "int \<Rightarrow> 'c calendar_queue \<Rightarrow> 'c calendar_queue option" where
  "cascade_coarse now q = cascade_loop now 1 (current_coarse q) (bucket_head (get_bucket 1 (current_coarse q) q)) q"

definition cascade_remote :: "int \<Rightarrow> 'c calendar_queue \<Rightarrow> 'c calendar_queue option" where
  "cascade_remote now q = cascade_loop now 2 (current_remote q) (bucket_head (get_bucket 2 (current_remote q) q)) q"

partial_function (option) expire_loop ::
    "int \<Rightarrow> u32 \<Rightarrow> u64 option \<Rightarrow> 'c list \<times> 'c calendar_queue \<Rightarrow> ('c list \<times> 'c calendar_queue) option" where
  "expire_loop now b t s =
     (case t of
        None \<Rightarrow> Some s
      | Some p \<Rightarrow>
          case s of (pending, q) \<Rightarrow>
          let nxt = bucket_next p (get_bucket 0 b q);
              q = set_bucket 0 b (bucket_unlink p (get_bucket 0 b q)) q
          in case cq_timers q p of
               None \<Rightarrow> Some (pending, q)
             | Some tm \<Rightarrow>
                 if cq_expire tm \<le> now
                 then expire_loop now b nxt
                        (pending @ [cq_callback tm],
                         q\<lparr>cq_timers := (cq_timers q)(p := None), cq_size := cq_size q - 1\<rparr>)
                 else expire_loop now b nxt (pending, cq_insert_timer p tm now q))"

definition advance_bucket :: "int \<Rightarrow> 'c list \<times> 'c calendar_queue \<Rightarrow> ('c list \<times> 'c calendar_queue) option" where
  "advance_bucket now s =
     (let b = current_fine (snd s)
      in case expire_loop now b (bucket_head (get_bucket 0 b (snd s))) s of
           None \<Rightarrow> None
         | Some (pending, q) \<Rightarrow>
             let q = q\<lparr>last_advance_ns := last_advance_ns q + fine_bucket_ns q,
                       current_fine := (current_fine q + 1) AND fine_mask q\<rparr>
             in if current_fine q \<noteq> 0 then Some (pending, q)
                else case cascade_coarse now q of
                       None \<Rightarrow> None
                     | Some q \<Rightarrow>
                         let q = q\<lparr>current_coarse := (current_coarse q + 1) AND coarse_mask q\<rparr>
                         in if current_coarse q \<noteq> 0 then Some (pending, q)
                            else case cascade_remote now q of
                                   None \<Rightarrow> None
                                 | Some q \<Rightarrow>
                                     Some (pending, q\<lparr>current_remote := (current_remote q + 1) AND remote_mask q\<rparr>))"

fun advance_loop :: "nat \<Rightarrow> int \<Rightarrow> 'c list \<times> 'c calendar_queue \<Rightarrow> ('c list \<times> 'c calendar_queue) option" where
  "advance_loop 0 now s = Some s"
| "advance_loop (Suc budget) now s =
     (if last_advance_ns (snd s) + fine_bucket_ns (snd s) \<le> now
      then case advance_bucket now s of None \<Rightarrow> None | Some s \<Rightarrow> advance_loop budget now s
      else Some s)"

definition cq_advance :: "int \<Rightarrow> 'c calendar_queue \<Rightarrow> ('c list \<times> 'c calendar_queue) option" where
  "cq_advance now q =
     (if now \<le> last_advance_ns q then Some ([], q)
      else if last_advance_ns q = 0 then Some ([], q\<lparr>last_advance_ns := now\<rparr>)
      else
        let now = (if now - last_advance_ns q > kMaxAdvanceNs then last_advance_ns q + kMaxAdvanceNs else now)
        in advance_loop (unat (max_advance_buckets q)) now ([], q))"

definition cq_empty :: "'c calendar_queue \<Rightarrow> bool" where
  "cq_empty q \<longleftrightarrow> (\<forall>p. cq_timers q p = None)"

declare cascade_loop.simps [code] expire_loop.simps [code]

definition cq_next_deadline :: "'c calendar_queue \<Rightarrow> int" where
  "cq_next_deadline q = Min (insert INT64_MAX (cq_expire ` ran (cq_timers q)))"

section \<open>Advancing fires only due timers, each once\<close>

definition cq_jobs :: "'c calendar_queue \<Rightarrow> u64 \<Rightarrow> (int \<times> 'c) option" where
  "cq_jobs q p = map_option (\<lambda>t. (cq_expire t, cq_callback t)) (cq_timers q p)"

text \<open>
  \<open>fires_to now s s'\<close>: from \<open>s\<close> to \<open>s'\<close> some due timers have been taken out of the index and their
  callbacks appended; nothing else about the pending timers has changed.
\<close>

definition fires_to :: "int \<Rightarrow> 'c list \<times> 'c calendar_queue \<Rightarrow> 'c list \<times> 'c calendar_queue \<Rightarrow> bool" where
  "fires_to now s s' \<longleftrightarrow> (\<exists>ps. distinct ps \<and> (\<forall>p \<in> set ps. p \<in> due_ids now (cq_jobs (snd s))) \<and>
     fst s' = fst s @ map (\<lambda>p. snd (the (cq_jobs (snd s) p))) ps \<and>
     cq_jobs (snd s') = (\<lambda>p. if p \<in> set ps then None else cq_jobs (snd s) p))"

lemma fires_to_none: "cq_jobs q' = cq_jobs q \<Longrightarrow> fires_to now (fs, q) (fs, q')"
  unfolding fires_to_def by (rule exI [of _ "[]"]) simp

lemma fires_to_refl [simp]: "fires_to now s s"
  using fires_to_none [of "snd s" "snd s" now "fst s"] by simp

lemma fires_to_trans:
  assumes "fires_to now s s'" and "fires_to now s' s''"
  shows "fires_to now s s''"
proof -
  obtain ps where ps: "distinct ps" "\<forall>p \<in> set ps. p \<in> due_ids now (cq_jobs (snd s))"
    "fst s' = fst s @ map (\<lambda>p. snd (the (cq_jobs (snd s) p))) ps"
    "cq_jobs (snd s') = (\<lambda>p. if p \<in> set ps then None else cq_jobs (snd s) p)"
    using assms(1) unfolding fires_to_def by blast
  obtain rs where rs: "distinct rs" "\<forall>p \<in> set rs. p \<in> due_ids now (cq_jobs (snd s'))"
    "fst s'' = fst s' @ map (\<lambda>p. snd (the (cq_jobs (snd s') p))) rs"
    "cq_jobs (snd s'') = (\<lambda>p. if p \<in> set rs then None else cq_jobs (snd s') p)"
    using assms(2) unfolding fires_to_def by blast
  have d: "p \<notin> set ps \<and> p \<in> due_ids now (cq_jobs (snd s))" if "p \<in> set rs" for p
    using rs(2) that ps(4) by (auto simp: due_ids_def split: if_splits)
  show ?thesis
    unfolding fires_to_def
    by (rule exI [of _ "ps @ rs"]) (use ps rs d in \<open>auto simp: fun_eq_iff\<close>)
qed

lemma cq_jobs_insert [simp]:
  "cq_timers q p = Some t \<Longrightarrow> cq_jobs (cq_insert_timer p t now q) = cq_jobs q"
  by (auto simp: cq_jobs_def cq_insert_timer_def set_bucket_def fun_eq_iff split: prod.splits)

lemma cq_jobs_simps [simp]:
  "cq_jobs (set_bucket l b ts q) = cq_jobs q" "cq_timers (set_bucket l b ts q) = cq_timers q"
  "cq_jobs (q\<lparr>last_advance_ns := x\<rparr>) = cq_jobs q" "cq_jobs (q\<lparr>current_fine := c\<rparr>) = cq_jobs q"
  "cq_jobs (q\<lparr>current_coarse := c\<rparr>) = cq_jobs q" "cq_jobs (q\<lparr>current_remote := c\<rparr>) = cq_jobs q"
  by (simp_all add: cq_jobs_def fun_eq_iff set_bucket_def)

lemmas cascade_loop_induct = cascade_loop.raw_induct [rotated 1, consumes 1, case_names step]
lemmas expire_loop_induct = expire_loop.raw_induct [rotated 1, consumes 1, case_names step]

lemma cascade_loop_jobs: "cascade_loop now level b t q = Some q' \<Longrightarrow> cq_jobs q' = cq_jobs q"
proof (induction rule: cascade_loop_induct)
  case (step rec now level b t q q')
  then show ?case by (auto simp: Let_def split: option.splits)
qed

lemma expire_loop_fires: "expire_loop now b t s = Some s' \<Longrightarrow> fires_to now s s'"
proof (induction rule: expire_loop_induct)
  case (step rec now b t s s')
  obtain fs q where s: "s = (fs, q)" by (cases s)
  show ?case
  proof (cases t)
    case None
    then show ?thesis using step.hyps by simp
  next
    case (Some p)
    let ?q = "set_bucket 0 b (bucket_unlink p (get_bucket 0 b q)) q"
    show ?thesis
    proof (cases "cq_timers q p")
      case None
      then show ?thesis using step.hyps Some by (auto simp: s Let_def intro: fires_to_none)
    next
      case tm: (Some tm)
      show ?thesis
      proof (cases "cq_expire tm \<le> now")
        case True
        let ?s = "(fs @ [cq_callback tm], ?q\<lparr>cq_timers := (cq_timers ?q)(p := None), cq_size := cq_size ?q - 1\<rparr>)"
        have "fires_to now s ?s"
          unfolding fires_to_def
          by (rule exI [of _ "[p]"]) (use True tm in \<open>auto simp: s due_ids_def cq_jobs_def fun_eq_iff\<close>)
        moreover have "fires_to now ?s s'"
          using step.hyps step.IH Some tm True by (simp add: s Let_def)
        ultimately show ?thesis by (rule fires_to_trans)
      next
        case False
        have "fires_to now s (fs, cq_insert_timer p tm now ?q)" using tm by (auto simp: s intro: fires_to_none)
        moreover have "fires_to now (fs, cq_insert_timer p tm now ?q) s'"
          using step.hyps step.IH Some tm False by (simp add: s Let_def)
        ultimately show ?thesis by (rule fires_to_trans)
      qed
    qed
  qed
qed

lemma advance_bucket_fires:
  assumes "advance_bucket now s = Some s'"
  shows "fires_to now s s'"
proof -
  obtain fs q where e: "expire_loop now (current_fine (snd s)) (bucket_head (get_bucket 0 (current_fine (snd s)) (snd s))) s
      = Some (fs, q)" using assms by (auto simp: advance_bucket_def Let_def split: option.splits)
  have "fst s' = fs \<and> cq_jobs (snd s') = cq_jobs q"
    using assms e by (auto simp: advance_bucket_def Let_def cascade_coarse_def cascade_remote_def
        dest!: cascade_loop_jobs split: option.splits if_splits)
  then have "fires_to now (fs, q) s'" using fires_to_none [of "snd s'" q now fs] by (cases s') simp
  then show ?thesis using expire_loop_fires [OF e] fires_to_trans by blast
qed

lemma advance_loop_fires: "advance_loop n now s = Some s' \<Longrightarrow> fires_to now s s'"
proof (induction n arbitrary: s)
  case 0
  then show ?case by simp
next
  case (Suc n)
  show ?case
  proof (cases "last_advance_ns (snd s) + fine_bucket_ns (snd s) \<le> now")
    case True
    then obtain s1 where s1: "advance_bucket now s = Some s1" "advance_loop n now s1 = Some s'"
      using Suc.prems by (auto split: option.splits)
    show ?thesis by (rule fires_to_trans [OF advance_bucket_fires [OF s1(1)] Suc.IH [OF s1(2)]])
  next
    case False
    then show ?thesis using Suc.prems by simp
  qed
qed

definition sample_calendar :: "int \<Rightarrow> int \<Rightarrow> string calendar_queue option" where
  "sample_calendar start expire =
     (case cq_init default_cq_config of
        None \<Rightarrow> None
      | Some q \<Rightarrow>
          case cq_advance start q of
            None \<Rightarrow> None
          | Some (_, q) \<Rightarrow>
              Some (snd (cq_schedule_at expire ''b'' (snd (cq_schedule_at expire ''a'' q)))))"



section \<open>Advancing may never return\<close>

text \<open>
  \<open>stuck_bucket now b q\<close>: fine bucket \<open>b\<close> holds at least two timers, none of them is due,
  and each would be filed under \<open>b\<close> again.
\<close>

definition stuck_bucket :: "int \<Rightarrow> u32 \<Rightarrow> 'c calendar_queue \<Rightarrow> bool" where
  "stuck_bucket now b q \<longleftrightarrow>
     2 \<le> length (get_bucket 0 b q) \<and>
     (\<forall>p \<in> set (get_bucket 0 b q).
        \<exists>tm. cq_timers q p = Some tm \<and> now < cq_expire tm \<and> cq_place (cq_expire tm) now q = (0, b))"

lemma get_set_bucket [simp]:
  "get_bucket l b (set_bucket l' b' ts q) = (if l = l' \<and> b = b' then ts else get_bucket l b q)"
  "get_bucket l b (q\<lparr>cq_timers := m\<rparr>) = get_bucket l b q"
  by (auto simp: get_bucket_def set_bucket_def simp flip: word_unat_eq_iff)

lemma cq_place_cong [simp]:
  "cq_place e now (set_bucket l b ts q) = cq_place e now q"
  "cq_place e now (q\<lparr>cq_timers := m\<rparr>) = cq_place e now q"
  by (simp_all add: cq_place_def set_bucket_def Let_def)

lemma stuck_step:
  assumes "stuck_bucket now b q" and "get_bucket 0 b q = p # p' # ps" and tm: "cq_timers q p = Some tm"
  shows "stuck_bucket now b (cq_insert_timer p tm now (set_bucket 0 b (bucket_unlink p (get_bucket 0 b q)) q)) \<and>
    bucket_head (get_bucket 0 b (cq_insert_timer p tm now (set_bucket 0 b (bucket_unlink p (get_bucket 0 b q)) q))) = Some p'"
proof -
  let ?q = "set_bucket 0 b (p' # ps) q" and ?tm = "tm\<lparr>cq_bucket_idx := b, cq_level := 0\<rparr>"
  have pl: "now < cq_expire tm" "cq_place (cq_expire tm) now q = (0, b)"
    using assms by (auto simp: stuck_bucket_def)
  have ins: "cq_insert_timer p tm now ?q = set_bucket 0 b (p' # ps @ [p]) (?q\<lparr>cq_timers := (cq_timers q)(p \<mapsto> ?tm)\<rparr>)"
    using pl by (simp add: cq_insert_timer_def bucket_push_back_def)
  have "\<forall>r \<in> set (p' # ps). \<exists>tm. cq_timers q r = Some tm \<and> now < cq_expire tm \<and>
      cq_place (cq_expire tm) now q = (0, b)"
    using assms(1,2) by (simp add: stuck_bucket_def)
  then show ?thesis
    using assms(2) pl by (simp add: ins bucket_unlink_def stuck_bucket_def bucket_head_def)
qed

lemma stuck_never_returns:
  "expire_loop now b t s = Some s' \<Longrightarrow>
     \<not> (stuck_bucket now b (snd s) \<and> t = bucket_head (get_bucket 0 b (snd s)))"
proof (induction rule: expire_loop_induct)
  case (step rec now b t s s')
  obtain fs q where s: "s = (fs, q)" by (cases s)
  show ?case
  proof
    assume a: "stuck_bucket now b (snd s) \<and> t = bucket_head (get_bucket 0 b (snd s))"
    then obtain p p' ps where ts: "get_bucket 0 b q = p # p' # ps"
      by (auto simp: stuck_bucket_def s Let_def Suc_le_length_iff numeral_2_eq_2)
    then obtain tm where tm: "cq_timers q p = Some tm" "now < cq_expire tm"
      using a by (auto simp: stuck_bucket_def s)
    let ?q = "cq_insert_timer p tm now (set_bucket 0 b (bucket_unlink p (get_bucket 0 b q)) q)"
    have "t = Some p" "bucket_next p (get_bucket 0 b q) = Some p'" using a ts by (simp_all add: s bucket_head_def)
    then have "rec now b (Some p') (fs, ?q) = Some s'" using step.hyps tm by (simp add: s Let_def)
    then show False using step.IH stuck_step [OF _ ts tm(1)] a by (fastforce simp: s)
  qed
qed

text \<open>
  C21. Advancing the calendar queue does not always return: with two timers in the bucket it
  has reached, none of them due and each filed under the same bucket again, the walk over the
  bucket follows its own re-insertions for ever, with the mutex held.
\<close>

theorem calendar_queue_advance_diverges:
  assumes "0 < last_advance_ns q" and "last_advance_ns q + fine_bucket_ns q \<le> now" and "0 \<le> fine_bucket_ns q"
    and "now - last_advance_ns q \<le> kMaxAdvanceNs" and "max_advance_buckets q \<noteq> 0"
    and "stuck_bucket now (current_fine q) q" and "last_advance_ns q < now"
  shows "cq_advance now q = None"
proof -
  obtain n where n: "unat (max_advance_buckets q) = Suc n"
    using assms(5) by (cases "unat (max_advance_buckets q)") (auto simp: unat_eq_zero)
  have "expire_loop now (current_fine q) (bucket_head (get_bucket 0 (current_fine q) q)) ([], q) = None"
    using stuck_never_returns [of now "current_fine q" "bucket_head (get_bucket 0 (current_fine q) q)" "([], q)"]
      assms(6) by (metis not_None_eq snd_conv)
  then have "advance_bucket now ([], q) = None" by (simp add: advance_bucket_def)
  then show ?thesis using assms n by (simp add: cq_advance_def Let_def)
qed

theorem calendar_queue_advance_diverges_witness:
  "case sample_calendar 257000000 512500000 of None \<Rightarrow> False | Some q \<Rightarrow> cq_advance 258000000 q = None"
proof -
  have "sample_calendar 257000000 512500000 \<noteq> None" by code_simp
  then obtain q where q: "sample_calendar 257000000 512500000 = Some q" by blast
  have "case sample_calendar 257000000 512500000 of None \<Rightarrow> False
    | Some q \<Rightarrow> last_advance_ns q = 257000000 \<and> fine_bucket_ns q = 1000000 \<and> max_advance_buckets q = 4096 \<and>
        current_fine q = 0 \<and> get_bucket 0 0 q = [1, 2] \<and>
        cq_place 512500000 258000000 q = (0, 0) \<and>
        map_option cq_expire (cq_timers q 1) = Some 512500000 \<and> map_option cq_expire (cq_timers q 2) = Some 512500000"
    by code_simp
  then show ?thesis
    using calendar_queue_advance_diverges [of q 258000000] q by (auto simp: stuck_bucket_def kMaxAdvanceNs_def)
qed

end
