(* ===== verification/Trace_Context.thy ===== *)
theory Trace_Context
  imports HPA_Prelude
begin

text \<open>
  Trace contexts: the types of \<^verbatim>\<open>types/types.hpp\<close>, the W3C header parser and printer of
  \<^verbatim>\<open>src/tracing/trace_context_parser.cpp\<close> and the protobuf form of \<^verbatim>\<open>src/msg/frame_protobuf.cpp\<close>.

  The 256 byte array that holds the trace state and its length field are one string, the
  first \<^verbatim>\<open>tracestate_len\<close> characters of the array; the characters behind it are never read.
\<close>

unbundle bit_operations_syntax

section \<open>Types\<close>

record trace_context =
  trace_id :: "u8 list"
  span_id :: "u8 list"
  flags :: u8
  version :: u8
  tracestate :: string

definition empty_context :: trace_context where
  "empty_context = \<lparr>trace_id = replicate 16 0, span_id = replicate 8 0, flags = 0, version = 0, tracestate = []\<rparr>"

definition id_valid :: "u8 list \<Rightarrow> bool" where
  "id_valid bytes \<longleftrightarrow> (\<exists>b \<in> set bytes. b \<noteq> 0)"

definition context_valid :: "trace_context \<Rightarrow> bool" where
  "context_valid ctx \<longleftrightarrow> id_valid (trace_id ctx) \<and> id_valid (span_id ctx)"

definition kSampled :: u8 where
  "kSampled = 1"

definition sampled :: "trace_context \<Rightarrow> bool" where
  "sampled ctx \<longleftrightarrow> flags ctx AND kSampled \<noteq> 0"

definition set_sampled :: "bool \<Rightarrow> trace_context \<Rightarrow> trace_context" where
  "set_sampled enabled ctx =
     ctx\<lparr>flags := (if enabled then flags ctx OR kSampled else flags ctx AND NOT kSampled)\<rparr>"

datatype parse_status = kOk | kMissing | kMalformed | kUnsupportedVersion | kInvalidTraceId
  | kInvalidSpanId | kTracestateTooLarge

record parse_result =
  status_value :: parse_status
  parsed_context :: trace_context

section \<open>Hexadecimal digits\<close>

definition hex_value :: "char \<Rightarrow> int" where
  "hex_value c =
     (let n = (of_char c :: int)
      in if 48 \<le> n \<and> n \<le> 57 then n - 48
         else if 97 \<le> n \<and> n \<le> 102 then n - 97 + 10
         else if 65 \<le> n \<and> n \<le> 70 then n - 65 + 10
         else - 1)"

fun parse_hex_digits :: "string \<Rightarrow> u8 list option" where
  "parse_hex_digits [] = Some []"
| "parse_hex_digits [c] = None"
| "parse_hex_digits (c # d # cs) =
     (let hi = hex_value c; lo = hex_value d
      in if hi < 0 \<or> lo < 0 then None
         else map_option ((#) (word_of_int (push_bit 4 hi OR lo))) (parse_hex_digits cs))"

definition parse_hex_bytes :: "nat \<Rightarrow> string \<Rightarrow> u8 list option" where
  "parse_hex_bytes n text = (if length text \<noteq> n * 2 then None else parse_hex_digits text)"

definition kHex :: string where
  "kHex = ''0123456789abcdef''"

definition append_hex_byte :: "string \<Rightarrow> u8 \<Rightarrow> string" where
  "append_hex_byte out b = out @ [kHex ! unat (drop_bit 4 b AND 0x0F)] @ [kHex ! unat (b AND 0x0F)]"

section \<open>The W3C headers\<close>

definition parse_w3c_trace_context :: "string \<Rightarrow> string \<Rightarrow> u16 \<Rightarrow> parse_result" where
  "parse_w3c_trace_context traceparent state max_tracestate_len =
     (let fail = (\<lambda>st. \<lparr>status_value = st, parsed_context = empty_context\<rparr>)
      in if traceparent = [] then fail kMissing
         else if length traceparent \<noteq> 55 \<or> traceparent ! 2 \<noteq> CHR ''-'' \<or> traceparent ! 35 \<noteq> CHR ''-'' \<or>
                 traceparent ! 52 \<noteq> CHR ''-'' then fail kMalformed
         else if take 2 traceparent \<noteq> ''00'' then fail kUnsupportedVersion
         else case parse_hex_bytes 16 (take 32 (drop 3 traceparent)) of
           None \<Rightarrow> fail kInvalidTraceId
         | Some tid \<Rightarrow>
             if \<not> id_valid tid then fail kInvalidTraceId
             else case parse_hex_bytes 8 (take 16 (drop 36 traceparent)) of
               None \<Rightarrow> fail kInvalidSpanId
             | Some sid \<Rightarrow>
                 if \<not> id_valid sid then fail kInvalidSpanId
                 else case parse_hex_bytes 1 (take 2 (drop 53 traceparent)) of
                   None \<Rightarrow> fail kMalformed
                 | Some fl \<Rightarrow>
                     if length state > unat max_tracestate_len \<or> length state > 256 then fail kTracestateTooLarge
                     else \<lparr>status_value = kOk,
                           parsed_context = empty_context\<lparr>trace_id := tid, span_id := sid, flags := fl ! 0,
                             tracestate := state\<rparr>\<rparr>)"

definition format_traceparent :: "trace_context \<Rightarrow> string" where
  "format_traceparent ctx =
     (let out = ''00-'';
          out = foldl append_hex_byte out (trace_id ctx);
          out = out @ ''-'';
          out = foldl append_hex_byte out (span_id ctx);
          out = out @ ''-''
      in append_hex_byte out (flags ctx))"

definition format_tracestate :: "trace_context \<Rightarrow> string" where
  "format_tracestate ctx = tracestate ctx"

section \<open>The protobuf form\<close>

record pb_trace_context =
  pb_trace_id :: "u8 list"
  pb_span_id :: "u8 list"
  pb_flags :: u32
  pb_tracestate :: string

definition trace_to_proto :: "trace_context \<Rightarrow> pb_trace_context" where
  "trace_to_proto ctx = \<lparr>pb_trace_id = trace_id ctx, pb_span_id = span_id ctx, pb_flags = ucast (flags ctx),
     pb_tracestate = (if length (tracestate ctx) > 0 then tracestate ctx else [])\<rparr>"

definition trace_context_from_proto :: "pb_trace_context \<Rightarrow> u16 \<Rightarrow> trace_context option" where
  "trace_context_from_proto pb max_tracestate_len =
     (if length (pb_trace_id pb) \<noteq> 16 then None
      else if length (pb_span_id pb) \<noteq> 8 then None
      else if \<not> id_valid (pb_trace_id pb) \<or> \<not> id_valid (pb_span_id pb) then None
      else if length (pb_tracestate pb) > unat max_tracestate_len \<or> length (pb_tracestate pb) > 256 then None
      else Some (empty_context\<lparr>trace_id := pb_trace_id pb, span_id := pb_span_id pb,
             flags := ucast (pb_flags pb AND 0xFF), tracestate := pb_tracestate pb\<rparr>))"

section \<open>Round trips\<close>

definition hex_byte :: "u8 \<Rightarrow> string" where
  "hex_byte b = append_hex_byte [] b"

lemma append_hex_byte_eq: "append_hex_byte out b = out @ hex_byte b"
  by (simp add: hex_byte_def append_hex_byte_def)

lemma foldl_append_hex: "foldl append_hex_byte out bs = out @ concat (map hex_byte bs)"
  by (induction bs arbitrary: out) (simp_all add: append_hex_byte_eq)

lemma length_hex_byte [simp]: "length (hex_byte b) = 2"
  by (simp add: hex_byte_def append_hex_byte_def)

lemma hex_value_kHex: "n < 16 \<Longrightarrow> hex_value (kHex ! n) = int n"
proof -
  have "list_all (\<lambda>n. hex_value (kHex ! n) = int n) [0..<16]" by code_simp
  then show "n < 16 \<Longrightarrow> hex_value (kHex ! n) = int n" by (simp add: list_all_iff)
qed

lemma nibbles: "word_of_int (push_bit 4 (uint (drop_bit 4 b AND 0x0F)) OR uint (b AND 0x0F)) = (b :: u8)"
proof (rule bit_word_eqI)
  fix n assume "n < LENGTH(8)"
  then have "n \<in> {0, 1, 2, 3, 4, 5, 6, 7}" by auto
  moreover have m: "(0x0F :: u8) = mask 4" by (simp add: mask_eq_exp_minus_1)
  ultimately show "bit (word_of_int (push_bit 4 (uint (drop_bit 4 b AND 0x0F)) OR uint (b AND 0x0F)) :: u8) n = bit b n"
    unfolding m by (auto simp: bit_simps)
qed

lemma nibble_less: "unat ((x :: u8) AND 0x0F) < 16"
proof -
  have m: "(0x0F :: u8) = mask 4" by (simp add: mask_eq_exp_minus_1)
  have "unat (x AND 0x0F) = take_bit 4 (unat x)"
    unfolding m take_bit_eq_mask [symmetric] by (simp add: unsigned_take_bit_eq)
  then show ?thesis by (simp add: take_bit_nat_less_exp [of 4, simplified])
qed

lemma parse_hex_byte: "parse_hex_digits (hex_byte b @ cs) = map_option ((#) b) (parse_hex_digits cs)"
proof -
  have "hex_value (kHex ! unat (drop_bit 4 b AND 0x0F)) = uint (drop_bit 4 b AND 0x0F)"
    "hex_value (kHex ! unat (b AND 0x0F)) = uint (b AND 0x0F)"
    using hex_value_kHex [OF nibble_less] by simp_all
  then show ?thesis by (simp add: hex_byte_def append_hex_byte_def Let_def nibbles)
qed

lemma parse_hex_all: "parse_hex_bytes (length bs) (concat (map hex_byte bs)) = Some bs"
proof -
  have "parse_hex_digits (concat (map hex_byte bs)) = Some bs" by (induction bs) (simp_all add: parse_hex_byte)
  moreover have "length (concat (map hex_byte bs)) = length bs * 2" by (induction bs) simp_all
  ultimately show ?thesis by (simp add: parse_hex_bytes_def)
qed

lemma length_hex [simp]: "length (concat (map hex_byte bs)) = length bs * 2"
  by (induction bs) simp_all

definition sample_context :: trace_context where
  "sample_context = \<lparr>trace_id = replicate 15 0 @ [0xAB], span_id = replicate 8 7, flags = 1, version = 0,
     tracestate = ''vendor=1''\<rparr>"

text \<open>
  C40. The W3C headers a context is printed as parse back to the same context: identifiers, flags and
  trace state, for every context with valid identifiers whose trace state fits.
\<close>

theorem traceparent_roundtrip:
  assumes "length (trace_id ctx) = 16" and "length (span_id ctx) = 8" and "context_valid ctx"
    and "version ctx = 0" and "length (tracestate ctx) \<le> unat n" and "length (tracestate ctx) \<le> 256"
  shows "parse_w3c_trace_context (format_traceparent ctx) (format_tracestate ctx) n =
    \<lparr>status_value = kOk, parsed_context = ctx\<rparr>"
proof -
  define T S F where "T = concat (map hex_byte (trace_id ctx))" and "S = concat (map hex_byte (span_id ctx))"
    and "F = hex_byte (flags ctx)"
  have len: "length T = 32" "length S = 16" "length F = 2" using assms(1,2) by (simp_all add: T_def S_def F_def)
  have tp: "format_traceparent ctx = ''00-'' @ T @ ''-'' @ S @ ''-'' @ F"
    by (simp add: format_traceparent_def Let_def foldl_append_hex append_hex_byte_eq T_def S_def F_def)
  have p: "parse_hex_bytes 16 T = Some (trace_id ctx)" "parse_hex_bytes 8 S = Some (span_id ctx)"
    "parse_hex_bytes 1 F = Some [flags ctx]"
    using parse_hex_all [of "trace_id ctx"] parse_hex_all [of "span_id ctx"] parse_hex_all [of "[flags ctx]"] assms(1,2)
    by (simp_all add: T_def S_def F_def)
  have parts: "take 32 (drop 3 (''00-'' @ T @ ''-'' @ S @ ''-'' @ F)) = T"
    "take 16 (drop 36 (''00-'' @ T @ ''-'' @ S @ ''-'' @ F)) = S"
    "take 2 (drop 53 (''00-'' @ T @ ''-'' @ S @ ''-'' @ F)) = F"
    "take 2 (''00-'' @ T @ ''-'' @ S @ ''-'' @ F) = ''00''"
    "length (''00-'' @ T @ ''-'' @ S @ ''-'' @ F) = 55"
    "(''00-'' @ T @ ''-'' @ S @ ''-'' @ F) ! 2 = CHR ''-''"
    "(''00-'' @ T @ ''-'' @ S @ ''-'' @ F) ! 35 = CHR ''-''"
    "(''00-'' @ T @ ''-'' @ S @ ''-'' @ F) ! 52 = CHR ''-''"
    using len by (simp_all add: nth_append)
  have ctx: "empty_context\<lparr>trace_id := trace_id ctx, span_id := span_id ctx, flags := flags ctx,
      tracestate := tracestate ctx\<rparr> = ctx"
    using assms(4) by (simp add: empty_context_def)
  show ?thesis
    unfolding tp parse_w3c_trace_context_def Let_def parts p option.case format_tracestate_def
    using assms(3,5,6) ctx by (simp add: context_valid_def)
qed

theorem traceparent_roundtrip_witness:
  "parse_w3c_trace_context (format_traceparent sample_context) (format_tracestate sample_context) 256 =
    \<lparr>status_value = kOk, parsed_context = sample_context\<rparr>"
  by (rule traceparent_roundtrip) (simp_all add: sample_context_def context_valid_def id_valid_def)

text \<open>
  A context also survives its protobuf form, and what arrives from the wire is a context with
  valid identifiers of the right length and a trace state within both limits, or is refused.
\<close>

theorem trace_proto_roundtrip:
  "(length (trace_id ctx) = 16 \<and> length (span_id ctx) = 8 \<and> context_valid ctx \<and> version ctx = 0 \<and>
      length (tracestate ctx) \<le> min (unat n) 256 \<longrightarrow>
    trace_context_from_proto (trace_to_proto ctx) n = Some ctx) \<and>
   (trace_context_from_proto pb n = Some ctx' \<longrightarrow>
      length (trace_id ctx') = 16 \<and> length (span_id ctx') = 8 \<and> context_valid ctx' \<and>
      length (tracestate ctx') \<le> min (unat n) 256)"
proof -
  have "ucast (ucast (f :: u8) AND 0xFF :: u32) = f" for f
  proof -
    have m: "(0xFF :: u32) = mask 8" by (simp add: mask_eq_exp_minus_1)
    show ?thesis unfolding m by (rule bit_word_eqI) (auto simp: bit_simps)
  qed
  then show ?thesis
    by (auto simp: trace_context_from_proto_def trace_to_proto_def context_valid_def empty_context_def split: if_splits)
qed

theorem trace_proto_roundtrip_witness:
  "trace_context_from_proto (trace_to_proto sample_context) 256 = Some sample_context \<and> context_valid sample_context"
  using trace_proto_roundtrip [of sample_context 256 "trace_to_proto sample_context" sample_context]
  by (simp add: sample_context_def context_valid_def id_valid_def)

end
