(* ===== verification/Work_Stealing.thy ===== *)
theory Work_Stealing
  imports HPA_Prelude "HOL-Library.Multiset"
begin

text \<open>
  The work-stealing deque of the scheduler (\<open>adt/chaselev_deque.hpp\<close>) and the work queue with
  one deque per priority (\<open>adt/multi_priority_work_queue.hpp\<close>).

  The operations come twice. \<open>push_bottom\<close>, \<open>pop_bottom\<close> and \<open>steal_top\<close> are whole calls.
  \<open>owner_step\<close> and \<open>thief_step\<close> split the same calls at their accesses to \<open>top_\<close>, \<open>bottom_\<close>
  and \<open>array_\<close>, so that \<open>run_ws\<close> executes one owner and any number of thieves in any order.
  The circular arrays live in a heap (\<open>arrays\<close>), because a thief may still read an array the
  owner has replaced; \<open>array_\<close> is an index into that heap. The interleaving is sequentially
  consistent. The 64-bit positions are integers: they do not wrap in practice, as the source
  notes, and \<open>static_cast<size_t>(i) & mask\<close> is the conjunction of the two's complement
  integers.

  The invariant \<open>ws_inv\<close> relates the threads' local variables to the shared positions. With
  it every access that takes or adds an element is a step of an abstract list.
\<close>

unbundle bit_operations_syntax

section \<open>Circular arrays\<close>

record 'a circular =
  buf :: "'a list"
  mask_bits :: nat

definition circ_new :: "nat \<Rightarrow> 'a \<Rightarrow> 'a circular" where
  "circ_new cap dflt = \<lparr> buf = replicate cap dflt, mask_bits = cap - 1 \<rparr>"

definition slot_index :: "'a circular \<Rightarrow> int \<Rightarrow> nat" where
  "slot_index arr i = nat (i AND int (mask_bits arr))"

definition circ_get :: "'a circular \<Rightarrow> int \<Rightarrow> 'a" where
  "circ_get arr i = buf arr ! slot_index arr i"

definition circ_put :: "int \<Rightarrow> 'a \<Rightarrow> 'a circular \<Rightarrow> 'a circular" where
  "circ_put i v arr = arr \<lparr> buf := (buf arr)[slot_index arr i := v] \<rparr>"

definition circ_grow :: "'a \<Rightarrow> 'a circular \<Rightarrow> int \<Rightarrow> int \<Rightarrow> 'a circular" where
  "circ_grow dflt arr b t =
     fold (\<lambda>i new_arr. circ_put i (circ_get arr i) new_arr) [t..b - 1]
       (circ_new (length (buf arr) * 2) dflt)"

section \<open>The deque, one call at a time\<close>

record 'a deque =
  top_pos :: int
  bottom_pos :: int
  arrays :: "'a circular list"
  array_ptr :: nat
  garbage :: "nat list"
  dflt_item :: 'a

definition chaselev_new :: "nat \<Rightarrow> 'a \<Rightarrow> 'a deque" where
  "chaselev_new initial_capacity d =
     \<lparr> top_pos = 0, bottom_pos = 0, arrays = [circ_new initial_capacity d], array_ptr = 0,
       garbage = [], dflt_item = d \<rparr>"

definition deref :: "('a, 'b) deque_scheme \<Rightarrow> nat \<Rightarrow> 'a circular" where
  "deref q p = arrays q ! p"

abbreviation cur_array :: "('a, 'b) deque_scheme \<Rightarrow> 'a circular" where
  "cur_array q \<equiv> deref q (array_ptr q)"

definition ensure_room :: "int \<Rightarrow> int \<Rightarrow> ('a, 'b) deque_scheme \<Rightarrow> ('a, 'b) deque_scheme" where
  "ensure_room b t q =
     (if b - t > int (mask_bits (cur_array q))
      then q \<lparr> arrays := arrays q @ [circ_grow (dflt_item q) (cur_array q) b t],
               array_ptr := length (arrays q),
               garbage := garbage q @ [array_ptr q] \<rparr>
      else q)"

definition store_item :: "int \<Rightarrow> 'a \<Rightarrow> ('a, 'b) deque_scheme \<Rightarrow> ('a, 'b) deque_scheme" where
  "store_item b x q =
     q \<lparr> arrays := (arrays q)[array_ptr q := circ_put b x (cur_array q)] \<rparr>"

definition push_bottom :: "'a \<Rightarrow> 'a deque \<Rightarrow> 'a deque" where
  "push_bottom x q =
     (let b = bottom_pos q; t = top_pos q
      in (store_item b x (ensure_room b t q)) \<lparr> bottom_pos := b + 1 \<rparr>)"

definition pop_bottom :: "'a deque \<Rightarrow> 'a option \<times> 'a deque" where
  "pop_bottom q0 =
     (let q = q0 \<lparr> bottom_pos := bottom_pos q0 - 1 \<rparr>; b = bottom_pos q; t = top_pos q
      in if b - t < 0 then (None, q \<lparr> bottom_pos := b + 1 \<rparr>)
         else let out = circ_get (cur_array q) b
           in if b = t
              then (if top_pos q = t
                    then (Some out, q \<lparr> top_pos := t + 1, bottom_pos := b + 1 \<rparr>)
                    else (None, q \<lparr> bottom_pos := b + 1 \<rparr>))
              else (Some out, q))"

definition steal_top :: "'a deque \<Rightarrow> 'a option \<times> 'a deque" where
  "steal_top q =
     (let t = top_pos q; b = bottom_pos q
      in if b - t \<le> 0 then (None, q)
         else let out = circ_get (cur_array q) t
           in if top_pos q = t then (Some out, q \<lparr> top_pos := t + 1 \<rparr>) else (None, q))"

definition size_approx :: "'a deque \<Rightarrow> nat" where
  "size_approx q =
     (let b = bottom_pos q; t = top_pos q in nat (if b \<ge> t then b - t else 0))"

section \<open>The deque, one access at a time\<close>

text \<open>
  The program counter of the owner with its local variables: \<open>b\<close>, \<open>t\<close>, the item to push or
  the item read. \<open>PushTop\<close> is about to load \<open>top_\<close>, \<open>PushArr\<close> to load \<open>array_\<close> (and to
  replace it when the array is full), \<open>PushPut\<close> to write the slot and \<open>PushStore\<close> to store
  \<open>bottom_\<close>; \<open>PopTop\<close>, \<open>PopArr\<close>, \<open>PopCas\<close> and \<open>PopBack\<close> are the points of
  \<open>pop_bottom\<close> after the \<open>fetch_sub\<close>.
\<close>

datatype 'a owner_pc =
    OwnerIdle
  | PushTop 'a int
  | PushArr 'a int int
  | PushPut 'a int
  | PushStore 'a int
  | PopTop int
  | PopArr int int
  | PopCas int 'a
  | PopBack int "'a option"

datatype 'a thief_pc =
    ThiefIdle
  | StealBottom int
  | StealArr int
  | StealGet int nat
  | StealCas int 'a

record 'a ws = "'a deque" +
  owner :: "'a owner_pc"
  thieves :: "nat \<Rightarrow> 'a thief_pc"

datatype 'a ws_event = Tau | Pushed 'a | Popped 'a | PopFailed | Stolen nat 'a

datatype 'a ws_act =
    CallPush 'a
  | CallPop
  | OwnerStep
  | CallSteal nat
  | ThiefStep nat

definition owner_step :: "'a ws \<Rightarrow> 'a ws_event \<times> 'a ws" where
  "owner_step s = (case owner s of
     OwnerIdle \<Rightarrow> (Tau, s)
   | PushTop x b \<Rightarrow> (Tau, s \<lparr> owner := PushArr x b (top_pos s) \<rparr>)
   | PushArr x b t \<Rightarrow> (Tau, (ensure_room b t s) \<lparr> owner := PushPut x b \<rparr>)
   | PushPut x b \<Rightarrow> (Tau, (store_item b x s) \<lparr> owner := PushStore x b \<rparr>)
   | PushStore x b \<Rightarrow> (Pushed x, s \<lparr> bottom_pos := b + 1, owner := OwnerIdle \<rparr>)
   | PopTop b \<Rightarrow> (Tau, s \<lparr> owner := PopArr b (top_pos s) \<rparr>)
   | PopArr b t \<Rightarrow>
       (if b - t < 0 then (Tau, s \<lparr> owner := PopBack b None \<rparr>)
        else let out = circ_get (cur_array s) b
          in if b = t then (Tau, s \<lparr> owner := PopCas b out \<rparr>)
             else (Popped out, s \<lparr> owner := OwnerIdle \<rparr>))
   | PopCas b out \<Rightarrow>
       (if top_pos s = b then (Popped out, s \<lparr> top_pos := b + 1, owner := PopBack b (Some out) \<rparr>)
        else (Tau, s \<lparr> owner := PopBack b None \<rparr>))
   | PopBack b r \<Rightarrow>
       (if r = None then PopFailed else Tau, s \<lparr> bottom_pos := b + 1, owner := OwnerIdle \<rparr>))"

definition set_thief :: "nat \<Rightarrow> 'a thief_pc \<Rightarrow> 'a ws \<Rightarrow> 'a ws" where
  "set_thief i pc s = s \<lparr> thieves := (thieves s)(i := pc) \<rparr>"

definition thief_step :: "nat \<Rightarrow> 'a ws \<Rightarrow> 'a ws_event \<times> 'a ws" where
  "thief_step i s = (case thieves s i of
     ThiefIdle \<Rightarrow> (Tau, s)
   | StealBottom t \<Rightarrow>
       (Tau, set_thief i (if bottom_pos s - t \<le> 0 then ThiefIdle else StealArr t) s)
   | StealArr t \<Rightarrow> (Tau, set_thief i (StealGet t (array_ptr s)) s)
   | StealGet t p \<Rightarrow> (Tau, set_thief i (StealCas t (circ_get (deref s p) t)) s)
   | StealCas t out \<Rightarrow>
       (if top_pos s = t
        then (Stolen i out, set_thief i ThiefIdle (s \<lparr> top_pos := t + 1 \<rparr>))
        else (Tau, set_thief i ThiefIdle s)))"

text \<open>
  A schedule is a list of acts. A call begins with its first access: the load of \<open>bottom_\<close>,
  the \<open>fetch_sub\<close>, the load of \<open>top_\<close>. A thread that is inside a call does not begin another.
\<close>

fun do_act :: "'a ws_act \<Rightarrow> 'a ws \<Rightarrow> 'a ws_event \<times> 'a ws" where
  "do_act (CallPush x) s =
     (Tau, if owner s = OwnerIdle then s \<lparr> owner := PushTop x (bottom_pos s) \<rparr> else s)"
| "do_act CallPop s =
     (Tau, if owner s = OwnerIdle
           then s \<lparr> bottom_pos := bottom_pos s - 1, owner := PopTop (bottom_pos s - 1) \<rparr> else s)"
| "do_act OwnerStep s = owner_step s"
| "do_act (CallSteal i) s =
     (Tau, if thieves s i = ThiefIdle then set_thief i (StealBottom (top_pos s)) s else s)"
| "do_act (ThiefStep i) s = thief_step i s"

fun run_ws :: "'a ws_act list \<Rightarrow> 'a ws \<Rightarrow> 'a ws_event list \<times> 'a ws" where
  "run_ws [] s = ([], s)"
| "run_ws (a # as) s =
     (let (e, s1) = do_act a s; (es, s2) = run_ws as s1 in (e # es, s2))"

definition ws_init :: "nat \<Rightarrow> 'a \<Rightarrow> 'a ws" where
  "ws_init cap d = deque.extend (chaselev_new cap d)
     \<lparr> owner = OwnerIdle, thieves = (\<lambda>_. ThiefIdle) \<rparr>"

section \<open>The abstract deque\<close>

fun abs_event :: "'a ws_event \<Rightarrow> 'a list \<Rightarrow> 'a list option" where
  "abs_event Tau q = Some q"
| "abs_event (Pushed x) q = Some (q @ [x])"
| "abs_event (Popped x) q = (if q \<noteq> [] \<and> last q = x then Some (butlast q) else None)"
| "abs_event PopFailed q = (if q = [] then Some q else None)"
| "abs_event (Stolen i x) q = (case q of [] \<Rightarrow> None | y # ys \<Rightarrow> if y = x then Some ys else None)"

fun abs_events :: "'a ws_event list \<Rightarrow> 'a list \<Rightarrow> 'a list option" where
  "abs_events [] q = Some q"
| "abs_events (e # es) q = (case abs_event e q of None \<Rightarrow> None | Some q' \<Rightarrow> abs_events es q')"

fun popping :: "'a owner_pc \<Rightarrow> bool" where
  "popping (PopTop b) = True"
| "popping (PopArr b t) = True"
| "popping (PopCas b v) = True"
| "popping (PopBack b r) = True"
| "popping _ = False"

text \<open>
  While the owner is popping, the position it has reserved by the \<open>fetch_sub\<close> still holds an
  element of the deque.
\<close>

definition logical_bottom :: "'a ws \<Rightarrow> int" where
  "logical_bottom s = (if popping (owner s) then bottom_pos s + 1 else bottom_pos s)"

definition contents :: "'a ws \<Rightarrow> 'a list" where
  "contents s = map (circ_get (cur_array s)) [top_pos s..logical_bottom s - 1]"

section \<open>Slots\<close>

definition circ_wf :: "'a circular \<Rightarrow> bool" where
  "circ_wf arr \<longleftrightarrow> (\<exists>k. length (buf arr) = 2 ^ k) \<and> mask_bits arr = length (buf arr) - 1"

lemma slot_index_mod:
  assumes "circ_wf arr"
  shows "slot_index arr i = nat (i mod int (length (buf arr)))"
proof -
  obtain k where k: "length (buf arr) = 2 ^ k" and m: "mask_bits arr = 2 ^ k - 1"
    using assms by (auto simp: circ_wf_def)
  have "int (mask_bits arr) = mask k"
    by (simp add: m mask_eq_exp_minus_1 of_nat_diff)
  then show ?thesis
    by (simp add: slot_index_def k take_bit_eq_mask [symmetric] take_bit_eq_mod)
qed

lemma circ_wf_pos: "circ_wf arr \<Longrightarrow> 0 < length (buf arr)"
  by (auto simp: circ_wf_def)

lemma slot_index_less: "circ_wf arr \<Longrightarrow> slot_index arr i < length (buf arr)"
  using circ_wf_pos [of arr] by (simp add: slot_index_mod nat_less_iff)

lemma mod_eq_window:
  fixes i j n :: int
  assumes "i mod n = j mod n" and "\<bar>i - j\<bar> < n"
  shows "i = j"
proof -
  have "n dvd i - j" using assms(1) by (simp add: mod_eq_dvd_iff)
  then show ?thesis using assms(2) dvd_imp_le_int [of "i - j" n] by (cases "i = j") auto
qed

lemma slot_index_inj:
  assumes "circ_wf arr" and "\<bar>i - j\<bar> < int (length (buf arr))"
  shows "slot_index arr i = slot_index arr j \<longleftrightarrow> i = j"
proof
  assume "slot_index arr i = slot_index arr j"
  then have "i mod int (length (buf arr)) = j mod int (length (buf arr))"
    using assms(1) circ_wf_pos [OF assms(1)] by (simp add: slot_index_mod eq_nat_nat_iff)
  then show "i = j" using assms(2) by (rule mod_eq_window)
qed simp

lemma circ_put_wf [simp]: "circ_wf (circ_put i v arr) = circ_wf arr"
  by (simp add: circ_wf_def circ_put_def)

lemma length_circ_put [simp]: "length (buf (circ_put i v arr)) = length (buf arr)"
  by (simp add: circ_put_def)

lemma mask_circ_put [simp]: "mask_bits (circ_put i v arr) = mask_bits arr"
  by (simp add: circ_put_def)

lemma slot_index_put [simp]: "slot_index (circ_put i v arr) = slot_index arr"
  by (simp add: slot_index_def fun_eq_iff)

lemma circ_get_put_same: "circ_wf arr \<Longrightarrow> circ_get (circ_put i v arr) i = v"
  by (simp add: circ_get_def) (simp add: circ_put_def slot_index_less)

lemma circ_get_put_other:
  assumes "circ_wf arr" and "\<bar>i - j\<bar> < int (length (buf arr))" and "i \<noteq> j"
  shows "circ_get (circ_put i v arr) j = circ_get arr j"
  using slot_index_inj [OF assms(1,2)] assms(3)
  by (simp add: circ_get_def) (simp add: circ_put_def)

lemma circ_new_wf: "circ_wf (circ_new (2 ^ k) d)"
  by (auto simp: circ_wf_def circ_new_def)

lemma fold_put_shape:
  "circ_wf (fold (\<lambda>i. circ_put i (f i)) is arr) = circ_wf arr \<and>
   length (buf (fold (\<lambda>i. circ_put i (f i)) is arr)) = length (buf arr)"
  by (induction "is" arbitrary: arr) auto

lemma fold_put_keeps:
  assumes "circ_wf arr" and "\<forall>i\<in>set is. i \<noteq> j \<and> \<bar>i - j\<bar> < int (length (buf arr))"
  shows "circ_get (fold (\<lambda>i. circ_put i (f i)) is arr) j = circ_get arr j"
  using assms by (induction "is" arbitrary: arr) (auto simp: circ_get_put_other)

lemma fold_put_copies:
  assumes "circ_wf arr" and "b - t \<le> int (length (buf arr))" and "t \<le> j" and "j < b"
  shows "circ_get (fold (\<lambda>i. circ_put i (f i)) [t..b - 1] arr) j = f j"
proof -
  have split: "[t..b - 1] = [t..j - 1] @ j # [j + 1..b - 1]"
    using upto_split3 [of t j "b - 1"] assms by simp
  let ?a = "fold (\<lambda>i. circ_put i (f i)) [t..j - 1] arr"
  have wf: "circ_wf ?a" and len: "length (buf ?a) = length (buf arr)"
    using assms(1) by (simp_all add: fold_put_shape)
  have "circ_get (fold (\<lambda>i. circ_put i (f i)) [j + 1..b - 1] (circ_put j (f j) ?a)) j =
        circ_get (circ_put j (f j) ?a) j"
    by (rule fold_put_keeps) (use wf len assms in auto)
  then show ?thesis using wf by (simp add: split circ_get_put_same)
qed

lemma circ_grow_shape:
  assumes "circ_wf arr"
  shows "circ_wf (circ_grow d arr b t)" "length (buf (circ_grow d arr b t)) = 2 * length (buf arr)"
proof -
  obtain k where k: "length (buf arr) * 2 = 2 ^ k"
    using assms by (auto simp: circ_wf_def intro: exI [of _ "Suc _"]) (metis power_Suc2)
  show "circ_wf (circ_grow d arr b t)"
    unfolding circ_grow_def k by (simp add: fold_put_shape circ_new_wf)
  show "length (buf (circ_grow d arr b t)) = 2 * length (buf arr)"
    by (simp add: circ_grow_def fold_put_shape) (simp add: circ_new_def)
qed

lemma circ_grow_copies:
  assumes "circ_wf arr" and "b - t \<le> int (length (buf arr))" and "t \<le> j" and "j < b"
  shows "circ_get (circ_grow d arr b t) j = circ_get arr j"
proof -
  obtain k where k: "length (buf arr) * 2 = 2 ^ k"
    using assms(1) by (auto simp: circ_wf_def) (metis power_Suc2)
  have "b - t \<le> int (length (buf (circ_new (length (buf arr) * 2) d)))"
    using assms(2) by (simp add: circ_new_def)
  then show ?thesis
    unfolding circ_grow_def using assms(3,4) k
    by (intro fold_put_copies) (simp_all add: circ_new_wf)
qed

section \<open>The invariant of the interleaved deque\<close>

text \<open>
  \<open>committed s t\<close>: position \<open>t\<close> cannot leave the deque other than by an exchange of \<open>top_\<close>,
  so a thief that has read \<open>top_ = t\<close> and then a larger \<open>bottom_\<close> may still win it.
\<close>

definition committed :: "'a ws \<Rightarrow> int \<Rightarrow> bool" where
  "committed s t \<longleftrightarrow> t < bottom_pos s \<or> bottom_pos s = t \<and>
     (case owner s of PopTop b \<Rightarrow> True | PopArr b u \<Rightarrow> u = t | PopCas b v \<Rightarrow> True | _ \<Rightarrow> False)"

definition cur_cap :: "'a ws \<Rightarrow> int" where
  "cur_cap s = int (length (buf (cur_array s)))"

fun owner_ok :: "'a owner_pc \<Rightarrow> 'a ws \<Rightarrow> bool" where
  "owner_ok OwnerIdle s = True"
| "owner_ok (PushTop x b) s = (b = bottom_pos s)"
| "owner_ok (PushArr x b t) s = (b = bottom_pos s \<and> t \<le> top_pos s \<and> b - t \<le> cur_cap s)"
| "owner_ok (PushPut x b) s = (b = bottom_pos s \<and> b - top_pos s < cur_cap s)"
| "owner_ok (PushStore x b) s =
     (b = bottom_pos s \<and> b - top_pos s < cur_cap s \<and> circ_get (cur_array s) b = x)"
| "owner_ok (PopTop b) s = (b = bottom_pos s)"
| "owner_ok (PopArr b t) s =
     (b = bottom_pos s \<and> t \<le> top_pos s \<and> (t < b \<longrightarrow> top_pos s \<le> b))"
| "owner_ok (PopCas b v) s =
     (b = bottom_pos s \<and> b \<le> top_pos s \<and> v = circ_get (cur_array s) b)"
| "owner_ok (PopBack b r) s = (b = bottom_pos s \<and> top_pos s = b + 1)"

fun thief_ok :: "'a thief_pc \<Rightarrow> 'a ws \<Rightarrow> bool" where
  "thief_ok ThiefIdle s = True"
| "thief_ok (StealBottom t) s = (t \<le> top_pos s)"
| "thief_ok (StealArr t) s = (t \<le> top_pos s \<and> (t = top_pos s \<longrightarrow> committed s t))"
| "thief_ok (StealGet t p) s =
     (t \<le> top_pos s \<and> p < length (arrays s) \<and>
      (t = top_pos s \<longrightarrow> committed s t \<and> circ_get (deref s p) t = circ_get (cur_array s) t))"
| "thief_ok (StealCas t v) s =
     (t \<le> top_pos s \<and> (t = top_pos s \<longrightarrow> committed s t \<and> v = circ_get (cur_array s) t))"

definition shared_ok :: "'a ws \<Rightarrow> bool" where
  "shared_ok s \<longleftrightarrow> array_ptr s < length (arrays s) \<and> (\<forall>a\<in>set (arrays s). circ_wf a) \<and>
     top_pos s \<le> logical_bottom s \<and> logical_bottom s - top_pos s \<le> cur_cap s"

definition ws_inv :: "'a ws \<Rightarrow> bool" where
  "ws_inv s \<longleftrightarrow> shared_ok s \<and> owner_ok (owner s) s \<and> (\<forall>i. thief_ok (thieves s i) s)"

lemma cur_array_wf: "shared_ok s \<Longrightarrow> circ_wf (cur_array s)"
  by (simp add: shared_ok_def deref_def)

lemma thief_ok_mono:
  assumes "thief_ok pc s"
    and "top_pos s \<le> top_pos s'" and "length (arrays s) \<le> length (arrays s')"
    and "top_pos s' = top_pos s \<Longrightarrow> committed s (top_pos s) \<Longrightarrow>
           committed s' (top_pos s) \<and>
           (\<forall>p<length (arrays s). circ_get (deref s' p) (top_pos s) = circ_get (deref s p) (top_pos s)) \<and>
           circ_get (cur_array s') (top_pos s) = circ_get (cur_array s) (top_pos s)"
  shows "thief_ok pc s'"
  using assms by (cases pc) auto

lemma committed_top:
  assumes "ws_inv s" and "committed s (top_pos s)"
  shows "top_pos s < logical_bottom s"
  using assms by (auto simp: committed_def logical_bottom_def split: owner_pc.splits)

lemma ensure_room_fields [simp]:
  "top_pos (ensure_room b t s) = top_pos s" "bottom_pos (ensure_room b t s) = bottom_pos s"
  "owner (ensure_room b t (s :: 'a ws)) = owner s" "thieves (ensure_room b t s) = thieves s"
  by (simp_all add: ensure_room_def)

lemma store_item_fields [simp]:
  "top_pos (store_item b x s) = top_pos s" "bottom_pos (store_item b x s) = bottom_pos s"
  "owner (store_item b x (s :: 'a ws)) = owner s" "thieves (store_item b x s) = thieves s"
  "array_ptr (store_item b x s) = array_ptr s"
  "length (arrays (store_item b x s)) = length (arrays s)"
  by (simp_all add: store_item_def)

lemma deref_update [simp]: "deref (s \<lparr> owner := pc \<rparr>) p = deref s p"
  by (simp add: deref_def)

lemma deref_top [simp]: "deref (q \<lparr> top_pos := t \<rparr>) p = deref q p"
  by (simp add: deref_def)

lemma deref_bottom [simp]: "deref (q \<lparr> bottom_pos := t \<rparr>) p = deref q p"
  by (simp add: deref_def)

lemma deref_thieves [simp]: "deref (s \<lparr> thieves := f \<rparr>) p = deref s p"
  by (simp add: deref_def)

section \<open>Steps of the owner\<close>

lemma ensure_room_old: "p < length (arrays s) \<Longrightarrow> deref (ensure_room b t s) p = deref s p"
  by (simp add: ensure_room_def deref_def nth_append)

lemma ensure_room_shape:
  assumes "array_ptr s < length (arrays s)" and "\<forall>a\<in>set (arrays s). circ_wf a"
  shows "array_ptr (ensure_room b t s) < length (arrays (ensure_room b t s))"
    and "\<forall>a\<in>set (arrays (ensure_room b t s)). circ_wf a"
    and "length (arrays s) \<le> length (arrays (ensure_room b t s))"
    and "length (buf (cur_array s)) \<le> length (buf (cur_array (ensure_room b t s)))"
  using assms circ_grow_shape [of "cur_array s" "dflt_item s" b t]
  by (auto simp: ensure_room_def deref_def nth_append)

lemma ensure_room_room:
  assumes "circ_wf (cur_array s)" and "b - t \<le> int (length (buf (cur_array s)))"
  shows "b - t < int (length (buf (cur_array (ensure_room b t s))))"
proof -
  have "int (mask_bits (cur_array s)) = int (length (buf (cur_array s))) - 1"
    using assms(1) circ_wf_pos [OF assms(1)] by (auto simp: circ_wf_def)
  then show ?thesis
    using assms circ_wf_pos [OF assms(1)] circ_grow_shape [OF assms(1)]
    by (auto simp: ensure_room_def deref_def nth_append)
qed

lemma ensure_room_get:
  assumes "circ_wf (cur_array s)" and "b - t \<le> int (length (buf (cur_array s)))"
    and "t \<le> j" and "j < b"
  shows "circ_get (cur_array (ensure_room b t s)) j = circ_get (cur_array s) j"
  using circ_grow_copies [OF assms] by (auto simp: ensure_room_def deref_def nth_append)

lemma store_item_cur:
  "array_ptr s < length (arrays s) \<Longrightarrow>
   deref (store_item b x s) (array_ptr s) = circ_put b x (cur_array s)"
  by (simp add: store_item_def deref_def)

lemma store_item_other:
  "p \<noteq> array_ptr s \<Longrightarrow> deref (store_item b x s) p = deref s p"
  by (simp add: store_item_def deref_def)

lemma store_item_wf:
  assumes "array_ptr s < length (arrays s)" and "\<forall>a\<in>set (arrays s). circ_wf a"
  shows "\<forall>a\<in>set (arrays (store_item b x s)). circ_wf a"
  unfolding store_item_def using assms
  by (simp, intro list_all_update) (simp_all add: deref_def)

lemma store_item_get:
  assumes "shared_ok s" and "b - j < cur_cap s" and "j < b" and "p < length (arrays s)"
  shows "circ_get (cur_array (store_item b x s)) j = circ_get (cur_array s) j"
    and "p = array_ptr s \<or> deref (store_item b x s) p = deref s p"
  using assms cur_array_wf [OF assms(1)] store_item_other [of p s b x]
  by (auto simp: shared_ok_def store_item_cur cur_cap_def intro!: circ_get_put_other)

lemma owner_frame:
  assumes inv: "ws_inv s" and arr: "arrays s' = arrays s" "array_ptr s' = array_ptr s"
    and th: "thieves s' = thieves s" and tp: "top_pos s' = top_pos s"
    and lb: "top_pos s \<le> logical_bottom s'" "logical_bottom s' \<le> logical_bottom s"
    and com: "committed s (top_pos s) \<Longrightarrow> committed s' (top_pos s)"
    and own: "owner_ok (owner s') s'"
  shows "ws_inv s'"
proof -
  have d: "deref s' p = deref s p" for p using arr(1) by (simp add: deref_def)
  have "shared_ok s" using inv by (simp add: ws_inv_def)
  then have "shared_ok s'"
    unfolding shared_ok_def cur_cap_def d arr tp using lb by linarith
  moreover have "thief_ok (thieves s' i) s'" for i
  proof (rule thief_ok_mono [of _ s])
    show "thief_ok (thieves s' i) s" using inv by (simp add: ws_inv_def th)
  qed (use arr tp com in \<open>simp_all add: d\<close>)
  ultimately show ?thesis using own by (simp add: ws_inv_def)
qed

lemma step_PushArr:
  assumes inv: "ws_inv s" and o: "owner s = PushArr x b t"
  shows "ws_inv ((ensure_room b t s) \<lparr> owner := PushPut x b \<rparr>)"
    and "contents ((ensure_room b t s) \<lparr> owner := PushPut x b \<rparr>) = contents s"
proof -
  let ?s = "(ensure_room b t s) \<lparr> owner := PushPut x b \<rparr>"
  have sh: "shared_ok s" and b: "b = bottom_pos s" and t: "t \<le> top_pos s" "b - t \<le> cur_cap s"
    using inv o by (auto simp: ws_inv_def)
  have wf: "circ_wf (cur_array s)" using sh by (rule cur_array_wf)
  have lb: "logical_bottom s = b" "logical_bottom ?s = b"
    using o b by (simp_all add: logical_bottom_def)
  have get: "circ_get (cur_array (ensure_room b t s)) j = circ_get (cur_array s) j"
    if "top_pos s \<le> j" "j < b" for j
    using that wf t by (intro ensure_room_get) (auto simp: cur_cap_def)
  note shape = ensure_room_shape [of s b t]
  have cap: "cur_cap s \<le> cur_cap ?s" and room: "b - top_pos s < cur_cap ?s"
    using sh shape(4) ensure_room_room [OF wf, of b t] t by (auto simp: cur_cap_def shared_ok_def)
  have "shared_ok ?s"
    using sh shape cap lb by (auto simp: shared_ok_def)
  moreover have "thief_ok (thieves s i) ?s" for i
  proof (rule thief_ok_mono [of _ s])
    show "thief_ok (thieves s i) s" using inv by (simp add: ws_inv_def)
    show "committed ?s (top_pos s) \<and>
      (\<forall>p<length (arrays s). circ_get (deref ?s p) (top_pos s) = circ_get (deref s p) (top_pos s)) \<and>
      circ_get (cur_array ?s) (top_pos s) = circ_get (cur_array s) (top_pos s)"
      if "committed s (top_pos s)"
      using that o b get [of "top_pos s"] by (auto simp: committed_def ensure_room_old)
  qed (use sh shape(3) in \<open>auto simp: shared_ok_def\<close>)
  ultimately show "ws_inv ?s" using b room by (simp add: ws_inv_def)
  show "contents ?s = contents s"
    using get by (auto simp: contents_def lb)
qed

lemma step_PushPut:
  assumes inv: "ws_inv s" and o: "owner s = PushPut x b"
  shows "ws_inv ((store_item b x s) \<lparr> owner := PushStore x b \<rparr>)"
    and "contents ((store_item b x s) \<lparr> owner := PushStore x b \<rparr>) = contents s"
proof -
  let ?s = "(store_item b x s) \<lparr> owner := PushStore x b \<rparr>"
  have sh: "shared_ok s" and b: "b = bottom_pos s" and room: "b - top_pos s < cur_cap s"
    using inv o by (auto simp: ws_inv_def)
  have p: "array_ptr s < length (arrays s)" using sh by (simp add: shared_ok_def)
  have wf: "circ_wf (cur_array s)" using sh by (rule cur_array_wf)
  have lb: "logical_bottom s = b" "logical_bottom ?s = b"
    using o b by (simp_all add: logical_bottom_def)
  have get: "circ_get (deref (store_item b x s) (array_ptr s)) j = circ_get (cur_array s) j"
    if "top_pos s \<le> j" "j < b" for j
    using that room store_item_get(1) [OF sh, of b j "array_ptr s" x] p by simp
  have cap: "cur_cap ?s = cur_cap s"
    using p by (simp add: cur_cap_def store_item_cur)
  have "shared_ok ?s"
    using sh store_item_wf [OF p, of b x] cap lb by (auto simp: shared_ok_def)
  moreover have "thief_ok (thieves s i) ?s" for i
  proof (rule thief_ok_mono [of _ s])
    show "thief_ok (thieves s i) s" using inv by (simp add: ws_inv_def)
    show "committed ?s (top_pos s) \<and>
      (\<forall>p<length (arrays s). circ_get (deref ?s p) (top_pos s) = circ_get (deref s p) (top_pos s)) \<and>
      circ_get (cur_array ?s) (top_pos s) = circ_get (cur_array s) (top_pos s)"
      if "committed s (top_pos s)"
    proof -
      have "top_pos s < b" using that o b by (simp add: committed_def)
      then have "circ_get (deref (store_item b x s) q) (top_pos s) = circ_get (deref s q) (top_pos s)"
        for q using get [of "top_pos s"] by (cases "q = array_ptr s") (simp_all add: store_item_other)
      then show ?thesis using \<open>top_pos s < b\<close> b by (simp add: committed_def)
    qed
  qed simp_all
  ultimately show "ws_inv ?s"
    using b room cap wf p by (simp add: ws_inv_def store_item_cur circ_get_put_same)
  show "contents ?s = contents s"
    using get by (auto simp: contents_def lb)
qed

lemma contents_cong:
  assumes "arrays s' = arrays s" and "array_ptr s' = array_ptr s" and "top_pos s' = top_pos s"
    and "logical_bottom s' = logical_bottom s"
  shows "contents s' = contents s"
  using assms by (simp add: contents_def deref_def)

lemma contents_snoc:
  assumes "top_pos s \<le> logical_bottom s - 1"
  shows "contents s = map (circ_get (cur_array s)) [top_pos s..logical_bottom s - 2]
                        @ [circ_get (cur_array s) (logical_bottom s - 1)]"
  using upto_rec2 [OF assms] by (simp add: contents_def)

lemma contents_cons:
  assumes "top_pos s < logical_bottom s"
  shows "contents s = circ_get (cur_array s) (top_pos s)
                        # map (circ_get (cur_array s)) [top_pos s + 1..logical_bottom s - 1]"
  using upto_rec1 [of "top_pos s" "logical_bottom s - 1"] assms by (simp add: contents_def)

text \<open>
  A step that keeps the invariant and is a step of the abstract deque.
\<close>

definition simulates :: "'a ws \<Rightarrow> 'a ws_event \<times> 'a ws \<Rightarrow> bool" where
  "simulates s r \<longleftrightarrow> ws_inv (snd r) \<and> abs_event (fst r) (contents s) = Some (contents (snd r))"

lemma simulates_tau:
  "ws_inv s' \<Longrightarrow> contents s' = contents s \<Longrightarrow> simulates s (Tau, s')"
  by (simp add: simulates_def)

lemma step_PushTop:
  assumes "ws_inv s" and "owner s = PushTop x b"
  shows "simulates s (Tau, s \<lparr> owner := PushArr x b (top_pos s) \<rparr>)"
proof (rule simulates_tau)
  show "ws_inv (s \<lparr> owner := PushArr x b (top_pos s) \<rparr>)"
    using assms
    by (intro owner_frame [OF assms(1)])
       (auto simp: logical_bottom_def committed_def ws_inv_def shared_ok_def cur_cap_def)
  show "contents (s \<lparr> owner := PushArr x b (top_pos s) \<rparr>) = contents s"
    using assms by (intro contents_cong) (simp_all add: logical_bottom_def)
qed

lemma step_PushStore:
  assumes inv: "ws_inv s" and o: "owner s = PushStore x b"
  shows "simulates s (Pushed x, s \<lparr> bottom_pos := b + 1, owner := OwnerIdle \<rparr>)"
proof -
  let ?s = "s \<lparr> bottom_pos := b + 1, owner := OwnerIdle \<rparr>"
  have sh: "shared_ok s" and b: "b = bottom_pos s" and room: "b - top_pos s < cur_cap s"
    and x: "circ_get (cur_array s) b = x"
    using inv o by (auto simp: ws_inv_def)
  have lb: "logical_bottom s = b" "logical_bottom ?s = b + 1"
    using o b by (simp_all add: logical_bottom_def)
  have "shared_ok ?s"
    using sh room lb by (simp add: shared_ok_def cur_cap_def)
  moreover have "thief_ok (thieves s i) ?s" for i
  proof (rule thief_ok_mono [of _ s])
    show "thief_ok (thieves s i) s" using inv by (simp add: ws_inv_def)
  qed (use o b in \<open>auto simp: committed_def\<close>)
  ultimately have "ws_inv ?s" by (simp add: ws_inv_def)
  moreover have "contents ?s = contents s @ [x]"
    using contents_snoc [of ?s] sh x lb by (simp add: shared_ok_def) (simp add: contents_def lb)
  ultimately show ?thesis by (simp add: simulates_def)
qed

lemma step_PopTop:
  assumes "ws_inv s" and "owner s = PopTop b"
  shows "simulates s (Tau, s \<lparr> owner := PopArr b (top_pos s) \<rparr>)"
proof (rule simulates_tau)
  show "ws_inv (s \<lparr> owner := PopArr b (top_pos s) \<rparr>)"
    using assms
    by (intro owner_frame [OF assms(1)])
       (auto simp: logical_bottom_def committed_def ws_inv_def shared_ok_def)
  show "contents (s \<lparr> owner := PopArr b (top_pos s) \<rparr>) = contents s"
    using assms by (intro contents_cong) (simp_all add: logical_bottom_def)
qed

lemma step_PopArr_empty:
  assumes "ws_inv s" and "owner s = PopArr b t" and "b < t"
  shows "simulates s (Tau, s \<lparr> owner := PopBack b None \<rparr>)"
proof (rule simulates_tau)
  show "ws_inv (s \<lparr> owner := PopBack b None \<rparr>)"
    using assms
    by (intro owner_frame [OF assms(1)])
       (auto simp: logical_bottom_def committed_def ws_inv_def shared_ok_def)
  show "contents (s \<lparr> owner := PopBack b None \<rparr>) = contents s"
    using assms by (intro contents_cong) (simp_all add: logical_bottom_def)
qed

lemma step_PopArr_last:
  assumes "ws_inv s" and "owner s = PopArr b b"
  shows "simulates s (Tau, s \<lparr> owner := PopCas b (circ_get (cur_array s) b) \<rparr>)"
proof (rule simulates_tau)
  show "ws_inv (s \<lparr> owner := PopCas b (circ_get (cur_array s) b) \<rparr>)"
    using assms
    by (intro owner_frame [OF assms(1)])
       (auto simp: logical_bottom_def committed_def ws_inv_def shared_ok_def)
  show "contents (s \<lparr> owner := PopCas b (circ_get (cur_array s) b) \<rparr>) = contents s"
    using assms by (intro contents_cong) (simp_all add: logical_bottom_def)
qed

lemma step_PopArr_take:
  assumes inv: "ws_inv s" and o: "owner s = PopArr b t" and less: "t < b"
  shows "simulates s (Popped (circ_get (cur_array s) b), s \<lparr> owner := OwnerIdle \<rparr>)"
proof -
  let ?s = "s \<lparr> owner := OwnerIdle \<rparr>"
  have b: "b = bottom_pos s" and le: "top_pos s \<le> b"
    using inv o less by (auto simp: ws_inv_def)
  have lb: "logical_bottom s = b + 1" "logical_bottom ?s = b"
    using o b by (simp_all add: logical_bottom_def)
  have "ws_inv ?s"
    by (rule owner_frame [OF inv]) (use lb o le less b in \<open>auto simp: committed_def\<close>)
  moreover have "contents s = contents ?s @ [circ_get (cur_array s) b]"
    using contents_snoc [of s] le lb by simp (simp add: contents_def lb)
  ultimately show ?thesis by (simp add: simulates_def)
qed

lemma step_PopCas_win:
  assumes inv: "ws_inv s" and o: "owner s = PopCas b v" and won: "top_pos s = b"
  shows "simulates s (Popped v, s \<lparr> top_pos := b + 1, owner := PopBack b (Some v) \<rparr>)"
proof -
  let ?s = "s \<lparr> top_pos := b + 1, owner := PopBack b (Some v) \<rparr>"
  have sh: "shared_ok s" and b: "b = bottom_pos s" and v: "v = circ_get (cur_array s) b"
    using inv o by (auto simp: ws_inv_def)
  have lb: "logical_bottom s = b + 1" "logical_bottom ?s = b + 1"
    using o b by (simp_all add: logical_bottom_def)
  have "shared_ok ?s" using sh lb won by (simp add: shared_ok_def cur_cap_def)
  moreover have "thief_ok (thieves s i) ?s" for i
  proof (rule thief_ok_mono [of _ s])
    show "thief_ok (thieves s i) s" using inv by (simp add: ws_inv_def)
  qed (use won in auto)
  ultimately have "ws_inv ?s" using b by (simp add: ws_inv_def)
  then show ?thesis using lb won v by (simp add: simulates_def contents_def)
qed

lemma step_PopCas_lose:
  assumes "ws_inv s" and "owner s = PopCas b v" and "top_pos s \<noteq> b"
  shows "simulates s (Tau, s \<lparr> owner := PopBack b None \<rparr>)"
proof (rule simulates_tau)
  show "ws_inv (s \<lparr> owner := PopBack b None \<rparr>)"
    using assms
    by (intro owner_frame [OF assms(1)])
       (auto simp: logical_bottom_def committed_def ws_inv_def shared_ok_def)
  show "contents (s \<lparr> owner := PopBack b None \<rparr>) = contents s"
    using assms by (intro contents_cong) (simp_all add: logical_bottom_def)
qed

lemma step_PopBack:
  assumes inv: "ws_inv s" and o: "owner s = PopBack b r"
  shows "simulates s (if r = None then PopFailed else Tau,
                      s \<lparr> bottom_pos := b + 1, owner := OwnerIdle \<rparr>)"
proof -
  let ?s = "s \<lparr> bottom_pos := b + 1, owner := OwnerIdle \<rparr>"
  have b: "b = bottom_pos s" and t: "top_pos s = b + 1"
    using inv o by (auto simp: ws_inv_def)
  have lb: "logical_bottom s = b + 1" "logical_bottom ?s = b + 1"
    using o b by (simp_all add: logical_bottom_def)
  have "ws_inv ?s"
    by (rule owner_frame [OF inv]) (use lb t o b in \<open>auto simp: committed_def\<close>)
  then show ?thesis using lb t by (simp add: simulates_def contents_def)
qed

lemma owner_step_simulates:
  assumes "ws_inv s"
  shows "simulates s (owner_step s)"
proof (cases "owner s")
  case OwnerIdle
  then show ?thesis using assms by (simp add: owner_step_def simulates_def)
next
  case (PopArr b t)
  then show ?thesis
    using assms step_PopArr_empty [OF assms PopArr] step_PopArr_take [OF assms PopArr]
      step_PopArr_last [OF assms]
    by (cases b t rule: linorder_cases) (auto simp: owner_step_def Let_def)
next
  case (PushArr x b t)
  then show ?thesis
    using step_PushArr [OF assms PushArr] by (simp add: owner_step_def simulates_tau)
next
  case (PushPut x b)
  then show ?thesis
    using step_PushPut [OF assms PushPut] by (simp add: owner_step_def simulates_tau)
qed (use assms in \<open>auto simp: owner_step_def intro: step_PushTop step_PushStore step_PopTop
       step_PopCas_win step_PopCas_lose dest: step_PopBack\<close>)

section \<open>Steps of the thieves and calls\<close>

lemma set_thief_fields [simp]:
  "top_pos (set_thief i pc s) = top_pos s" "bottom_pos (set_thief i pc s) = bottom_pos s"
  "arrays (set_thief i pc s) = arrays s" "array_ptr (set_thief i pc s) = array_ptr s"
  "owner (set_thief i pc s) = owner s" "deref (set_thief i pc s) p = deref s p"
  "thieves (set_thief i pc s) = (thieves s)(i := pc)"
  by (simp_all add: set_thief_def)

lemma set_thief_invisible [simp]:
  "logical_bottom (set_thief i pc s) = logical_bottom s"
  "committed (set_thief i pc s) t = committed s t" "cur_cap (set_thief i pc s) = cur_cap s"
  "shared_ok (set_thief i pc s) = shared_ok s" "contents (set_thief i pc s) = contents s"
  by (simp_all add: logical_bottom_def committed_def cur_cap_def shared_ok_def contents_def)

lemma owner_ok_set_thief [simp]: "owner_ok o' (set_thief i pc s) = owner_ok o' s"
  by (cases o') auto

lemma thief_ok_set_thief [simp]: "thief_ok pc' (set_thief i pc s) = thief_ok pc' s"
  by (cases pc') auto

lemma set_thief_inv:
  "ws_inv s \<Longrightarrow> thief_ok pc s \<Longrightarrow> ws_inv (set_thief i pc s)"
  by (simp add: ws_inv_def)

lemma set_thief_simulates:
  "ws_inv s \<Longrightarrow> thief_ok pc s \<Longrightarrow> simulates s (Tau, set_thief i pc s)"
  by (simp add: simulates_tau set_thief_inv)

lemma steal_inv:
  assumes inv: "ws_inv s" and com: "committed s (top_pos s)"
  shows "ws_inv (s \<lparr> top_pos := top_pos s + 1 \<rparr>)"
proof -
  let ?s = "s \<lparr> top_pos := top_pos s + 1 \<rparr>"
  have lb: "logical_bottom ?s = logical_bottom s" by (simp add: logical_bottom_def)
  have "top_pos s < logical_bottom s" using committed_top [OF inv com] .
  then have "shared_ok ?s" using inv lb by (simp add: ws_inv_def shared_ok_def cur_cap_def)
  moreover have "owner_ok (owner s) ?s"
    using inv com by (cases "owner s") (auto simp: ws_inv_def committed_def cur_cap_def)
  moreover have "thief_ok (thieves s i) ?s" for i
    by (rule thief_ok_mono [of _ s]) (use inv in \<open>auto simp: ws_inv_def\<close>)
  ultimately show ?thesis by (simp add: ws_inv_def)
qed

lemma step_StealCas_win:
  assumes inv: "ws_inv s" and pc: "thieves s i = StealCas t v" and won: "top_pos s = t"
  shows "simulates s (Stolen i v, set_thief i ThiefIdle (s \<lparr> top_pos := t + 1 \<rparr>))"
proof -
  have "thief_ok (StealCas t v) s" using inv pc by (metis ws_inv_def)
  then have com: "committed s (top_pos s)" and v: "v = circ_get (cur_array s) (top_pos s)"
    using won by auto
  have "contents s = v # contents (s \<lparr> top_pos := t + 1 \<rparr>)"
    using contents_cons [OF committed_top [OF inv com]] v won
    by (simp add: contents_def logical_bottom_def)
  then show ?thesis
    using steal_inv [OF inv com] won by (simp add: simulates_def set_thief_inv)
qed

lemma thief_step_simulates:
  assumes "ws_inv s"
  shows "simulates s (thief_step i s)"
proof -
  have ok: "thief_ok (thieves s i) s" using assms by (simp add: ws_inv_def)
  show ?thesis
  proof (cases "thieves s i")
    case ThiefIdle
    then show ?thesis using assms by (simp add: thief_step_def simulates_def)
  next
    case (StealBottom t)
    then show ?thesis using assms ok
      by (auto simp: thief_step_def committed_def intro!: set_thief_simulates)
  next
    case (StealCas t v)
    then show ?thesis using assms step_StealCas_win [OF assms StealCas]
      by (auto simp: thief_step_def intro!: set_thief_simulates)
  qed (use assms ok in \<open>auto simp: thief_step_def ws_inv_def shared_ok_def intro!: set_thief_simulates\<close>)
qed

lemma call_push_simulates:
  assumes "ws_inv s" and "owner s = OwnerIdle"
  shows "simulates s (Tau, s \<lparr> owner := PushTop x (bottom_pos s) \<rparr>)"
proof (rule simulates_tau)
  show "ws_inv (s \<lparr> owner := PushTop x (bottom_pos s) \<rparr>)"
    using assms
    by (intro owner_frame [OF assms(1)])
       (auto simp: logical_bottom_def committed_def ws_inv_def shared_ok_def)
  show "contents (s \<lparr> owner := PushTop x (bottom_pos s) \<rparr>) = contents s"
    using assms by (intro contents_cong) (simp_all add: logical_bottom_def)
qed

lemma call_pop_simulates:
  assumes "ws_inv s" and "owner s = OwnerIdle"
  shows "simulates s (Tau, s \<lparr> bottom_pos := bottom_pos s - 1, owner := PopTop (bottom_pos s - 1) \<rparr>)"
proof (rule simulates_tau)
  show "ws_inv (s \<lparr> bottom_pos := bottom_pos s - 1, owner := PopTop (bottom_pos s - 1) \<rparr>)"
    using assms
    by (intro owner_frame [OF assms(1)])
       (auto simp: logical_bottom_def committed_def ws_inv_def shared_ok_def)
  show "contents (s \<lparr> bottom_pos := bottom_pos s - 1, owner := PopTop (bottom_pos s - 1) \<rparr>) = contents s"
    using assms by (intro contents_cong) (simp_all add: logical_bottom_def)
qed

lemma do_act_simulates:
  assumes "ws_inv s"
  shows "simulates s (do_act a s)"
proof (cases a)
  case (CallPush x)
  then show ?thesis using assms call_push_simulates [of s x] by (auto simp: simulates_def)
next
  case CallPop
  then show ?thesis using assms call_pop_simulates [of s] by (auto simp: simulates_def)
next
  case OwnerStep
  then show ?thesis using owner_step_simulates [OF assms] by simp
next
  case (CallSteal i)
  then show ?thesis using assms set_thief_simulates [of s "StealBottom (top_pos s)" i]
    by (auto simp: simulates_def)
next
  case (ThiefStep i)
  then show ?thesis using thief_step_simulates [OF assms] by simp
qed

lemma run_ws_simulates:
  assumes "ws_inv s"
  shows "ws_inv (snd (run_ws as s)) \<and>
         abs_events (fst (run_ws as s)) (contents s) = Some (contents (snd (run_ws as s)))"
  using assms
proof (induction "as" arbitrary: s)
  case Nil
  then show ?case by simp
next
  case (Cons a as)
  obtain e s1 where e: "do_act a s = (e, s1)" by (rule prod.exhaust)
  have "ws_inv s1" "abs_event e (contents s) = Some (contents s1)"
    using do_act_simulates [OF Cons.prems, of a] by (auto simp: simulates_def e)
  then show ?case using Cons.IH [of s1] by (simp add: e case_prod_beta)
qed

lemma ws_init_inv: "ws_inv (ws_init (2 ^ k) d)"
  by (simp add: ws_init_def chaselev_new_def deque.defs ws_inv_def shared_ok_def logical_bottom_def
      cur_cap_def deref_def circ_new_wf)

lemma ws_init_contents: "contents (ws_init cap d) = []"
  by (simp add: ws_init_def chaselev_new_def deque.defs contents_def logical_bottom_def)

section \<open>Results\<close>

text \<open>
  C7. The work-stealing deque is linearizable. Start from a deque whose capacity is a power of two
  and let the owner's pushes and pops and the steals of any number of thieves interleave at
  every access, in any order and for any number of steps, including while the circular array
  is being replaced. The successful operations, in the order of their decisive accesses, are
  the operations of one list: a push appends, a pop removes the last element, a steal removes
  the first, and a pop reports failure only when the list is empty. So no element is lost and
  none is handed out twice.
\<close>
theorem chaselev_linearizable:
  "abs_events (fst (run_ws as (ws_init (2 ^ k) d))) [] =
     Some (contents (snd (run_ws as (ws_init (2 ^ k) d))))"
  using run_ws_simulates [OF ws_init_inv, of "as" k d] by (simp add: ws_init_contents)

section \<open>Whole calls\<close>

text \<open>
  A call that no other thread interrupts is the whole call of the first section.
\<close>

definition alone :: "'a deque \<Rightarrow> 'a ws" where
  "alone q = deque.extend q \<lparr> owner = OwnerIdle, thieves = (\<lambda>_. ThiefIdle) \<rparr>"

lemma alone_fields [simp]:
  "top_pos (alone q) = top_pos q" "bottom_pos (alone q) = bottom_pos q"
  "arrays (alone q) = arrays q" "array_ptr (alone q) = array_ptr q"
  "garbage (alone q) = garbage q" "dflt_item (alone q) = dflt_item q"
  "owner (alone q) = OwnerIdle" "thieves (alone q) = (\<lambda>_. ThiefIdle)" "deref (alone q) p = deref q p"
  by (simp_all add: alone_def deque.defs deref_def)

lemma push_bottom_uninterrupted:
  "snd (run_ws [CallPush x, OwnerStep, OwnerStep, OwnerStep, OwnerStep] (alone q)) =
     alone (push_bottom x q)"
  by (simp add: owner_step_def push_bottom_def Let_def alone_def deque.defs ensure_room_def
      store_item_def deref_def)

lemma pop_bottom_uninterrupted:
  "snd (run_ws [CallPop, OwnerStep, OwnerStep, OwnerStep, OwnerStep] (alone q)) =
     alone (snd (pop_bottom q))"
  "fst (run_ws [CallPop, OwnerStep, OwnerStep, OwnerStep, OwnerStep] (alone q)) =
     (case fst (pop_bottom q) of
        None \<Rightarrow> [Tau, Tau, Tau, PopFailed, Tau]
      | Some x \<Rightarrow> if bottom_pos q - 1 = top_pos q then [Tau, Tau, Tau, Popped x, Tau]
                  else [Tau, Tau, Popped x, Tau, Tau])"
  by (auto simp: owner_step_def pop_bottom_def Let_def alone_def deque.defs deref_def)

lemma steal_top_uninterrupted:
  "snd (run_ws [CallSteal i, ThiefStep i, ThiefStep i, ThiefStep i, ThiefStep i] (alone q)) =
     alone (snd (steal_top q))"
  "fst (run_ws [CallSteal i, ThiefStep i, ThiefStep i, ThiefStep i, ThiefStep i] (alone q)) =
     (case fst (steal_top q) of
        None \<Rightarrow> [Tau, Tau, Tau, Tau, Tau] | Some x \<Rightarrow> [Tau, Tau, Tau, Tau, Stolen i x])"
  by (auto simp: thief_step_def steal_top_def set_thief_def Let_def alone_def deque.defs deref_def)

definition deque_inv :: "'a deque \<Rightarrow> bool" where
  "deque_inv q \<longleftrightarrow> ws_inv (alone q)"

definition deque_items :: "'a deque \<Rightarrow> 'a list" where
  "deque_items q = contents (alone q)"

lemma chaselev_new_spec: "deque_inv (chaselev_new (2 ^ k) d)" "deque_items (chaselev_new cap d) = []"
  using ws_init_inv [of k d] ws_init_contents [of cap d]
  by (simp_all add: deque_inv_def deque_items_def alone_def ws_init_def)

lemma push_bottom_spec:
  assumes "deque_inv q"
  shows "deque_inv (push_bottom x q)" "deque_items (push_bottom x q) = deque_items q @ [x]"
proof -
  let ?as = "[CallPush x, OwnerStep, OwnerStep, OwnerStep, OwnerStep]"
  have "fst (run_ws ?as (alone q)) = [Tau, Tau, Tau, Tau, Pushed x]"
    by (simp add: owner_step_def)
  then show "deque_inv (push_bottom x q)" "deque_items (push_bottom x q) = deque_items q @ [x]"
    using run_ws_simulates [of "alone q" ?as] assms
    unfolding push_bottom_uninterrupted deque_inv_def deque_items_def by auto
qed

lemma pop_bottom_spec:
  assumes "deque_inv q"
  shows "deque_inv (snd (pop_bottom q))"
    "fst (pop_bottom q) = None \<Longrightarrow> deque_items q = [] \<and> deque_items (snd (pop_bottom q)) = []"
    "fst (pop_bottom q) = Some x \<Longrightarrow> deque_items q = deque_items (snd (pop_bottom q)) @ [x]"
  using run_ws_simulates [of "alone q" "[CallPop, OwnerStep, OwnerStep, OwnerStep, OwnerStep]"] assms
  unfolding pop_bottom_uninterrupted deque_inv_def deque_items_def
  by (auto split: if_splits) (metis append_butlast_last_id)+

lemma steal_top_spec:
  assumes "deque_inv q"
  shows "deque_inv (snd (steal_top q))"
    "fst (steal_top q) = None \<Longrightarrow> deque_items q = [] \<and> deque_items (snd (steal_top q)) = []"
    "fst (steal_top q) = Some x \<Longrightarrow> deque_items q = x # deque_items (snd (steal_top q))"
proof -
  let ?as = "[CallSteal 0, ThiefStep 0, ThiefStep 0, ThiefStep 0, ThiefStep 0]"
  note run = run_ws_simulates [of "alone q" ?as, unfolded steal_top_uninterrupted]
  show "deque_inv (snd (steal_top q))" using run assms by (simp add: deque_inv_def)
  show "fst (steal_top q) = None \<Longrightarrow> deque_items q = [] \<and> deque_items (snd (steal_top q)) = []"
    by (auto simp: steal_top_def deque_items_def contents_def logical_bottom_def Let_def
        split: if_splits)
  show "fst (steal_top q) = Some x \<Longrightarrow> deque_items q = x # deque_items (snd (steal_top q))"
    using run assms by (auto simp: deque_inv_def deque_items_def split: list.splits if_splits)
qed

lemma size_approx_spec: "size_approx q = length (deque_items q)"
  by (simp add: size_approx_def deque_items_def contents_def logical_bottom_def Let_def)

section \<open>One deque per priority\<close>

text \<open>
  \<open>pop\<close> and \<open>steal\<close> of the priority queue, and the loops over the queues of a worker in the
  scheduler, try the levels in order until one yields an item.
\<close>

fun first_level :: "('q \<Rightarrow> 'a option \<times> 'q) \<Rightarrow> 'q list \<Rightarrow> 'a option \<times> 'q list" where
  "first_level take_one [] = (None, [])"
| "first_level take_one (q # qs) =
     (let (r, q') = take_one q
      in case r of
           Some x \<Rightarrow> (Some x, q' # qs)
         | None \<Rightarrow> (let (r', qs') = first_level take_one qs in (r', q' # qs')))"

definition mp_new :: "nat \<Rightarrow> 'a \<Rightarrow> 'a deque list" where
  "mp_new priority_levels d = replicate priority_levels (chaselev_new 256 d)"

definition mp_push :: "u8 \<Rightarrow> 'a \<Rightarrow> 'a deque list \<Rightarrow> 'a deque list option" where
  "mp_push priority x levels =
     (if unat priority < length levels
      then Some (levels[unat priority := push_bottom x (levels ! unat priority)]) else None)"

definition mp_pop :: "'a deque list \<Rightarrow> 'a option \<times> 'a deque list" where
  "mp_pop levels = first_level pop_bottom levels"

definition mp_steal :: "'a deque list \<Rightarrow> 'a option \<times> 'a deque list" where
  "mp_steal levels = first_level steal_top levels"

definition depth_approx :: "'a deque list \<Rightarrow> nat" where
  "depth_approx levels = sum_list (map size_approx levels)"

text \<open>
  What a level promises to such a loop: taking an item fails only when the level is empty, and
  otherwise removes the returned item and no other.
\<close>

locale taking =
  fixes take_one :: "'q \<Rightarrow> 'a option \<times> 'q"
    and items :: "'q \<Rightarrow> 'a list"
    and inv :: "'q \<Rightarrow> bool"
  assumes take_inv: "inv q \<Longrightarrow> inv (snd (take_one q))"
    and take_none: "inv q \<Longrightarrow> fst (take_one q) = None \<Longrightarrow>
                      items q = [] \<and> items (snd (take_one q)) = []"
    and take_some: "inv q \<Longrightarrow> fst (take_one q) = Some x \<Longrightarrow>
                      mset (items q) = add_mset x (mset (items (snd (take_one q))))"
begin

lemma take_items_nonempty:
  assumes "inv q" and "fst (take_one q) = Some x"
  shows "items q \<noteq> []"
proof -
  have "mset (items q) \<noteq> {#}" using take_some [OF assms] by simp
  then show ?thesis by auto
qed

lemma first_level_none:
  assumes "\<forall>q\<in>set qs. inv q" and "fst (first_level take_one qs) = None"
  shows "\<forall>q\<in>set qs. items q = []"
  using assms
proof (induction qs)
  case (Cons q qs)
  then show ?case using take_none [of q]
    by (auto simp: case_prod_beta split: option.splits)
qed simp

lemma first_level_inv:
  assumes "\<forall>q\<in>set qs. inv q"
  shows "\<forall>q\<in>set (snd (first_level take_one qs)). inv q"
  using assms
proof (induction qs)
  case (Cons q qs)
  then show ?case using take_inv [of q]
    by (auto simp: case_prod_beta split: option.splits)
qed simp

lemma first_level_conserves:
  assumes "\<forall>q\<in>set qs. inv q"
  shows "mset (concat (map items qs)) =
    (case fst (first_level take_one qs) of None \<Rightarrow> {#} | Some x \<Rightarrow> {#x#}) +
     mset (concat (map items (snd (first_level take_one qs))))"
  using assms
proof (induction qs)
  case (Cons q qs)
  obtain r q' where r: "take_one q = (r, q')" by (rule prod.exhaust)
  show ?case
  proof (cases r)
    case None
    then show ?thesis using Cons take_none [of q] r by (simp add: case_prod_beta)
  next
    case (Some x)
    then show ?thesis using Cons.prems take_some [of q x] r by simp
  qed
qed simp

lemma first_level_priority:
  assumes "\<forall>q\<in>set qs. inv q" and "fst (first_level take_one qs) = Some x"
  shows "\<exists>p<length qs. (\<forall>j<p. items (qs ! j) = []) \<and> items (qs ! p) \<noteq> [] \<and>
           fst (take_one (qs ! p)) = Some x"
  using assms
proof (induction qs)
  case (Cons q qs)
  show ?case
  proof (cases "fst (take_one q)")
    case None
    then obtain p where "p < length qs" "\<forall>j<p. items (qs ! j) = []" "items (qs ! p) \<noteq> []"
      "fst (take_one (qs ! p)) = Some x"
      using Cons by (auto simp: case_prod_beta)
    then show ?thesis using None take_none [of q] Cons.prems(1)
      by (intro exI [of _ "Suc p"]) (auto simp: less_Suc_eq_0_disj)
  next
    case (Some y)
    then have "y = x" using Cons.prems(2) by (simp add: case_prod_beta)
    then show ?thesis using Some take_items_nonempty [of q y] Cons.prems(1)
      by (intro exI [of _ 0]) auto
  qed
qed simp

end

lemma pop_bottom_mset:
  assumes "deque_inv q" and "fst (pop_bottom q) = Some x"
  shows "mset (deque_items q) = add_mset x (mset (deque_items (snd (pop_bottom q))))"
  unfolding pop_bottom_spec(3) [OF assms] by simp

lemma steal_top_mset:
  assumes "deque_inv q" and "fst (steal_top q) = Some x"
  shows "mset (deque_items q) = add_mset x (mset (deque_items (snd (steal_top q))))"
  unfolding steal_top_spec(3) [OF assms] by simp

interpretation popq: taking pop_bottom deque_items deque_inv
  by unfold_locales (simp_all add: pop_bottom_spec pop_bottom_mset)

interpretation stealq: taking steal_top deque_items deque_inv
  by unfold_locales (simp_all add: steal_top_spec steal_top_mset)

text \<open>
  The priority queue. Popping serves the first level that holds an item, newest item first;
  stealing serves the same level, oldest item first; a level is skipped only when it is empty.
\<close>
theorem mp_pop_serves_first_level:
  assumes "\<forall>q\<in>set levels. deque_inv q" and "fst (mp_pop levels) = Some x"
  shows "\<exists>p<length levels. (\<forall>j<p. deque_items (levels ! j) = []) \<and>
           deque_items (levels ! p) \<noteq> [] \<and> last (deque_items (levels ! p)) = x"
proof -
  obtain p where p: "p < length levels" "\<forall>j<p. deque_items (levels ! j) = []"
    "deque_items (levels ! p) \<noteq> []" "fst (pop_bottom (levels ! p)) = Some x"
    using popq.first_level_priority [OF assms [unfolded mp_pop_def]] by blast
  then show ?thesis using assms(1) pop_bottom_spec(3) [of "levels ! p" x]
    by (intro exI [of _ p]) auto
qed

theorem mp_steal_serves_first_level:
  assumes "\<forall>q\<in>set levels. deque_inv q" and "fst (mp_steal levels) = Some x"
  shows "\<exists>p<length levels. (\<forall>j<p. deque_items (levels ! j) = []) \<and>
           deque_items (levels ! p) \<noteq> [] \<and> hd (deque_items (levels ! p)) = x"
proof -
  obtain p where p: "p < length levels" "\<forall>j<p. deque_items (levels ! j) = []"
    "deque_items (levels ! p) \<noteq> []" "fst (steal_top (levels ! p)) = Some x"
    using stealq.first_level_priority [OF assms [unfolded mp_steal_def]] by blast
  then show ?thesis using assms(1) steal_top_spec(3) [of "levels ! p" x]
    by (intro exI [of _ p]) auto
qed

text \<open>
  The constructor documents that the capacity is rounded up to a power of two, but uses it as
  it is. With capacity three the mask is two, positions 0 and 1 share a slot, and of two items
  pushed the first is lost: the second is popped twice.
\<close>
theorem chaselev_capacity_not_rounded:
  "let q = push_bottom (2 :: nat) (push_bottom 1 (chaselev_new 3 0));
       (a, q1) = pop_bottom q; (b, q2) = pop_bottom q1
   in a = Some 2 \<and> b = Some 2"
  by code_simp

end
