(* ===== verification/Disruptor_Ring.thy ===== *)
theory Disruptor_Ring
  imports HPA_Prelude
begin

text \<open>
  The multi-producer single-consumer ring with per-slot sequence numbers
  (\<open>adt/disruptor_mpsc_ring.hpp\<close>), the queue behind the fixed-slot mailboxes. Sequence numbers
  and cursors are 64-bit words; the capacity is the number of slots.

  \<open>producer_step\<close> and \<open>consumer_step\<close> split \<open>try_publish\<close>, \<open>try_acquire\<close> and the release
  of a lease at their atomic accesses. Any number of producers and the one consumer are
  interleaved by a schedule; \<open>compare_exchange_weak\<close> may also fail spuriously, which the
  schedule decides. Only the statistics are coarser: the retry counter is incremented in the
  step of the failed exchange, and \<open>record_max_depth\<close> is one step after its load of
  \<open>consumer_mirror_\<close>. \<open>claimed\<close> and \<open>consumed\<close> record the values in the order of the claims
  and of the releases; the code has no such fields.
\<close>

unbundle bit_operations_syntax

section \<open>The ring\<close>

datatype ring_publish_code = RPublished | RFull | RClosed

record ring_publish_result =
  pub_code :: ring_publish_code
  pub_sequence :: u64

definition publish_accepted :: "ring_publish_result \<Rightarrow> bool" where
  "publish_accepted r \<longleftrightarrow> pub_code r = RPublished"

record 'a slot =
  slot_seq :: u64
  slot_value :: 'a

record 'a ring =
  slots :: "'a slot list"
  claim_cursor :: u64
  consumer_mirror :: u64
  published_cursor :: u64
  max_depth :: u64
  claim_retries :: u64
  gap_observations :: u64
  ring_closed :: bool

definition ring_capacity :: "('a, 'b) ring_scheme \<Rightarrow> nat" where
  "ring_capacity r = length (slots r)"

definition ring_new :: "nat \<Rightarrow> 'a \<Rightarrow> 'a ring" where
  "ring_new Capacity d =
     \<lparr> slots = map (\<lambda>i. \<lparr> slot_seq = of_nat i, slot_value = d \<rparr>) [0..<Capacity],
       claim_cursor = 0, consumer_mirror = 0, published_cursor = 0, max_depth = 0,
       claim_retries = 0, gap_observations = 0, ring_closed = False \<rparr>"

definition disruptor_slot :: "('a, 'b) ring_scheme \<Rightarrow> u64 \<Rightarrow> nat" where
  "disruptor_slot r sequence = unat (sequence AND (of_nat (ring_capacity r) - 1))"

definition get_slot :: "('a, 'b) ring_scheme \<Rightarrow> u64 \<Rightarrow> 'a slot" where
  "get_slot r sequence = slots r ! disruptor_slot r sequence"

definition set_slot ::
    "u64 \<Rightarrow> ('a slot \<Rightarrow> 'a slot) \<Rightarrow> ('a, 'b) ring_scheme \<Rightarrow> ('a, 'b) ring_scheme" where
  "set_slot sequence f r =
     r \<lparr> slots := (slots r)[disruptor_slot r sequence := f (get_slot r sequence)] \<rparr>"

definition release_slot :: "u64 \<Rightarrow> ('a, 'b) ring_scheme \<Rightarrow> ('a, 'b) ring_scheme" where
  "release_slot sequence r =
     set_slot sequence (\<lambda>sl. sl \<lparr> slot_seq := sequence + of_nat (ring_capacity r) \<rparr>) r"

definition record_max_depth :: "u64 \<Rightarrow> ('a, 'b) ring_scheme \<Rightarrow> ('a, 'b) ring_scheme" where
  "record_max_depth published r =
     (let depth = published - consumer_mirror r
      in if depth > max_depth r then r \<lparr> max_depth := depth \<rparr> else r)"

definition close_ring :: "('a, 'b) ring_scheme \<Rightarrow> ('a, 'b) ring_scheme" where
  "close_ring r = r \<lparr> ring_closed := True \<rparr>"

definition ring_empty :: "('a, 'b) ring_scheme \<Rightarrow> bool" where
  "ring_empty r \<longleftrightarrow> consumer_mirror r = published_cursor r"

definition published_depth :: "('a, 'b) ring_scheme \<Rightarrow> u64" where
  "published_depth r = published_cursor r - consumer_mirror r"

text \<open>
  \<open>try_acquire\<close> as one call: the sequence of the lease, if there is one.
\<close>

definition try_acquire_lease :: "('a, 'b) ring_scheme \<Rightarrow> u64 option \<times> ('a, 'b) ring_scheme" where
  "try_acquire_lease r =
     (let c = consumer_mirror r
      in if slot_seq (get_slot r c) \<noteq> c + 1
         then (None, if published_cursor r > c + 1
                     then r \<lparr> gap_observations := gap_observations r + 1 \<rparr> else r)
         else (Some c, r \<lparr> consumer_mirror := c + 1 \<rparr>))"

section \<open>Producers and the consumer, one access at a time\<close>

datatype 'a producer_pc =
    ProducerIdle
  | LoadCursor 'a
  | CheckSlot 'a u64
  | ClaimSlot 'a u64
  | WriteValue 'a u64
  | PublishSlot 'a u64
  | PublishCursor u64
  | RecordDepth u64

datatype consumer_pc =
    ConsumerIdle
  | CheckReady u64
  | CheckGap u64
  | AdvanceMirror u64
  | Leased u64

record 'a ring_sys = "'a ring" +
  producers :: "nat \<Rightarrow> 'a producer_pc"
  consumer :: consumer_pc
  claimed :: "'a list"
  consumed :: "'a list"
  outcomes :: "(nat \<times> ring_publish_result) list"

definition set_producer :: "nat \<Rightarrow> 'a producer_pc \<Rightarrow> 'a ring_sys \<Rightarrow> 'a ring_sys" where
  "set_producer i pc s = s \<lparr> producers := (producers s)(i := pc) \<rparr>"

definition return_publish ::
    "nat \<Rightarrow> ring_publish_code \<Rightarrow> u64 \<Rightarrow> 'a ring_sys \<Rightarrow> 'a ring_sys" where
  "return_publish i code q s =
     set_producer i ProducerIdle
       (s \<lparr> outcomes := outcomes s @ [(i, \<lparr> pub_code = code, pub_sequence = q \<rparr>)] \<rparr>)"

definition begin_publish :: "nat \<Rightarrow> 'a \<Rightarrow> 'a ring_sys \<Rightarrow> 'a ring_sys" where
  "begin_publish i v s =
     (if ring_closed s then return_publish i RClosed 0 s else set_producer i (LoadCursor v) s)"

definition producer_step :: "nat \<Rightarrow> bool \<Rightarrow> 'a ring_sys \<Rightarrow> 'a ring_sys" where
  "producer_step i spurious s = (case producers s i of
     ProducerIdle \<Rightarrow> s
   | LoadCursor v \<Rightarrow> set_producer i (CheckSlot v (claim_cursor s)) s
   | CheckSlot v q \<Rightarrow>
       (if slot_seq (get_slot s q) \<noteq> q then return_publish i RFull q s
        else set_producer i (ClaimSlot v q) s)
   | ClaimSlot v q \<Rightarrow>
       (if claim_cursor s = q \<and> \<not> spurious
        then set_producer i (WriteValue v q)
               (s \<lparr> claim_cursor := q + 1, claimed := claimed s @ [v] \<rparr>)
        else set_producer i (CheckSlot v (claim_cursor s))
               (s \<lparr> claim_retries := claim_retries s + 1 \<rparr>))
   | WriteValue v q \<Rightarrow>
       set_producer i (PublishSlot v q) (set_slot q (\<lambda>sl. sl \<lparr> slot_value := v \<rparr>) s)
   | PublishSlot v q \<Rightarrow>
       set_producer i (PublishCursor q) (set_slot q (\<lambda>sl. sl \<lparr> slot_seq := q + 1 \<rparr>) s)
   | PublishCursor q \<Rightarrow> set_producer i (RecordDepth q) (s \<lparr> published_cursor := q + 1 \<rparr>)
   | RecordDepth q \<Rightarrow> return_publish i RPublished q (record_max_depth (q + 1) s))"

definition consumer_step :: "'a ring_sys \<Rightarrow> 'a ring_sys" where
  "consumer_step s = (case consumer s of
     ConsumerIdle \<Rightarrow> s \<lparr> consumer := CheckReady (consumer_mirror s) \<rparr>
   | CheckReady c \<Rightarrow>
       s \<lparr> consumer := (if slot_seq (get_slot s c) \<noteq> c + 1 then CheckGap c else AdvanceMirror c) \<rparr>
   | CheckGap c \<Rightarrow>
       (if published_cursor s > c + 1 then s \<lparr> gap_observations := gap_observations s + 1 \<rparr> else s)
         \<lparr> consumer := ConsumerIdle \<rparr>
   | AdvanceMirror c \<Rightarrow> s \<lparr> consumer_mirror := c + 1, consumer := Leased c \<rparr>
   | Leased c \<Rightarrow>
       (release_slot c s) \<lparr> consumer := ConsumerIdle,
                            consumed := consumed s @ [slot_value (get_slot s c)] \<rparr>)"

datatype 'a ring_act = CallPublish nat 'a | ProducerStep nat bool | ConsumerStep | CloseRing

fun ring_act_step :: "'a ring_act \<Rightarrow> 'a ring_sys \<Rightarrow> 'a ring_sys" where
  "ring_act_step (CallPublish i v) s =
     (if producers s i = ProducerIdle then begin_publish i v s else s)"
| "ring_act_step (ProducerStep i spurious) s = producer_step i spurious s"
| "ring_act_step ConsumerStep s = consumer_step s"
| "ring_act_step CloseRing s = close_ring s"

definition run_ring :: "'a ring_act list \<Rightarrow> 'a ring_sys \<Rightarrow> 'a ring_sys" where
  "run_ring as s = fold ring_act_step as s"

definition ring_init :: "nat \<Rightarrow> 'a \<Rightarrow> 'a ring_sys" where
  "ring_init Capacity d = ring.extend (ring_new Capacity d)
     \<lparr> producers = (\<lambda>_. ProducerIdle), consumer = ConsumerIdle, claimed = [], consumed = [],
       outcomes = [] \<rparr>"

section \<open>The invariant\<close>

text \<open>
  Sequence numbers as natural numbers. As long as fewer than \<open>2 ^ 64 - Capacity\<close> values have
  been claimed no word wraps, and slot \<open>n mod Capacity\<close> serves exactly one number \<open>n\<close> of the
  window that begins at the number of values consumed.
\<close>

definition seq_at :: "'a ring_sys \<Rightarrow> nat \<Rightarrow> nat" where
  "seq_at s n = unat (slot_seq (slots s ! (n mod ring_capacity s)))"

definition val_at :: "'a ring_sys \<Rightarrow> nat \<Rightarrow> 'a" where
  "val_at s n = slot_value (slots s ! (n mod ring_capacity s))"

fun writes :: "'a producer_pc \<Rightarrow> nat option" where
  "writes (WriteValue v q) = Some (unat q)"
| "writes (PublishSlot v q) = Some (unat q)"
| "writes _ = None"

definition writing :: "'a ring_sys \<Rightarrow> nat \<Rightarrow> bool" where
  "writing s n \<longleftrightarrow> (\<exists>i. writes (producers s i) = Some n)"

definition slot_ok :: "'a ring_sys \<Rightarrow> nat \<Rightarrow> bool" where
  "slot_ok s n \<longleftrightarrow>
     (if length (claimed s) \<le> n \<or> writing s n then seq_at s n = n
      else seq_at s n = Suc n \<and> val_at s n = claimed s ! n)"

fun producer_ok :: "'a producer_pc \<Rightarrow> 'a ring_sys \<Rightarrow> bool" where
  "producer_ok (ClaimSlot v q) s = (unat q < length (consumed s) + ring_capacity s)"
| "producer_ok (WriteValue v q) s =
     (length (consumed s) \<le> unat q \<and> unat q < length (claimed s) \<and> claimed s ! unat q = v)"
| "producer_ok (PublishSlot v q) s =
     (length (consumed s) \<le> unat q \<and> unat q < length (claimed s) \<and> claimed s ! unat q = v \<and>
      val_at s (unat q) = v)"
| "producer_ok _ s = True"

fun consumer_ok :: "consumer_pc \<Rightarrow> 'a ring_sys \<Rightarrow> bool" where
  "consumer_ok ConsumerIdle s = (unat (consumer_mirror s) = length (consumed s))"
| "consumer_ok (CheckReady c) s = (unat c = length (consumed s) \<and> consumer_mirror s = c)"
| "consumer_ok (CheckGap c) s = (unat c = length (consumed s) \<and> consumer_mirror s = c)"
| "consumer_ok (AdvanceMirror c) s =
     (unat c = length (consumed s) \<and> consumer_mirror s = c \<and> unat c < length (claimed s) \<and>
      \<not> writing s (unat c))"
| "consumer_ok (Leased c) s =
     (unat c = length (consumed s) \<and> consumer_mirror s = c + 1 \<and> unat c < length (claimed s) \<and>
      \<not> writing s (unat c))"

definition ring_inv :: "'a ring_sys \<Rightarrow> bool" where
  "ring_inv s \<longleftrightarrow>
     (\<exists>k. 1 \<le> k \<and> k \<le> 20 \<and> ring_capacity s = 2 ^ k) \<and>
     unat (claim_cursor s) = length (claimed s) \<and>
     length (claimed s) \<le> length (consumed s) + ring_capacity s \<and>
     length (consumed s) \<le> length (claimed s) \<and>
     take (length (consumed s)) (claimed s) = consumed s \<and>
     consumer_ok (consumer s) s \<and>
     (\<forall>n. length (consumed s) \<le> n \<and> n < length (consumed s) + ring_capacity s \<longrightarrow> slot_ok s n) \<and>
     (\<forall>i. producer_ok (producers s i) s) \<and>
     (\<forall>i j n. writes (producers s i) = Some n \<and> writes (producers s j) = Some n \<longrightarrow> i = j)"

definition no_wrap :: "'a ring_sys \<Rightarrow> bool" where
  "no_wrap s \<longleftrightarrow> length (claimed s) + ring_capacity s < 2 ^ 64"

lemma disruptor_slot_mod:
  assumes "ring_capacity r = 2 ^ k" and "k \<le> 20"
  shows "disruptor_slot r q = unat q mod ring_capacity r"
proof -
  have "(of_nat (2 ^ k) - 1 :: u64) = mask k"
    by (simp add: mask_eq_exp_minus_1)
  then have "disruptor_slot r q = unat (take_bit k q)"
    by (simp add: disruptor_slot_def assms(1) take_bit_eq_mask)
  also have "\<dots> = unat q mod 2 ^ k"
    by (simp only: unsigned_take_bit_eq) (simp add: take_bit_eq_mod)
  finally show ?thesis by (simp add: assms(1))
qed

lemma window_mod_eq:
  fixes m n c a :: nat
  assumes "m mod c = n mod c" and "a \<le> m" "m < a + c" "a \<le> n" "n < a + c"
  shows "m = n"
proof -
  have "c dvd nat \<bar>int m - int n\<bar>"
    using assms(1) by (simp add: nat_dvd_iff mod_eq_dvd_iff [symmetric] zmod_int [symmetric])
  then show ?thesis using assms(2-5) dvd_imp_le [of c "nat \<bar>int m - int n\<bar>"] by (cases "m = n") auto
qed

lemma window_exists:
  fixes n c a :: nat
  assumes "0 < c"
  shows "\<exists>m. a \<le> m \<and> m < a + c \<and> m mod c = n mod c"
proof -
  define d where "d = (int n - int a) mod int c"
  have d: "0 \<le> d" "d < int c" using assms by (simp_all add: d_def)
  have "int ((a + nat d) mod c) = int (n mod c)"
    using d(1) by (simp add: zmod_int d_def mod_simps)
  then show ?thesis using d by (intro exI [of _ "a + nat d"]) auto
qed

lemma set_slot_fields [simp]:
  "claim_cursor (set_slot q f r) = claim_cursor r"
  "consumer_mirror (set_slot q f r) = consumer_mirror r"
  "ring_capacity (set_slot q f r) = ring_capacity r"
  "producers (set_slot q f (s :: 'a ring_sys)) = producers s"
  "consumer (set_slot q f s) = consumer s" "claimed (set_slot q f s) = claimed s"
  "consumed (set_slot q f s) = consumed s"
  by (simp_all add: set_slot_def ring_capacity_def)

lemma set_producer_fields [simp]:
  "claim_cursor (set_producer i pc s) = claim_cursor s"
  "consumer_mirror (set_producer i pc s) = consumer_mirror s"
  "ring_capacity (set_producer i pc s) = ring_capacity s" "slots (set_producer i pc s) = slots s"
  "producers (set_producer i pc s) = (producers s)(i := pc)"
  "consumer (set_producer i pc s) = consumer s" "claimed (set_producer i pc s) = claimed s"
  "consumed (set_producer i pc s) = consumed s"
  by (simp_all add: set_producer_def ring_capacity_def)

lemma ring_capacity_update [simp]:
  "ring_capacity (s \<lparr> claim_cursor := a \<rparr>) = ring_capacity s"
  "ring_capacity (s \<lparr> consumer_mirror := a \<rparr>) = ring_capacity s"
  "ring_capacity (s \<lparr> published_cursor := a \<rparr>) = ring_capacity s"
  "ring_capacity (s \<lparr> max_depth := a \<rparr>) = ring_capacity s"
  "ring_capacity (s \<lparr> claim_retries := a \<rparr>) = ring_capacity s"
  "ring_capacity (s \<lparr> gap_observations := a \<rparr>) = ring_capacity s"
  "ring_capacity (s \<lparr> ring_closed := e \<rparr>) = ring_capacity s"
  "ring_capacity (t \<lparr> consumer := f \<rparr>) = ring_capacity t"
  "ring_capacity (t \<lparr> claimed := g \<rparr>) = ring_capacity t"
  "ring_capacity (t \<lparr> consumed := g \<rparr>) = ring_capacity t"
  "ring_capacity (t \<lparr> outcomes := h \<rparr>) = ring_capacity t"
  by (simp_all add: ring_capacity_def)

text \<open>
  A step that touches neither the slots nor the claims: the invariant depends on the
  producers' writes and the consumer only.
\<close>

lemma ring_inv_frame:
  assumes inv: "ring_inv s"
    and eq: "slots s' = slots s" "claim_cursor s' = claim_cursor s" "claimed s' = claimed s"
      "consumed s' = consumed s"
    and w: "\<And>i. writes (producers s' i) = writes (producers s i)"
    and p: "\<And>i. producer_ok (producers s' i) s"
    and c: "consumer_ok (consumer s') s'"
  shows "ring_inv s'"
proof -
  have cap: "ring_capacity s' = ring_capacity s" by (simp add: ring_capacity_def eq)
  have wr: "writing s' n = writing s n" for n by (simp add: writing_def w)
  have va: "val_at s' n = val_at s n" for n by (simp add: val_at_def cap eq)
  have so: "slot_ok s' n = slot_ok s n" for n
    by (simp add: slot_ok_def seq_at_def va wr cap eq)
  have "producer_ok (producers s' i) s'" for i
    using p [of i] by (cases "producers s' i") (simp_all add: eq cap va)
  then show ?thesis
    using inv c by (simp add: ring_inv_def cap eq so w)
qed

lemma ring_inv_slot: "ring_inv s \<Longrightarrow> disruptor_slot s q = unat q mod ring_capacity s"
  using disruptor_slot_mod by (auto simp: ring_inv_def)

lemma ring_inv_cap:
  assumes "ring_inv s"
  shows "2 \<le> ring_capacity s"
proof -
  obtain k where "1 \<le> k" "ring_capacity s = 2 ^ k" using assms by (auto simp: ring_inv_def)
  then show ?thesis using power_increasing [of 1 k "2 :: nat"] by simp
qed

lemma seq_at_get: "ring_inv s \<Longrightarrow> unat (slot_seq (get_slot s q)) = seq_at s (unat q)"
  by (simp add: get_slot_def seq_at_def ring_inv_slot)

lemma val_at_get: "ring_inv s \<Longrightarrow> slot_value (get_slot s q) = val_at s (unat q)"
  by (simp add: get_slot_def val_at_def ring_inv_slot)

lemma set_slot_at:
  assumes "ring_inv s"
  shows "seq_at (set_slot q f s) n =
           (if n mod ring_capacity s = unat q mod ring_capacity s
            then unat (slot_seq (f (slots s ! (n mod ring_capacity s)))) else seq_at s n)"
    and "val_at (set_slot q f s) n =
           (if n mod ring_capacity s = unat q mod ring_capacity s
            then slot_value (f (slots s ! (n mod ring_capacity s))) else val_at s n)"
proof -
  have "n mod ring_capacity s < length (slots s)"
    using ring_inv_cap [OF assms] unfolding ring_capacity_def by (intro mod_less_divisor) linarith
  moreover have "slots (set_slot q f s) =
      (slots s)[unat q mod ring_capacity s := f (slots s ! (unat q mod ring_capacity s))]"
    by (simp add: set_slot_def get_slot_def ring_inv_slot [OF assms])
  ultimately show "seq_at (set_slot q f s) n =
           (if n mod ring_capacity s = unat q mod ring_capacity s
            then unat (slot_seq (f (slots s ! (n mod ring_capacity s)))) else seq_at s n)"
    "val_at (set_slot q f s) n =
           (if n mod ring_capacity s = unat q mod ring_capacity s
            then slot_value (f (slots s ! (n mod ring_capacity s))) else val_at s n)"
    by (simp_all add: seq_at_def val_at_def)
qed

lemma free_slot_in_window:
  assumes inv: "ring_inv s" and free: "slot_seq (get_slot s q) = q"
  shows "unat q < length (consumed s) + ring_capacity s"
proof -
  obtain m where m: "length (consumed s) \<le> m" "m < length (consumed s) + ring_capacity s"
    "m mod ring_capacity s = unat q mod ring_capacity s"
    using window_exists [of "ring_capacity s" "length (consumed s)" "unat q"] ring_inv_cap [OF inv]
    by auto
  have "slot_ok s m" using inv m by (simp add: ring_inv_def)
  moreover have "seq_at s m = unat q"
    using seq_at_get [OF inv, of q] free m(3) by (simp add: seq_at_def)
  ultimately have "unat q = m \<or> unat q = Suc m" by (auto simp: slot_ok_def split: if_splits)
  moreover have "unat q \<noteq> Suc m"
  proof
    assume "unat q = Suc m"
    then show False
      using m(3) ring_inv_cap [OF inv] window_mod_eq [of m "ring_capacity s" "Suc m" m] by auto
  qed
  ultimately show ?thesis using m(2) by simp
qed

lemma ring_invI:
  assumes "\<exists>k. 1 \<le> k \<and> k \<le> 20 \<and> ring_capacity s = 2 ^ k"
    and "unat (claim_cursor s) = length (claimed s)"
    and "length (claimed s) \<le> length (consumed s) + ring_capacity s"
    and "length (consumed s) \<le> length (claimed s)"
    and "take (length (consumed s)) (claimed s) = consumed s"
    and "consumer_ok (consumer s) s"
    and "\<And>n. length (consumed s) \<le> n \<Longrightarrow> n < length (consumed s) + ring_capacity s \<Longrightarrow> slot_ok s n"
    and "\<And>i. producer_ok (producers s i) s"
    and "\<And>i j n. writes (producers s i) = Some n \<Longrightarrow> writes (producers s j) = Some n \<Longrightarrow> i = j"
  shows "ring_inv s"
  unfolding ring_inv_def using assms by blast

lemma ring_inv_counts:
  assumes "ring_inv s"
  shows "\<exists>k. 1 \<le> k \<and> k \<le> 20 \<and> ring_capacity s = 2 ^ k"
    "unat (claim_cursor s) = length (claimed s)"
    "length (claimed s) \<le> length (consumed s) + ring_capacity s"
    "length (consumed s) \<le> length (claimed s)"
    "take (length (consumed s)) (claimed s) = consumed s"
  using assms unfolding ring_inv_def by blast+

lemma ring_inv_producer: "ring_inv s \<Longrightarrow> producer_ok (producers s i) s"
  by (simp add: ring_inv_def)

lemma ring_inv_distinct:
  "ring_inv s \<Longrightarrow> writes (producers s i) = Some n \<Longrightarrow> writes (producers s j) = Some n \<Longrightarrow> i = j"
  by (simp add: ring_inv_def)

lemma ring_inv_window:
  "ring_inv s \<Longrightarrow> length (consumed s) \<le> n \<Longrightarrow> n < length (consumed s) + ring_capacity s \<Longrightarrow>
   slot_ok s n"
  by (simp add: ring_inv_def)

lemma ring_inv_consumer: "ring_inv s \<Longrightarrow> consumer_ok (consumer s) s"
  by (simp add: ring_inv_def)

lemma consumer_ok_mono:
  assumes "consumer_ok pc s" and "consumer_mirror s' = consumer_mirror s"
    and "length (consumed s') = length (consumed s)"
    and "length (claimed s) \<le> length (claimed s')"
    and "\<And>n. n < length (claimed s) \<Longrightarrow> writing s' n \<Longrightarrow> writing s n"
  shows "consumer_ok pc s'"
proof (cases pc)
  case (AdvanceMirror c)
  then show ?thesis using assms(1-4) assms(5) [of "unat c"] by auto
next
  case (Leased c)
  then show ?thesis using assms(1-4) assms(5) [of "unat c"] by auto
qed (use assms(1-3) in auto)

lemma producer_local:
  assumes inv: "ring_inv s"
    and eq: "slots s' = slots s" "claim_cursor s' = claim_cursor s" "claimed s' = claimed s"
      "consumed s' = consumed s" "consumer s' = consumer s" "consumer_mirror s' = consumer_mirror s"
    and prod: "producers s' = (producers s)(i := pc)"
    and pc: "writes pc = None" "writes (producers s i) = None" "producer_ok pc s"
  shows "ring_inv s'"
proof (rule ring_inv_frame [OF inv eq(1-4)])
  show w: "writes (producers s' j) = writes (producers s j)" for j
    using pc prod by simp
  show "producer_ok (producers s' j) s" for j
    using pc prod inv by (simp add: ring_inv_def)
  have "writing s' n = writing s n" for n by (simp add: writing_def w)
  then show "consumer_ok (consumer s') s'"
    unfolding eq(5) by (intro consumer_ok_mono [OF ring_inv_consumer [OF inv]]) (simp_all add: eq)
qed

lemma unat_succ: "unat (q :: u64) < 2 ^ 64 - 1 \<Longrightarrow> unat (q + 1) = Suc (unat q)"
  using unat_plus_no_wrap [of q 1] by simp

lemma claim_inv:
  assumes inv: "ring_inv s" and pc: "producers s i = ClaimSlot v q" and won: "claim_cursor s = q"
    and nw: "no_wrap (s \<lparr> claimed := claimed s @ [v] \<rparr>)"
  shows "ring_inv (set_producer i (WriteValue v q)
           (s \<lparr> claim_cursor := q + 1, claimed := claimed s @ [v] \<rparr>))" (is "ring_inv ?s")
proof -
  have q: "unat q = length (claimed s)" using inv won by (simp add: ring_inv_def)
  have "producer_ok (ClaimSlot v q) s" using ring_inv_producer [OF inv, of i] pc by simp
  then have room: "length (claimed s) < length (consumed s) + ring_capacity s" using q by simp
  have succ: "unat (q + 1) = Suc (length (claimed s))"
    using unat_succ [of q] nw q ring_inv_cap [OF inv] by (simp add: no_wrap_def)
  have old: "writes (producers s j) = Some n \<Longrightarrow> n < length (claimed s)" for j n
    using ring_inv_producer [OF inv, of j] by (cases "producers s j") auto
  have wr: "writing ?s n \<longleftrightarrow> writing s n \<or> n = length (claimed s)" for n
  proof -
    have "writing ?s n \<longleftrightarrow> unat q = n \<or> (\<exists>j. j \<noteq> i \<and> writes (producers s j) = Some n)"
      by (auto simp: writing_def)
    also have "(\<exists>j. j \<noteq> i \<and> writes (producers s j) = Some n) = writing s n"
      using pc by (auto simp: writing_def) (metis option.distinct(1) writes.simps(6))
    finally show ?thesis using q by auto
  qed
  have so: "slot_ok ?s n"
    if "length (consumed s) \<le> n" "n < length (consumed s) + ring_capacity s" for n
  proof -
    have "slot_ok s n" using ring_inv_window [OF inv that] .
    then show ?thesis
      by (auto simp: slot_ok_def wr seq_at_def val_at_def nth_append split: if_splits)
  qed
  have co: "consumer_ok (consumer s) ?s"
    by (rule consumer_ok_mono [OF ring_inv_consumer [OF inv]]) (simp_all add: wr)
  have po: "producer_ok (producers ?s j) ?s" for j
  proof (cases "j = i")
    case True
    then show ?thesis using q inv by (simp add: ring_inv_def)
  next
    case False
    show ?thesis using False ring_inv_producer [OF inv, of j]
      by (cases "producers s j") (auto simp: nth_append val_at_def)
  qed
  have dist: "a = b" if "writes (producers ?s a) = Some n" "writes (producers ?s b) = Some n" for a b n
    using that old [of a n] old [of b n] q ring_inv_distinct [OF inv, of a n b]
    by (auto split: if_splits)
  note counts = ring_inv_counts [OF inv]
  show ?thesis
  proof (rule ring_invI)
    show "consumer_ok (consumer ?s) ?s" using co by simp
    show "slot_ok ?s n"
      if "length (consumed ?s) \<le> n" "n < length (consumed ?s) + ring_capacity ?s" for n
      using that by (intro so) simp_all
    show "a = b" if "writes (producers ?s a) = Some n" "writes (producers ?s b) = Some n" for a b n
      by (rule dist [OF that])
    show "producer_ok (producers ?s a) ?s" for a by (rule po)
  qed (use counts room succ in simp_all)
qed

lemma writing_bounds:
  assumes "ring_inv s" and "writes (producers s i) = Some n"
  shows "length (consumed s) \<le> n" "n < length (claimed s)"
    "n < length (consumed s) + ring_capacity s"
proof -
  show b: "length (consumed s) \<le> n" "n < length (claimed s)"
    using ring_inv_producer [OF assms(1), of i] assms(2) by (cases "producers s i"; auto)+
  show "n < length (consumed s) + ring_capacity s"
    using b(2) assms(1) by (simp add: ring_inv_def)
qed

lemma window_other:
  assumes inv: "ring_inv s" and w: "writes (producers s i) = Some m" and "n \<noteq> m"
    and "length (consumed s) \<le> n" "n < length (consumed s) + ring_capacity s"
  shows "n mod ring_capacity s \<noteq> m mod ring_capacity s"
  using window_mod_eq [of n "ring_capacity s" m "length (consumed s)"] writing_bounds [OF inv w] assms(3-5)
  by auto

text \<open>
  A producer's stores go to its own slot: a change of slot \<open>m\<close> that keeps every other slot of
  the window.
\<close>

lemma slot_change_inv:
  assumes inv: "ring_inv s" and w: "writes (producers s i) = Some (unat q)"
    and s': "s' = set_producer i pc (set_slot q f s)"
    and pc: "writes pc = None \<or> writes pc = Some (unat q)"
    and own: "slot_ok s' (unat q)" and pok: "producer_ok pc s'"
  shows "ring_inv s'"
proof -
  have eqs: "claim_cursor s' = claim_cursor s" "claimed s' = claimed s" "consumed s' = consumed s"
    "ring_capacity s' = ring_capacity s" "consumer_mirror s' = consumer_mirror s"
    "consumer s' = consumer s" "producers s' = (producers s)(i := pc)"
    by (simp_all add: s')
  have wr: "writing s' n = writing s n" if "n \<noteq> unat q" for n
  proof -
    have "writes (producers s' j) = Some n \<longleftrightarrow> writes (producers s j) = Some n" for j
      using that w pc by (auto simp: eqs)
    then show ?thesis by (simp add: writing_def)
  qed
  have wr': "writing s' n \<Longrightarrow> writing s n" for n
    using wr [of n] w by (cases "n = unat q") (auto simp: writing_def)
  have so: "slot_ok s' n"
    if n: "length (consumed s) \<le> n" "n < length (consumed s) + ring_capacity s" for n
  proof (cases "n = unat q")
    case True
    then show ?thesis using own by simp
  next
    case False
    have "seq_at s' n = seq_at s n" "val_at s' n = val_at s n"
      using window_other [OF inv w False n] set_slot_at [OF inv, of q f n]
      by (simp_all add: s' seq_at_def val_at_def)
    then show ?thesis using ring_inv_window [OF inv n] wr [OF False] by (simp add: slot_ok_def eqs)
  qed
  have po: "producer_ok (producers s' j) s'" for j
  proof (cases "j = i")
    case True
    then show ?thesis using pok by (simp add: eqs)
  next
    case False
    have val: "val_at s' n = val_at s n" if "writes (producers s j) = Some n" for n
    proof -
      have "n \<noteq> unat q" using ring_inv_distinct [OF inv that] w False by auto
      then show ?thesis
        using window_other [OF inv w _ writing_bounds(1,3) [OF inv that]] set_slot_at(2) [OF inv, of q f n]
        by (simp add: s' val_at_def)
    qed
    show ?thesis using False ring_inv_producer [OF inv, of j] val
      by (cases "producers s j") (auto simp: eqs)
  qed
  have dist: "a = b" if "writes (producers s' a) = Some n" "writes (producers s' b) = Some n" for a b n
  proof (rule ring_inv_distinct [OF inv])
    have "writes (producers s c) = Some n" if "writes (producers s' c) = Some n" for c
      using that pc w by (cases "c = i") (auto simp: eqs)
    then show "writes (producers s a) = Some n" "writes (producers s b) = Some n"
      using that by blast+
  qed
  have co: "consumer_ok (consumer s') s'"
    unfolding eqs(6) by (rule consumer_ok_mono [OF ring_inv_consumer [OF inv]]) (simp_all add: eqs wr')
  note counts = ring_inv_counts [OF inv]
  show ?thesis
  proof (rule ring_invI)
    show "slot_ok s' n"
      if "length (consumed s') \<le> n" "n < length (consumed s') + ring_capacity s'" for n
      using that by (intro so) (simp_all add: eqs)
    show "a = b" if "writes (producers s' a) = Some n" "writes (producers s' b) = Some n" for a b n
      by (rule dist [OF that])
    show "producer_ok (producers s' a) s'" for a by (rule po)
    show "consumer_ok (consumer s') s'" by (rule co)
  qed (use counts in \<open>simp_all add: eqs\<close>)
qed

lemma write_inv:
  assumes inv: "ring_inv s" and pc: "producers s i = WriteValue v q"
  shows "ring_inv (set_producer i (PublishSlot v q) (set_slot q (\<lambda>sl. sl \<lparr> slot_value := v \<rparr>) s))"
    (is "ring_inv ?s")
proof (rule slot_change_inv [OF inv _ refl])
  show "writes (producers s i) = Some (unat q)" using pc by simp
  have at: "seq_at ?s n = seq_at s n" "val_at ?s (unat q) = v" for n
    using set_slot_at [OF inv, of q "\<lambda>sl. sl \<lparr> slot_value := v \<rparr>" n]
      set_slot_at(2) [OF inv, of q "\<lambda>sl. sl \<lparr> slot_value := v \<rparr>" "unat q"]
    by (auto simp: seq_at_def val_at_def)
  have "writing s (unat q)" "writing ?s (unat q)"
    using pc by (auto simp: writing_def intro: exI [of _ i])
  then show "slot_ok ?s (unat q)"
    using ring_inv_window [OF inv writing_bounds(1,3) [OF inv, of i]] pc at(1)
    by (simp add: slot_ok_def)
  show "producer_ok (PublishSlot v q) ?s"
    using ring_inv_producer [OF inv, of i] pc at(2) by simp
qed simp

lemma publish_inv:
  assumes inv: "ring_inv s" and pc: "producers s i = PublishSlot v q" and nw: "no_wrap s"
  shows "ring_inv (set_producer i (PublishCursor q) (set_slot q (\<lambda>sl. sl \<lparr> slot_seq := q + 1 \<rparr>) s))"
    (is "ring_inv ?s")
proof (rule slot_change_inv [OF inv _ refl])
  show w: "writes (producers s i) = Some (unat q)" using pc by simp
  have "unat (q + 1) = Suc (unat q)"
    using writing_bounds(2) [OF inv w] nw ring_inv_cap [OF inv] by (intro unat_succ) (simp add: no_wrap_def)
  then have at: "seq_at ?s (unat q) = Suc (unat q)" "val_at ?s (unat q) = val_at s (unat q)"
    using set_slot_at [OF inv, of q "\<lambda>sl. sl \<lparr> slot_seq := q + 1 \<rparr>" "unat q"]
    by (simp_all add: seq_at_def val_at_def)
  have "\<not> writing ?s (unat q)"
    using ring_inv_distinct [OF inv w] by (auto simp: writing_def)
  then show "slot_ok ?s (unat q)"
    using at ring_inv_producer [OF inv, of i] pc by (simp add: slot_ok_def)
qed simp_all

section \<open>Steps\<close>

lemma depth_fields [simp]:
  "slots (record_max_depth p s) = slots s" "claim_cursor (record_max_depth p s) = claim_cursor s"
  "consumer_mirror (record_max_depth p s) = consumer_mirror s"
  "claimed (record_max_depth p (s :: 'a ring_sys)) = claimed s"
  "consumed (record_max_depth p s) = consumed s" "consumer (record_max_depth p s) = consumer s"
  "producers (record_max_depth p s) = producers s"
  "ring_capacity (record_max_depth p s) = ring_capacity s"
  by (simp_all add: record_max_depth_def Let_def)

lemma return_fields [simp]:
  "slots (return_publish i c q s) = slots s"
  "claim_cursor (return_publish i c q s) = claim_cursor s"
  "consumer_mirror (return_publish i c q s) = consumer_mirror s"
  "claimed (return_publish i c q s) = claimed s" "consumed (return_publish i c q s) = consumed s"
  "consumer (return_publish i c q s) = consumer s"
  "producers (return_publish i c q s) = (producers s)(i := ProducerIdle)"
  "ring_capacity (return_publish i c q s) = ring_capacity s"
  by (simp_all add: return_publish_def)

lemma begin_publish_inv:
  assumes inv: "ring_inv s" and idle: "producers s i = ProducerIdle"
  shows "ring_inv (begin_publish i v s)"
proof (cases "ring_closed s")
  case True
  show ?thesis
    by (rule producer_local [where i = i and pc = ProducerIdle, OF inv])
       (simp_all add: begin_publish_def idle True)
next
  case False
  show ?thesis
    by (rule producer_local [where i = i and pc = "LoadCursor v", OF inv])
       (simp_all add: begin_publish_def idle False)
qed

lemma producer_step_inv:
  assumes inv: "ring_inv s" and nw: "no_wrap (producer_step i sp s)"
  shows "ring_inv (producer_step i sp s)"
proof (cases "producers s i")
  case ProducerIdle
  then show ?thesis using inv by (simp add: producer_step_def)
next
  case (LoadCursor v)
  show ?thesis
    by (rule producer_local [where i = i and pc = "CheckSlot v (claim_cursor s)", OF inv])
       (simp_all add: producer_step_def LoadCursor)
next
  case (CheckSlot v q)
  show ?thesis
  proof (cases "slot_seq (get_slot s q) = q")
    case True
    have "producer_ok (ClaimSlot v q) s" using free_slot_in_window [OF inv True] by simp
    with True show ?thesis
      by - (rule producer_local [where i = i and pc = "ClaimSlot v q", OF inv],
            simp_all add: producer_step_def CheckSlot)
  next
    case False
    show ?thesis
      by (rule producer_local [where i = i and pc = ProducerIdle, OF inv])
         (simp_all add: producer_step_def CheckSlot False)
  qed
next
  case (ClaimSlot v q)
  show ?thesis
  proof (cases "claim_cursor s = q \<and> \<not> sp")
    case True
    have "no_wrap (s \<lparr> claimed := claimed s @ [v] \<rparr>)"
      using nw True by (simp add: producer_step_def ClaimSlot no_wrap_def)
    then show ?thesis
      using claim_inv [OF inv ClaimSlot] True by (simp add: producer_step_def ClaimSlot)
  next
    case False
    then have eq: "producer_step i sp s = set_producer i (CheckSlot v (claim_cursor s))
                 (s \<lparr> claim_retries := claim_retries s + 1 \<rparr>)"
      by (auto simp: producer_step_def ClaimSlot)
    show ?thesis
      by (rule producer_local [where i = i and pc = "CheckSlot v (claim_cursor s)", OF inv])
         (simp_all add: ClaimSlot eq)
  qed
next
  case (WriteValue v q)
  then show ?thesis using write_inv [OF inv WriteValue] by (simp add: producer_step_def)
next
  case (PublishSlot v q)
  then show ?thesis using publish_inv [OF inv PublishSlot] nw
    by (simp add: producer_step_def no_wrap_def)
next
  case (PublishCursor q)
  show ?thesis
    by (rule producer_local [where i = i and pc = "RecordDepth q", OF inv])
       (simp_all add: producer_step_def PublishCursor)
next
  case (RecordDepth q)
  show ?thesis
    by (rule producer_local [where i = i and pc = ProducerIdle, OF inv])
       (simp_all add: producer_step_def RecordDepth)
qed

lemma consumer_local:
  assumes inv: "ring_inv s" and eq: "slots s' = slots s" "claim_cursor s' = claim_cursor s"
      "claimed s' = claimed s" "consumed s' = consumed s" "producers s' = producers s"
    and ok: "consumer_ok (consumer s') s'"
  shows "ring_inv s'"
  by (rule ring_inv_frame [OF inv eq(1-4) _ _ ok]) (simp_all add: eq(5) ring_inv_producer [OF inv])

lemma writing_cong: "producers s' = producers s \<Longrightarrow> writing s' n = writing s n"
  by (simp add: writing_def)

lemma ready_is_published:
  assumes inv: "ring_inv s" and nw: "no_wrap s" and c: "unat c = length (consumed s)"
  shows "slot_seq (get_slot s c) = c + 1 \<longleftrightarrow>
         unat c < length (claimed s) \<and> \<not> writing s (unat c)"
proof -
  have succ: "unat (c + 1) = Suc (unat c)"
    using nw c ring_inv_cap [OF inv] ring_inv_counts(4) [OF inv] by (intro unat_succ) (simp add: no_wrap_def)
  have "slot_seq (get_slot s c) = c + 1 \<longleftrightarrow> seq_at s (unat c) = Suc (unat c)"
    using seq_at_get [OF inv, of c] succ by (metis word_unat_eq_iff)
  also have "\<dots> \<longleftrightarrow> unat c < length (claimed s) \<and> \<not> writing s (unat c)"
    using ring_inv_window [OF inv, of "unat c"] c ring_inv_cap [OF inv]
    by (auto simp: slot_ok_def split: if_splits)
  finally show ?thesis .
qed

lemma release_capacity [simp]: "ring_capacity (release_slot c s) = ring_capacity s"
  by (simp add: release_slot_def)

lemma release_inv:
  assumes inv: "ring_inv s" and nw: "no_wrap s" and pc: "consumer s = Leased c"
  shows "ring_inv ((release_slot c s) \<lparr> consumer := ConsumerIdle,
           consumed := consumed s @ [slot_value (get_slot s c)] \<rparr>)" (is "ring_inv ?s")
proof -
  let ?R = "length (consumed s)" and ?C = "ring_capacity s"
  have c: "unat c = ?R" "consumer_mirror s = c + 1" "?R < length (claimed s)" "\<not> writing s ?R"
    using ring_inv_consumer [OF inv] pc by auto
  note counts = ring_inv_counts [OF inv] and cap = ring_inv_cap [OF inv]
  have mirror: "unat (c + 1) = Suc ?R"
    using nw c cap by (intro trans [OF unat_succ]) (auto simp: no_wrap_def)
  have seq: "unat (c + of_nat ?C) = ?R + ?C"
  proof -
    have "unat (of_nat ?C :: u64) = ?C" using nw by (intro unat_of_nat_less) (simp add: no_wrap_def)
    then show ?thesis using nw c by (simp add: no_wrap_def)
  qed
  have eqs: "claim_cursor ?s = claim_cursor s" "claimed ?s = claimed s" "ring_capacity ?s = ?C"
    "producers ?s = producers s" "consumer_mirror ?s = consumer_mirror s"
    "consumer ?s = ConsumerIdle" "length (consumed ?s) = Suc ?R"
    by (simp_all add: release_slot_def)
  have val: "slot_value (get_slot s c) = claimed s ! ?R"
    using val_at_get [OF inv, of c] ring_inv_window [OF inv, of ?R] c cap
    by (auto simp: slot_ok_def split: if_splits)
  have at: "seq_at ?s n = (if n mod ?C = ?R mod ?C then ?R + ?C else seq_at s n)"
    "n mod ?C \<noteq> ?R mod ?C \<Longrightarrow> val_at ?s n = val_at s n" for n
    using set_slot_at [OF inv, of c "\<lambda>sl. sl \<lparr> slot_seq := c + of_nat ?C \<rparr>" n] seq c(1)
    by (simp_all add: release_slot_def seq_at_def val_at_def)
  have mods: "n mod ?C = ?R mod ?C \<longleftrightarrow> n = ?R + ?C" if "Suc ?R \<le> n" "n < Suc ?R + ?C" for n
    using window_mod_eq [of n ?C "?R + ?C" "Suc ?R"] that cap by auto
  have wr: "writing ?s n = writing s n" for n by (rule writing_cong) (rule eqs)
  show ?thesis
  proof (rule ring_invI)
    show "take (length (consumed ?s)) (claimed ?s) = consumed ?s"
      using counts c val by (simp add: release_slot_def take_Suc_conv_app_nth)
    show "slot_ok ?s n"
      if "length (consumed ?s) \<le> n" "n < length (consumed ?s) + ring_capacity ?s" for n
    proof (cases "n = ?R + ?C")
      case True
      then show ?thesis using at(1) [of n] counts(3) by (simp add: slot_ok_def eqs)
    next
      case False
      then have "n mod ?C \<noteq> ?R mod ?C" using mods [of n] that by (simp add: eqs)
      moreover have "slot_ok s n"
        using that False by (intro ring_inv_window [OF inv]) (simp_all add: eqs)
      ultimately show ?thesis using at [of n] by (simp add: slot_ok_def wr eqs)
    qed
    show "producer_ok (producers ?s i) ?s" for i
    proof -
      have val: "val_at ?s n = val_at s n" "n \<noteq> ?R" if "writes (producers s i) = Some n" for n
      proof -
        show ne: "n \<noteq> ?R" using c(4) that by (auto simp: writing_def)
        have "n mod ?C \<noteq> ?R mod ?C"
          using window_mod_eq [of n ?C ?R ?R] writing_bounds [OF inv that] ne cap by auto
        then show "val_at ?s n = val_at s n" by (rule at(2))
      qed
      show ?thesis
        using ring_inv_producer [OF inv, of i] val unfolding eqs
        by (cases "producers s i") (auto simp: eqs)
    qed
    show "i = j" if "writes (producers ?s i) = Some n" "writes (producers ?s j) = Some n" for i j n
      using that unfolding eqs by (rule ring_inv_distinct [OF inv])
    show "consumer_ok (consumer ?s) ?s" using mirror c(2) by (simp add: eqs)
  qed (use counts c in \<open>simp_all add: eqs\<close>)
qed

lemma consumer_step_inv:
  assumes inv: "ring_inv s" and nw: "no_wrap s"
  shows "ring_inv (consumer_step s)"
proof (cases "consumer s")
  case (Leased c)
  then show ?thesis using release_inv [OF inv nw Leased] by (simp add: consumer_step_def)
next
  case (CheckReady c)
  have c: "unat c = length (consumed s)" "consumer_mirror s = c"
    using ring_inv_consumer [OF inv] CheckReady by auto
  show ?thesis
    by (rule consumer_local [OF inv])
       (use c ready_is_published [OF inv nw c(1)] in \<open>auto simp: consumer_step_def CheckReady writing_def\<close>)
next
  case (AdvanceMirror c)
  then show ?thesis
    using ring_inv_consumer [OF inv]
    by - (rule consumer_local [OF inv], auto simp: consumer_step_def writing_def)
next
  case ConsumerIdle
  then show ?thesis
    using ring_inv_consumer [OF inv]
    by - (rule consumer_local [OF inv], auto simp: consumer_step_def)
next
  case (CheckGap c)
  then show ?thesis
    using ring_inv_consumer [OF inv]
    by - (rule consumer_local [OF inv], auto simp: consumer_step_def)
qed

lemma act_grows:
  "length (claimed s) \<le> length (claimed (ring_act_step a s)) \<and>
   ring_capacity (ring_act_step a s) = ring_capacity s"
proof (cases a)
  case (ProducerStep i sp)
  then show ?thesis by (cases "producers s i") (simp_all add: producer_step_def)
next
  case ConsumerStep
  then show ?thesis by (cases "consumer s") (simp_all add: consumer_step_def release_slot_def)
qed (simp_all add: begin_publish_def close_ring_def)

lemma run_grows:
  "length (claimed s) \<le> length (claimed (run_ring as s)) \<and>
   ring_capacity (run_ring as s) = ring_capacity s"
  unfolding run_ring_def
proof (induction "as" arbitrary: s)
  case (Cons a as)
  show ?case using Cons.IH [of "ring_act_step a s"] act_grows [of s a] by simp
qed simp

lemma act_inv:
  assumes inv: "ring_inv s" and nw: "no_wrap (ring_act_step a s)"
  shows "ring_inv (ring_act_step a s)"
proof -
  have nw0: "no_wrap s" using nw act_grows [of s a] by (simp add: no_wrap_def)
  show ?thesis
  proof (cases a)
    case CloseRing
    have "consumer_ok (consumer s) (close_ring s)"
      by (rule consumer_ok_mono [OF ring_inv_consumer [OF inv]])
         (simp_all add: close_ring_def writing_def)
    then show ?thesis using CloseRing
      by - (rule consumer_local [OF inv], simp_all add: close_ring_def)
  qed (use inv nw nw0 in \<open>auto simp: begin_publish_inv producer_step_inv consumer_step_inv\<close>)
qed

lemma run_ring_inv:
  assumes "ring_inv s" and "no_wrap (run_ring as s)"
  shows "ring_inv (run_ring as s)"
  using assms
proof (induction "as" arbitrary: s)
  case (Cons a as)
  have eq: "run_ring (a # as) s = run_ring as (ring_act_step a s)" by (simp add: run_ring_def)
  have "no_wrap (ring_act_step a s)"
    using Cons.prems(2) run_grows [of "ring_act_step a s" "as"] unfolding eq by (simp add: no_wrap_def)
  then show ?case using Cons.IH act_inv [OF Cons.prems(1)] Cons.prems(2) unfolding eq by blast
qed (simp add: run_ring_def)

lemma ring_init_inv:
  assumes "1 \<le> k" and "k \<le> 20"
  shows "ring_inv (ring_init (2 ^ k) d)"
proof (rule ring_invI)
  let ?s = "ring_init (2 ^ k) d"
  have cap: "ring_capacity ?s = 2 ^ k"
    by (simp add: ring_capacity_def ring_init_def ring_new_def ring.defs)
  then show "\<exists>k. 1 \<le> k \<and> k \<le> 20 \<and> ring_capacity ?s = 2 ^ k" using assms by auto
  show "slot_ok ?s n" if "length (consumed ?s) \<le> n" "n < length (consumed ?s) + ring_capacity ?s" for n
  proof -
    have n: "n < 2 ^ k" using that(2) cap by (simp add: ring_init_def ring.defs)
    have "(2 :: nat) ^ k \<le> 2 ^ 20" using assms(2) by (intro power_increasing) simp_all
    then have "unat (of_nat n :: u64) = n" using n by (intro unat_of_nat_less) simp
    then have "seq_at ?s n = n"
      using n unfolding seq_at_def cap by (simp add: ring_init_def ring_new_def ring.defs)
    then show ?thesis by (simp add: slot_ok_def ring_init_def ring.defs)
  qed
qed (simp_all add: ring_init_def ring_new_def ring.defs)

section \<open>Results\<close>

text \<open>
  C8. The ring is a bounded FIFO queue for any number of producers and one consumer, under
  every interleaving of their atomic accesses, spurious failures of the weak exchange
  included. The values are consumed in the order in which the producers claimed their slots,
  each once and unchanged; at most \<open>Capacity\<close> claimed values are not yet consumed; and when no
  producer is between its claim and its publication and the consumer is idle, the consumer's
  next \<open>try_acquire\<close> yields a lease exactly when a claimed value is left, for that value. The
  bound on the number of claims excludes wrap-around of the 64-bit cursors.
\<close>
theorem disruptor_fifo:
  assumes "1 \<le> k" and "k \<le> 20"
    and "s = run_ring as (ring_init (2 ^ k) d)"
    and "length (claimed s) + 2 ^ k < 2 ^ 64"
  shows "consumed s = take (length (consumed s)) (claimed s) \<and>
         length (claimed s) \<le> length (consumed s) + 2 ^ k \<and>
         ((\<forall>i. writes (producers s i) = None) \<and> consumer s = ConsumerIdle \<longrightarrow>
          (case fst (try_acquire_lease s) of
             None \<Rightarrow> consumed s = claimed s
           | Some c \<Rightarrow> length (consumed s) < length (claimed s) \<and>
                       slot_value (get_slot s c) = claimed s ! length (consumed s)))"
proof -
  have cap: "ring_capacity s = 2 ^ k"
    using run_grows [of "ring_init (2 ^ k) d" "as"] assms(3)
    by (simp add: ring_capacity_def ring_init_def ring_new_def ring.defs)
  then have nw: "no_wrap s" using assms(4) by (simp add: no_wrap_def)
  have inv: "ring_inv s"
    unfolding assms(3) by (rule run_ring_inv [OF ring_init_inv [OF assms(1,2)]])
      (rule nw [unfolded assms(3)])
  note counts = ring_inv_counts [OF inv]
  have drained: "case fst (try_acquire_lease s) of
            None \<Rightarrow> consumed s = claimed s
          | Some c \<Rightarrow> length (consumed s) < length (claimed s) \<and>
                      slot_value (get_slot s c) = claimed s ! length (consumed s)"
    if idle: "\<forall>i. writes (producers s i) = None" and c0: "consumer s = ConsumerIdle"
  proof -
    let ?c = "consumer_mirror s"
    have c: "unat ?c = length (consumed s)" using ring_inv_consumer [OF inv] c0 by simp
    have nowr: "\<not> writing s n" for n using idle by (simp add: writing_def)
    have ready: "slot_seq (get_slot s ?c) = ?c + 1 \<longleftrightarrow> length (consumed s) < length (claimed s)"
      using ready_is_published [OF inv nw c] nowr c by simp
    show ?thesis
    proof (cases "length (consumed s) < length (claimed s)")
      case True
      have "slot_ok s (length (consumed s))"
        by (rule ring_inv_window [OF inv]) (use ring_inv_cap [OF inv] in auto)
      then have "slot_value (get_slot s ?c) = claimed s ! length (consumed s)"
        using True nowr c val_at_get [OF inv, of ?c] by (simp add: slot_ok_def)
      then show ?thesis using True ready by (simp add: try_acquire_lease_def Let_def)
    next
      case False
      then have "consumed s = claimed s" using counts(5) by (metis take_all not_less)
      moreover have "slot_seq (get_slot s ?c) \<noteq> ?c + 1" using False ready by blast
      ultimately show ?thesis by (simp add: try_acquire_lease_def Let_def)
    qed
  qed
  have "consumed s = take (length (consumed s)) (claimed s)" by (rule counts(5) [symmetric])
  moreover have "length (claimed s) \<le> length (consumed s) + 2 ^ k" using counts(3) unfolding cap .
  ultimately show ?thesis using drained by blast
qed

definition publish_acts :: "nat \<Rightarrow> 'a \<Rightarrow> 'a ring_act list" where
  "publish_acts i v = CallPublish i v # replicate 7 (ProducerStep i False)"

theorem disruptor_fifo_witness:
  "let s = run_ring (publish_acts 0 (7 :: nat) @ publish_acts 1 8 @ replicate 4 ConsumerStep)
             (ring_init (2 ^ 1) 0)
   in consumed s = [7] \<and> claimed s = [7, 8] \<and>
      consumed s = take (length (consumed s)) (claimed s) \<and>
      length (claimed s) \<le> length (consumed s) + 2 ^ 1"
proof -
  define s where "s = run_ring (publish_acts 0 (7 :: nat) @ publish_acts 1 8 @ replicate 4 ConsumerStep)
             (ring_init (2 ^ 1) 0)"
  have "consumed s = [7]" "claimed s = [7, 8]"
    unfolding s_def by code_simp+
  then show ?thesis
    using disruptor_fifo [of 1 s _ 0, OF _ _ s_def] unfolding s_def [symmetric] Let_def by simp
qed

text \<open>
  C2. \<open>try_publish\<close> reports a full ring that is not full. A producer that has loaded the claim
  cursor and is overtaken by another finds the slot's sequence advanced and returns \<open>Full\<close>
  instead of reloading the cursor: here the ring has two slots and holds one value.
\<close>
theorem disruptor_spurious_full:
  "let s = run_ring ([CallPublish 0 (7 :: nat), ProducerStep 0 False] @ publish_acts 1 8 @
                     [ProducerStep 0 False]) (ring_init 2 0)
   in outcomes s = [(1, \<lparr> pub_code = RPublished, pub_sequence = 0 \<rparr>),
                    (0, \<lparr> pub_code = RFull, pub_sequence = 0 \<rparr>)] \<and>
      length (claimed s) = 1 \<and> consumed s = []"
  by code_simp

text \<open>
  C3. \<open>published_cursor_\<close> goes backwards when producers finish out of order, and \<open>empty()\<close>
  then stays wrong although no thread is inside a call. Two producers publish; the first to claim
  stores the cursor last. After one value has been consumed, \<open>empty()\<close> answers true while
  the second value is ready. If instead both have been consumed before the late store,
  \<open>empty()\<close> answers false, the depth of the snapshot is \<open>2 ^ 64 - 1\<close>, and so is the recorded
  maximum.
\<close>
theorem disruptor_empty_unreliable:
  "let early = [CallPublish 0 (7 :: nat)] @ replicate 5 (ProducerStep 0 False) @ publish_acts 1 8;
       late = replicate 2 (ProducerStep 0 False);
       s = run_ring (early @ late @ replicate 4 ConsumerStep) (ring_init 4 0);
       t = run_ring (early @ replicate 8 ConsumerStep @ late) (ring_init 4 0)
   in (producers s 0, producers s 1, consumer s) = (ProducerIdle, ProducerIdle, ConsumerIdle) \<and>
      ring_empty s \<and> consumed s = [7] \<and> fst (try_acquire_lease s) = Some 1 \<and>
      (producers t 0, producers t 1, consumer t) = (ProducerIdle, ProducerIdle, ConsumerIdle) \<and>
      \<not> ring_empty t \<and> consumed t = [7, 8] \<and> fst (try_acquire_lease t) = None \<and>
      published_depth t = 2 ^ 64 - 1 \<and> max_depth t = 2 ^ 64 - 1"
  by code_simp

end
