(* ===== verification/Actor_Execution.thy ===== *)
theory Actor_Execution
  imports Mailbox_Theorems
begin

text \<open>
  How the scheduler runs an event-based actor: its run state (\<open>actor/actor_state.hpp\<close>), the
  gate that admits it to a queue (\<open>sched/actor_ready_gate.cpp\<close>), the runner that handles one
  message (\<open>sched/actor_execution_engine.cpp\<close>) and the dispatch loop
  (\<open>sched/scheduler.cpp\<close>).

  The first sections model whole calls on the actor's mailbox of \<open>Actor_Mailbox\<close>. The actor's
  own behaviour is a parameter: \<open>receive\<close> gives the mailbox after the handler has run (the
  handler may send to its own actor). \<open>deadline\<close> reads a message's deadline. The last section
  splits the gate and the runner at their accesses to the run state and interleaves any number
  of workers and notifiers. The runner for C++ coroutines is not modelled.
\<close>

section \<open>The run state and the ready gate\<close>

datatype run_state = kIdle | kReady | kRunning | kIOWaiting | kTerminated | kOther u32

datatype ready_admission_code =
    AdmAccepted | AdmMissingActor | AdmAlreadyReady | AdmAlreadyRunning | AdmTerminated | AdmNotAdmissible

record exec_actor =
  run_st :: run_state
  registered :: bool
  event_based :: bool
  mbox :: "mailbox option"
  received :: "typed_message list"
  expired_letters :: "typed_message list"
  exit_calls :: nat

definition cas_state :: "run_state \<Rightarrow> run_state \<Rightarrow> exec_actor \<Rightarrow> bool \<times> exec_actor" where
  "cas_state expected desired a =
     (if run_st a = expected then (True, a \<lparr> run_st := desired \<rparr>) else (False, a))"

definition try_mark_ready :: "exec_actor \<Rightarrow> ready_admission_code \<times> exec_actor" where
  "try_mark_ready a =
     (if \<not> registered a then (AdmMissingActor, a)
      else if \<not> event_based a then (AdmAccepted, a)
      else (case run_st a of
              kIdle \<Rightarrow> (AdmAccepted, a \<lparr> run_st := kReady \<rparr>)
            | kIOWaiting \<Rightarrow> (AdmAccepted, a \<lparr> run_st := kReady \<rparr>)
            | kReady \<Rightarrow> (AdmAlreadyReady, a)
            | kRunning \<Rightarrow> (AdmAlreadyRunning, a)
            | kTerminated \<Rightarrow> (AdmTerminated, a)
            | kOther w \<Rightarrow> (AdmNotAdmissible, a)))"

definition mark_ready_already_admitted :: "exec_actor \<Rightarrow> ready_admission_code \<times> exec_actor" where
  "mark_ready_already_admitted a =
     (case run_st a of
        kRunning \<Rightarrow> (AdmAccepted, a \<lparr> run_st := kReady \<rparr>)
      | kIdle \<Rightarrow> (AdmAccepted, a \<lparr> run_st := kReady \<rparr>)
      | kIOWaiting \<Rightarrow> (AdmAccepted, a \<lparr> run_st := kReady \<rparr>)
      | kReady \<Rightarrow> (AdmAlreadyReady, a)
      | kTerminated \<Rightarrow> (AdmTerminated, a)
      | kOther w \<Rightarrow> (AdmNotAdmissible, a))"

section \<open>One run of the behaviour\<close>

datatype run_disposition = RSkipped | RSuspendedOrIdle | RRequeueReady | RTerminated

record run_result =
  disposition :: run_disposition
  requeue_priority :: u8
  requeue_deadline :: int

definition run_outcome :: "run_disposition \<Rightarrow> run_result" where
  "run_outcome d = \<lparr> disposition = d, requeue_priority = 0, requeue_deadline = INT64_MAX \<rparr>"

record work_item =
  work_actor :: actor_id
  work_deadline :: int
  work_sequence :: u64
  edf_scheduled :: bool

text \<open>
  The end of a run: the admission decides between requeueing and the alternative.
\<close>

definition requeue_or ::
    "run_disposition \<Rightarrow> ready_admission_code \<times> exec_actor \<Rightarrow> run_result \<times> exec_actor" where
  "requeue_or d r =
     (run_outcome (if fst r = AdmAccepted \<or> fst r = AdmAlreadyReady then RRequeueReady else d), snd r)"

definition has_messages :: "exec_actor \<Rightarrow> bool" where
  "has_messages a = (case mbox a of None \<Rightarrow> False | Some mb \<Rightarrow> \<not> mb_empty mb)"

definition handle_message ::
    "bool \<Rightarrow> (typed_message \<Rightarrow> int) \<Rightarrow> (typed_message \<Rightarrow> mailbox \<Rightarrow> mailbox) \<Rightarrow> u64 \<Rightarrow>
     typed_message \<Rightarrow> mailbox \<Rightarrow> exec_actor \<Rightarrow> exec_actor" where
  "handle_message dlq_enabled deadline receive now m mb a =
     (if is_expired (deadline m) now
      then a \<lparr> mbox := Some mb,
              expired_letters := expired_letters a @ (if dlq_enabled then [m] else []) \<rparr>
      else a \<lparr> mbox := Some (receive m mb), received := received a @ [m] \<rparr>)"

definition kRequeueBudget :: u64 where
  "kRequeueBudget = 64"

definition kLostWakeupRequeueBudget :: u64 where
  "kLostWakeupRequeueBudget = 1"

definition finish_run :: "bool \<Rightarrow> exec_actor \<Rightarrow> run_result \<times> exec_actor" where
  "finish_run budget_exhausted a =
     (if has_messages a \<and> \<not> budget_exhausted
      then requeue_or RSkipped (mark_ready_already_admitted a)
      else let a2 = a \<lparr> run_st := kIdle \<rparr>
        in if has_messages a2 then requeue_or RSuspendedOrIdle (try_mark_ready a2)
           else (run_outcome RSuspendedOrIdle, a2))"

definition run_behavior ::
    "bool \<Rightarrow> (typed_message \<Rightarrow> int) \<Rightarrow> (typed_message \<Rightarrow> mailbox \<Rightarrow> mailbox) \<Rightarrow> bool \<Rightarrow> u64 \<Rightarrow>
     work_item \<Rightarrow> exec_actor \<Rightarrow> run_result \<times> exec_actor" where
  "run_behavior dlq_enabled deadline receive workers_paused now item a0 =
     (case cas_state kReady kRunning a0 of
        (False, a) \<Rightarrow>
          if run_st a = kTerminated
          then (run_outcome RTerminated, a \<lparr> exit_calls := exit_calls a + 1 \<rparr>)
          else (run_outcome RSkipped, a)
      | (True, a) \<Rightarrow>
          (case mbox a of
             None \<Rightarrow> (run_outcome RSkipped, a \<lparr> run_st := kIdle \<rparr>)
           | Some mb \<Rightarrow>
               (case try_pop now mb of
                  (None, mb1) \<Rightarrow>
                    let a1 = a \<lparr> mbox := Some mb1, run_st := kIdle \<rparr>
                    in if has_messages a1 \<and> work_sequence item < kLostWakeupRequeueBudget
                       then requeue_or RSuspendedOrIdle (try_mark_ready a1)
                       else (run_outcome RSuspendedOrIdle, a1)
                | (Some m, mb1) \<Rightarrow>
                    let a1 = handle_message dlq_enabled deadline receive now m mb1 a;
                        budget_exhausted = (\<not> workers_paused \<and> work_sequence item \<ge> kRequeueBudget)
                    in finish_run budget_exhausted a1)))"

section \<open>Notification and dispatch\<close>

definition notify_ready :: "bool \<Rightarrow> actor_id \<Rightarrow> int \<Rightarrow> exec_actor \<Rightarrow> work_item option \<times> exec_actor" where
  "notify_ready running aid dl a =
     (if \<not> running then (None, a)
      else case try_mark_ready a of
             (AdmAccepted, a1) \<Rightarrow>
               (Some \<lparr> work_actor = aid, work_deadline = dl, work_sequence = 0, edf_scheduled = False \<rparr>, a1)
           | (_, a1) \<Rightarrow> (None, a1))"

definition yield_actor :: "bool \<Rightarrow> actor_id \<Rightarrow> exec_actor \<Rightarrow> work_item option \<times> exec_actor" where
  "yield_actor running aid a =
     (if \<not> running \<or> \<not> registered a \<or> \<not> event_based a then (None, a)
      else case mark_ready_already_admitted a of
             (AdmAccepted, a1) \<Rightarrow>
               (Some \<lparr> work_actor = aid, work_deadline = INT64_MAX, work_sequence = 0, edf_scheduled = False \<rparr>, a1)
           | (_, a1) \<Rightarrow> (None, a1))"

definition bump_sequence :: "u64 \<Rightarrow> u64" where
  "bump_sequence n = (if n + 1 \<le> 128 then n + 1 else 0)"

fun run_batch ::
    "nat \<Rightarrow> (work_item \<Rightarrow> 'a \<Rightarrow> run_result \<times> 'a) \<Rightarrow> work_item \<Rightarrow> run_result \<Rightarrow> 'a \<Rightarrow>
     work_item \<times> run_result \<times> 'a" where
  "run_batch 0 run_one cur r a = (cur, r, a)"
| "run_batch (Suc n) run_one cur r a =
     (if disposition r = RRequeueReady
      then let cur1 = cur \<lparr> work_sequence := bump_sequence (work_sequence cur),
                            work_deadline := requeue_deadline r \<rparr>;
               (r1, a1) = run_one cur1 a
           in run_batch n run_one cur1 r1 a1
      else (cur, r, a))"

definition kBatchLimit :: nat where
  "kBatchLimit = 63"

definition execute_actor ::
    "(work_item \<Rightarrow> 'a \<Rightarrow> run_result \<times> 'a) \<Rightarrow> bool \<Rightarrow> work_item \<Rightarrow> 'a \<Rightarrow> (work_item \<times> u8) option \<times> 'a" where
  "execute_actor run_one workers_paused item a0 =
     (let (r0, a1) = run_one item a0;
          (cur, r, a) = (if \<not> workers_paused then run_batch kBatchLimit run_one item r0 a1
                         else (item, r0, a1))
      in if disposition r = RRequeueReady
         then (Some (cur \<lparr> work_sequence := (if \<not> workers_paused then 0 else bump_sequence (work_sequence cur)),
                           work_deadline := requeue_deadline r \<rparr>, requeue_priority r), a)
         else (None, a))"

section \<open>Dispatch without interference\<close>

lemma notify_limiter [simp]: "limiter (notify n mb) = limiter mb"
  by (simp add: notify_def)

lemma wake_consumer_limiter [simp]: "limiter (wake_consumer meta mb) = limiter mb"
  by (auto simp: wake_consumer_def Let_def)

lemma enqueue_reserved_limiter: "limiter (enqueue_reserved m meta l d mb) = limiter mb"
  by (simp add: enqueue_reserved_def Let_def)

lemma drain_overflow_limiter: "limiter (drain_overflow mb) = limiter mb"
proof (induction mb rule: drain_overflow.induct)
  case (1 mb)
  show ?case
    by (subst drain_overflow.simps)
       (auto simp: Let_def 1 enqueue_reserved_limiter split: prod.splits option.splits)
qed

lemma finish_dequeue_limiter: "limiter (finish_dequeue node mb) = limiter mb"
  by (cases node) (simp_all add: finish_dequeue_def settle_node_def drain_overflow_limiter Let_def)

lemma try_pop_limiter:
  assumes "limiter mb = None"
  shows "limiter (snd (try_pop now mb)) = None"
proof -
  obtain node L where d: "ml_dequeue lane_deq (lanes mb) = (node, L)" by (rule prod.exhaust)
  have "dequeue now mb = (node, finish_dequeue node (mb\<lparr>was_empty := True, lanes := L\<rparr>))"
    using assms d by (simp add: dequeue_def rate_limited_simps)
  then show ?thesis
    using assms by (cases node) (simp_all add: try_pop_def finish_dequeue_limiter)
qed

lemma try_pop_none_empty:
  assumes "mb_reachable mb" and "limiter mb = None" and "try_pop now mb = (None, mb')"
  shows "mb_empty mb'"
proof -
  have inv: "mb_inv mb" and ok: "lanes_ok (lanes mb)"
    using mb_reachable_inv [OF assms(1)] by (simp_all add: mb_inv_def mb_core_def)
  have d: "dequeue now mb = (None, mb')"
    using assms(3) by (auto simp: try_pop_def split: prod.splits option.splits)
  from ok show ?thesis
  proof (cases rule: ml_dequeue_cases)
    case none
    then have "mb_empty (mb\<lparr>was_empty := True\<rparr>)" using mb_empty_iff [OF ok] by (simp add: mb_empty_def)
    moreover have "mb' = finish_dequeue None (mb\<lparr>was_empty := True\<rparr>)"
      using d none by (simp add: dequeue_def rate_limited_simps Let_def)
    ultimately show ?thesis by (simp add: finish_dequeue_def mb_empty_def)
  next
    case (sys m ms)
    then show ?thesis using d assms(2) by (simp add: dequeue_def rate_limited_simps Let_def)
  next
    case (user i m ms)
    then show ?thesis using d assms(2) by (simp add: dequeue_def rate_limited_simps Let_def)
  qed
qed

definition open_mailbox :: "exec_actor \<Rightarrow> bool" where
  "open_mailbox a \<longleftrightarrow> registered a \<and> event_based a \<and>
     (\<exists>mb. mbox a = Some mb \<and> mb_reachable mb \<and> limiter mb = None)"

text \<open>
  What is assumed of a behaviour: its handler leaves the mailbox in a state that the mailbox's
  own operations can produce, and does not attach a rate limiter.
\<close>

definition handler_ok :: "(typed_message \<Rightarrow> mailbox \<Rightarrow> mailbox) \<Rightarrow> bool" where
  "handler_ok receive \<longleftrightarrow> (\<forall>m mb. mb_reachable mb \<and> limiter mb = None \<longrightarrow>
     mb_reachable (receive m mb) \<and> limiter (receive m mb) = None)"

lemma handle_message_frame:
  assumes "open_mailbox a" and "mbox a = Some mb" and "try_pop now mb = (Some m, mb1)"
    and "handler_ok receive"
  shows "open_mailbox (handle_message dlq deadline receive now m mb1 a)"
    and "run_st (handle_message dlq deadline receive now m mb1 a) = run_st a"
    and "length (received (handle_message dlq deadline receive now m mb1 a)) \<le> Suc (length (received a))"
    and "registered (handle_message dlq deadline receive now m mb1 a) = registered a"
    and "event_based (handle_message dlq deadline receive now m mb1 a) = event_based a"
proof -
  have "mb_reachable mb1" "limiter mb1 = None"
    using assms(1,2,3) mb_reachable.popped [of mb now] try_pop_limiter [of mb now]
    by (auto simp: open_mailbox_def)
  then show "open_mailbox (handle_message dlq deadline receive now m mb1 a)"
    using assms(1,4) by (simp add: open_mailbox_def handle_message_def handler_ok_def)
qed (simp_all add: handle_message_def)

lemma open_mailbox_update [simp]:
  "open_mailbox (a \<lparr> run_st := st \<rparr>) = open_mailbox a"
  "has_messages (a \<lparr> run_st := st \<rparr>) = has_messages a"
  by (simp_all add: open_mailbox_def has_messages_def)

text \<open>
  One run of a ready actor ends in one of two ways: it is ready again and has messages, or it
  is idle and its mailbox is empty.
\<close>

definition run_complete :: "run_result \<times> exec_actor \<Rightarrow> bool" where
  "run_complete r \<longleftrightarrow> open_mailbox (snd r) \<and>
     (disposition (fst r) = RRequeueReady \<and> run_st (snd r) = kReady \<and> has_messages (snd r) \<or>
      disposition (fst r) = RSuspendedOrIdle \<and> run_st (snd r) = kIdle \<and> \<not> has_messages (snd r))"

lemma finish_run_complete:
  assumes "open_mailbox a" and "run_st a = kRunning"
  shows "run_complete (finish_run exhausted a)" and "received (snd (finish_run exhausted a)) = received a"
  using assms
  by (auto simp: finish_run_def run_complete_def requeue_or_def run_outcome_def
      mark_ready_already_admitted_def try_mark_ready_def open_mailbox_def Let_def)

lemma run_behavior_complete:
  assumes open_mb: "open_mailbox a" and ready: "run_st a = kReady" and ok: "handler_ok receive"
  shows "run_complete (run_behavior dlq deadline receive paused now item a)"
    and "length (received (snd (run_behavior dlq deadline receive paused now item a))) \<le>
           Suc (length (received a))"
proof -
  let ?a = "a \<lparr> run_st := kRunning \<rparr>"
  obtain mb where mb: "mbox a = Some mb" "mb_reachable mb" "limiter mb = None"
    using open_mb by (auto simp: open_mailbox_def)
  obtain r mb1 where pop: "try_pop now mb = (r, mb1)" by (rule prod.exhaust)
  have cas: "cas_state kReady kRunning a = (True, ?a)" using ready by (simp add: cas_state_def)
  have "run_complete (run_behavior dlq deadline receive paused now item a) \<and>
    length (received (snd (run_behavior dlq deadline receive paused now item a))) \<le>
      Suc (length (received a))"
  proof (cases r)
    case None
    then have "mb_empty mb1" "mb_reachable mb1" "limiter mb1 = None"
      using try_pop_none_empty [OF mb(2,3)] pop mb_reachable.popped [OF mb(2), of now]
        try_pop_limiter [OF mb(3), of now] by auto
    then show ?thesis
      using None pop mb(1) open_mb
      by (simp add: run_behavior_def cas has_messages_def run_complete_def run_outcome_def
          open_mailbox_def Let_def)
  next
    case (Some m)
    let ?h = "handle_message dlq deadline receive now m mb1 ?a"
    note h = handle_message_frame [of ?a mb now m mb1 receive dlq deadline]
    have "open_mailbox ?h" "run_st ?h = kRunning" "length (received ?h) \<le> Suc (length (received a))"
      using h open_mb mb(1) pop Some ok by simp_all
    moreover have "run_behavior dlq deadline receive paused now item a =
        finish_run (\<not> paused \<and> work_sequence item \<ge> kRequeueBudget) ?h"
      using mb(1) pop Some by (simp add: run_behavior_def finish_run_def cas Let_def)
    ultimately show ?thesis using finish_run_complete [of ?h] by simp
  qed
  then show "run_complete (run_behavior dlq deadline receive paused now item a)"
    "length (received (snd (run_behavior dlq deadline receive paused now item a))) \<le>
       Suc (length (received a))" by simp_all
qed

lemma run_batch_complete:
  assumes "run_complete (r, a)" and ok: "handler_ok receive"
  shows "run_complete (snd (run_batch n (run_behavior dlq deadline receive paused now) cur r a)) \<and>
    length (received (snd (snd (run_batch n (run_behavior dlq deadline receive paused now) cur r a))))
      \<le> length (received a) + n"
  using assms(1)
proof (induction n arbitrary: cur r a)
  case 0
  then show ?case by simp
next
  case (Suc n)
  define cur1 where "cur1 = cur \<lparr> work_sequence := bump_sequence (work_sequence cur),
                                  work_deadline := requeue_deadline r \<rparr>"
  obtain r1 a1 where run: "run_behavior dlq deadline receive paused now cur1 a = (r1, a1)"
    by (rule prod.exhaust)
  have step: "run_complete (r1, a1)" "length (received a1) \<le> Suc (length (received a))"
    if "disposition r = RRequeueReady"
    using run_behavior_complete [of a receive dlq deadline paused now cur1] that ok run Suc.prems
    by (auto simp: run_complete_def)
  have unfold: "run_batch (Suc n) (run_behavior dlq deadline receive paused now) cur r a =
      (if disposition r = RRequeueReady
       then run_batch n (run_behavior dlq deadline receive paused now) cur1 r1 a1 else (cur, r, a))"
    using run by (simp add: cur1_def Let_def)
  show ?case
    using step Suc.IH [of r1 a1 cur1] Suc.prems unfolding unfold by fastforce
qed

text \<open>
  C6. A dispatch strands no message. Whatever the work item's counters, dispatching a ready
  actor that has no rate limiter, with any handler that keeps the mailbox well formed, handles
  at most 64 messages and ends in one of two ways: a new work item is queued, the actor is
  ready and its mailbox has messages; or no item is queued, the actor is idle and its mailbox
  is empty.
\<close>
theorem dispatch_strands_no_message:
  assumes "open_mailbox a" and "run_st a = kReady" and "handler_ok receive"
  shows "let (next_item, a') = execute_actor (run_behavior dlq deadline receive paused now) paused item a
         in (case next_item of
               Some i \<Rightarrow> run_st a' = kReady \<and> has_messages a'
             | None \<Rightarrow> run_st a' = kIdle \<and> \<not> has_messages a') \<and>
            length (received a') \<le> length (received a) + 64"
proof -
  obtain r0 a1 where r0: "run_behavior dlq deadline receive paused now item a = (r0, a1)"
    by (rule prod.exhaust)
  have first: "run_complete (r0, a1)" "length (received a1) \<le> Suc (length (received a))"
    using run_behavior_complete [OF assms, of dlq deadline paused now item] r0 by simp_all
  obtain cur r a' where rest: "(if \<not> paused
      then run_batch kBatchLimit (run_behavior dlq deadline receive paused now) item r0 a1
      else (item, r0, a1)) = (cur, r, a')"
    by (metis prod.exhaust)
  have "run_complete (r, a')" "length (received a') \<le> length (received a1) + kBatchLimit"
    using run_batch_complete [OF first(1) assms(3), of kBatchLimit dlq deadline paused now item]
      rest first(1) by (auto split: if_splits)
  then show ?thesis
    using first(2) r0 rest
    by (auto simp: execute_actor_def run_complete_def kBatchLimit_def)
qed

definition exec_demo :: exec_actor where
  "exec_demo = \<lparr> run_st = kReady, registered = True, event_based = True, mbox = Some demo_mailbox,
     received = [], expired_letters = [], exit_calls = 0 \<rparr>"

definition demo_item :: work_item where
  "demo_item = \<lparr> work_actor = 7, work_deadline = INT64_MAX, work_sequence = 0, edf_scheduled = False \<rparr>"

theorem dispatch_strands_no_message_witness:
  "open_mailbox exec_demo \<and> run_st exec_demo = kReady \<and> handler_ok (\<lambda>m mb. mb) \<and>
   length (received (snd (execute_actor
     (run_behavior True (\<lambda>m. INT64_MAX) (\<lambda>m mb. mb) False 7) False demo_item exec_demo))) \<le> 64"
proof -
  have "open_mailbox exec_demo" "run_st exec_demo = kReady" "handler_ok (\<lambda>m mb. mb)"
    using demo_mailbox_reachable
    by (simp_all add: open_mailbox_def exec_demo_def handler_ok_def demo_mailbox_def mailbox_init_def)
  then show ?thesis
    using dispatch_strands_no_message [of exec_demo "\<lambda>m mb. mb" True "\<lambda>m. INT64_MAX" False 7 demo_item]
    by (auto simp: exec_demo_def split: prod.splits)
qed

text \<open>
  The guard against spinning on a rate-limited mailbox is the item's requeue counter, which
  also counts ordinary requeues: once an actor has handled a message in this dispatch, a pop
  that returns nothing, for whatever reason, leaves it idle with messages in its mailbox and
  without a work item.
\<close>
theorem failed_pop_after_requeue_strands:
  assumes "run_st a = kReady" and "mbox a = Some mb" and "try_pop now mb = (None, mb1)"
    and "\<not> mb_empty mb1" and "1 \<le> work_sequence item"
  shows "let (r, a') = run_behavior dlq deadline receive paused now item a
         in disposition r = RSuspendedOrIdle \<and> run_st a' = kIdle \<and> has_messages a'"
proof -
  have "\<not> work_sequence item < kLostWakeupRequeueBudget"
    using assms(5) by (simp only: kLostWakeupRequeueBudget_def not_less)
  then show ?thesis
    using assms by (simp add: run_behavior_def cas_state_def run_outcome_def has_messages_def Let_def)
qed

section \<open>Workers and notifiers, interleaved\<close>

text \<open>
  The same code for one actor, split at the accesses to its run state. A worker that holds a
  work item tries the exchange from ready to running (\<open>WHolding\<close>); inside, it handles a
  message and then marks the actor ready (\<open>WMark\<close>, \<open>WMarkLoaded\<close>) or stores idle and looks
  at the mailbox again (\<open>WIdled\<close>, \<open>WTry\<close>, \<open>WTryLoaded\<close>); \<open>WRequeue\<close> has decided to requeue,
  which means another turn of the dispatch loop or a queued item. A notifier is a call of
  \<open>notify_ready\<close>. What the mailbox answers is the schedule's choice, so the results hold for
  every mailbox.
\<close>

datatype worker_pc =
    WFree
  | WHolding
  | WInside
  | WMark
  | WMarkLoaded run_state
  | WIdled
  | WTry
  | WTryLoaded run_state
  | WRequeue

datatype notifier_pc = NFree | NLoad | NLoaded run_state | NEnqueue

record gate_sys =
  gst :: run_state
  queued_items :: nat
  workers :: "nat \<Rightarrow> worker_pc"
  notifiers :: "nat \<Rightarrow> notifier_pc"

datatype worker_choice = MoreWork | NoMoreWork | NoMailbox

definition set_worker :: "nat \<Rightarrow> worker_pc \<Rightarrow> gate_sys \<Rightarrow> gate_sys" where
  "set_worker i pc s = s \<lparr> workers := (workers s)(i := pc) \<rparr>"

definition set_notifier :: "nat \<Rightarrow> notifier_pc \<Rightarrow> gate_sys \<Rightarrow> gate_sys" where
  "set_notifier i pc s = s \<lparr> notifiers := (notifiers s)(i := pc) \<rparr>"

definition worker_step :: "nat \<Rightarrow> worker_choice \<Rightarrow> gate_sys \<Rightarrow> gate_sys" where
  "worker_step i c s = (case workers s i of
     WFree \<Rightarrow> (if queued_items s > 0
               then set_worker i WHolding (s \<lparr> queued_items := queued_items s - 1 \<rparr>) else s)
   | WHolding \<Rightarrow> (if gst s = kReady then set_worker i WInside (s \<lparr> gst := kRunning \<rparr>)
                  else set_worker i WFree s)
   | WInside \<Rightarrow> (case c of
                   MoreWork \<Rightarrow> set_worker i WMark s
                 | NoMoreWork \<Rightarrow> set_worker i WIdled (s \<lparr> gst := kIdle \<rparr>)
                 | NoMailbox \<Rightarrow> set_worker i WFree (s \<lparr> gst := kIdle \<rparr>))
   | WMark \<Rightarrow> set_worker i (WMarkLoaded (gst s)) s
   | WMarkLoaded cur \<Rightarrow>
       (if cur = kRunning \<or> cur = kIdle \<or> cur = kIOWaiting
        then (if gst s = cur then set_worker i WRequeue (s \<lparr> gst := kReady \<rparr>) else set_worker i WMark s)
        else set_worker i (if cur = kReady then WRequeue else WFree) s)
   | WIdled \<Rightarrow> set_worker i (if c = MoreWork then WTry else WFree) s
   | WTry \<Rightarrow> set_worker i (WTryLoaded (gst s)) s
   | WTryLoaded cur \<Rightarrow>
       (if cur = kIdle \<or> cur = kIOWaiting
        then (if gst s = cur then set_worker i WRequeue (s \<lparr> gst := kReady \<rparr>) else set_worker i WTry s)
        else set_worker i (if cur = kReady then WRequeue else WFree) s)
   | WRequeue \<Rightarrow> (if c = MoreWork then set_worker i WHolding s
                  else set_worker i WFree (s \<lparr> queued_items := queued_items s + 1 \<rparr>)))"

definition notifier_step :: "nat \<Rightarrow> gate_sys \<Rightarrow> gate_sys" where
  "notifier_step i s = (case notifiers s i of
     NFree \<Rightarrow> set_notifier i NLoad s
   | NLoad \<Rightarrow> set_notifier i (NLoaded (gst s)) s
   | NLoaded cur \<Rightarrow>
       (if cur = kIdle \<or> cur = kIOWaiting
        then (if gst s = cur then set_notifier i NEnqueue (s \<lparr> gst := kReady \<rparr>)
              else set_notifier i NLoad s)
        else set_notifier i NFree s)
   | NEnqueue \<Rightarrow> set_notifier i NFree (s \<lparr> queued_items := queued_items s + 1 \<rparr>))"

datatype gate_act = WorkerAct nat worker_choice | NotifierAct nat

fun ready_gate_step :: "gate_act \<Rightarrow> gate_sys \<Rightarrow> gate_sys" where
  "ready_gate_step (WorkerAct i c) s = worker_step i c s"
| "ready_gate_step (NotifierAct i) s = notifier_step i s"

definition ready_gate_init :: gate_sys where
  "ready_gate_init = \<lparr> gst = kIdle, queued_items = 0, workers = (\<lambda>_. WFree), notifiers = (\<lambda>_. NFree) \<rparr>"

fun inside :: "worker_pc \<Rightarrow> bool" where
  "inside WInside = True"
| "inside WMark = True"
| "inside (WMarkLoaded cur) = True"
| "inside _ = False"

definition has_token :: "gate_sys \<Rightarrow> bool" where
  "has_token s \<longleftrightarrow> queued_items s > 0 \<or> (\<exists>i. workers s i = WHolding \<or> workers s i = WRequeue) \<or>
     (\<exists>i. notifiers s i = NEnqueue)"

definition ready_gate_inv :: "gate_sys \<Rightarrow> bool" where
  "ready_gate_inv s \<longleftrightarrow>
     (\<forall>i j. inside (workers s i) \<longrightarrow> inside (workers s j) \<longrightarrow> i = j) \<and>
     (\<forall>i. inside (workers s i) \<longrightarrow> gst s = kRunning) \<and>
     (gst s = kRunning \<longrightarrow> (\<exists>i. inside (workers s i))) \<and>
     (\<forall>i cur. workers s i = WMarkLoaded cur \<longrightarrow> cur = kRunning) \<and>
     (gst s = kReady \<longrightarrow> has_token s)"

lemma set_worker_fields [simp]:
  "gst (set_worker i pc s) = gst s" "queued_items (set_worker i pc s) = queued_items s"
  "workers (set_worker i pc s) = (workers s)(i := pc)" "notifiers (set_worker i pc s) = notifiers s"
  by (simp_all add: set_worker_def)

lemma set_notifier_fields [simp]:
  "gst (set_notifier i pc s) = gst s" "queued_items (set_notifier i pc s) = queued_items s"
  "workers (set_notifier i pc s) = workers s" "notifiers (set_notifier i pc s) = (notifiers s)(i := pc)"
  by (simp_all add: set_notifier_def)

lemma token_workers:
  assumes "has_token s" and "queued_items s' = queued_items s" and "notifiers s' = notifiers s"
    and "workers s' = (workers s)(i := pc)" and "workers s i \<noteq> WHolding" and "workers s i \<noteq> WRequeue"
  shows "has_token s'"
proof -
  have "workers s' j = workers s j" if "workers s j = WHolding \<or> workers s j = WRequeue" for j
    using that assms(4-6) by auto
  then show ?thesis using assms(1-3) unfolding has_token_def by metis
qed

lemma token_notifiers:
  assumes "has_token s" and "queued_items s' = queued_items s" and "workers s' = workers s"
    and "notifiers s' = (notifiers s)(i := pc)" and "notifiers s i \<noteq> NEnqueue"
  shows "has_token s'"
proof -
  have "notifiers s' j = NEnqueue" if "notifiers s j = NEnqueue" for j using that assms(4,5) by auto
  then show ?thesis using assms(1-3) unfolding has_token_def by metis
qed

lemma ready_gate_invI:
  assumes "\<And>i j. inside (workers s i) \<Longrightarrow> inside (workers s j) \<Longrightarrow> i = j"
    and "\<And>i. inside (workers s i) \<Longrightarrow> gst s = kRunning"
    and "gst s = kRunning \<Longrightarrow> \<exists>i. inside (workers s i)"
    and "\<And>i cur. workers s i = WMarkLoaded cur \<Longrightarrow> cur = kRunning"
    and "gst s = kReady \<Longrightarrow> has_token s"
  shows "ready_gate_inv s"
  unfolding ready_gate_inv_def using assms by blast

lemma ready_gate_invD:
  assumes "ready_gate_inv s"
  shows "inside (workers s i) \<Longrightarrow> inside (workers s j) \<Longrightarrow> i = j"
    "inside (workers s i) \<Longrightarrow> gst s = kRunning" "gst s = kRunning \<Longrightarrow> \<exists>i. inside (workers s i)"
    "workers s i = WMarkLoaded cur \<Longrightarrow> cur = kRunning" "gst s = kReady \<Longrightarrow> has_token s"
  using assms unfolding ready_gate_inv_def by blast+

lemma worker_change:
  assumes inv: "ready_gate_inv s" and w: "workers s' = (workers s)(i := pc)"
    and enter: "inside pc \<Longrightarrow> gst s' = kRunning \<and> (\<forall>j. inside (workers s j) \<longrightarrow> j = i)"
    and others: "\<not> inside pc \<Longrightarrow> gst s' = kRunning \<longleftrightarrow> (\<exists>j. j \<noteq> i \<and> inside (workers s j))"
    and loaded: "\<And>cur. pc = WMarkLoaded cur \<Longrightarrow> cur = kRunning"
    and token: "gst s' = kReady \<Longrightarrow> has_token s'"
  shows "ready_gate_inv s'"
proof (rule ready_gate_invI)
  show "a = b" if "inside (workers s' a)" "inside (workers s' b)" for a b
    using that enter ready_gate_invD(1) [OF inv, of a b] by (auto simp: w split: if_splits)
  show "gst s' = kRunning" if "inside (workers s' a)" for a
    using that enter others by (cases "inside pc") (auto simp: w split: if_splits)
  show "\<exists>a. inside (workers s' a)" if run: "gst s' = kRunning"
  proof (cases "inside pc")
    case True
    then show ?thesis by (auto simp: w)
  next
    case False
    then obtain j where "j \<noteq> i" "inside (workers s j)" using others run by blast
    then show ?thesis by (intro exI [of _ j]) (simp add: w)
  qed
  show "cur = kRunning" if "workers s' a = WMarkLoaded cur" for a cur
    using that loaded ready_gate_invD(4) [OF inv, of a cur] by (auto simp: w split: if_splits)
qed (rule token)

lemma outside_others:
  assumes "ready_gate_inv s" and "\<not> inside (workers s i)"
  shows "gst s = kRunning \<longleftrightarrow> (\<exists>j. j \<noteq> i \<and> inside (workers s j))"
  using ready_gate_invD(2,3) [OF assms(1)] assms(2) by metis

lemma inside_alone:
  assumes "ready_gate_inv s" and "inside (workers s i)"
  shows "inside (workers s j) \<longleftrightarrow> j = i"
  using ready_gate_invD(1) [OF assms(1)] assms(2) by metis

lemma worker_step_inv:
  assumes inv: "ready_gate_inv s"
  shows "ready_gate_inv (worker_step i c s)"
proof (cases "workers s i")
  case WFree
  have "has_token s \<Longrightarrow> has_token (worker_step i c s)"
    by (auto simp: worker_step_def WFree has_token_def intro: exI [of _ i])
  then show ?thesis
    using ready_gate_invD(5) [OF inv] outside_others [OF inv, of i] WFree
    by (cases "queued_items s > 0")
       (auto simp: worker_step_def inv intro!: worker_change [OF inv, of _ i WHolding])
next
  case WHolding
  show ?thesis
  proof (cases "gst s = kReady")
    case True
    then have "\<not> inside (workers s j)" for j using ready_gate_invD(2) [OF inv, of j] by auto
    then show ?thesis
      by (intro worker_change [OF inv, of _ i WInside]) (simp_all add: worker_step_def WHolding True)
  next
    case False
    then show ?thesis using outside_others [OF inv, of i] WHolding
      by (intro worker_change [OF inv, of _ i WFree]) (simp_all add: worker_step_def)
  qed
next
  case WInside
  have run: "gst s = kRunning" using ready_gate_invD(2) [OF inv, of i] WInside by simp
  have alone: "inside (workers s j) \<longleftrightarrow> j = i" for j by (rule inside_alone [OF inv]) (simp add: WInside)
  show ?thesis
  proof (cases c)
    case MoreWork
    show ?thesis
      by (rule worker_change [OF inv, of _ i WMark])
         (simp_all add: worker_step_def WInside MoreWork alone run)
  next
    case NoMoreWork
    show ?thesis
      by (rule worker_change [OF inv, of _ i WIdled])
         (simp_all add: worker_step_def WInside NoMoreWork alone)
  next
    case NoMailbox
    show ?thesis
      by (rule worker_change [OF inv, of _ i WFree])
         (simp_all add: worker_step_def WInside NoMailbox alone)
  qed
next
  case WMark
  have run: "gst s = kRunning" using ready_gate_invD(2) [OF inv, of i] WMark by simp
  have alone: "inside (workers s j) \<longleftrightarrow> j = i" for j by (rule inside_alone [OF inv]) (simp add: WMark)
  show ?thesis
    by (rule worker_change [OF inv, of _ i "WMarkLoaded kRunning"])
       (simp_all add: worker_step_def WMark alone run)
next
  case (WMarkLoaded cur)
  have run: "gst s = kRunning" using ready_gate_invD(2) [OF inv, of i] WMarkLoaded by simp
  have cur: "cur = kRunning" using ready_gate_invD(4) [OF inv WMarkLoaded] .
  have alone: "inside (workers s j) \<longleftrightarrow> j = i" for j
    by (rule inside_alone [OF inv]) (simp add: WMarkLoaded)
  show ?thesis
    by (rule worker_change [OF inv, of _ i WRequeue])
       (auto simp: worker_step_def WMarkLoaded cur alone run has_token_def)
next
  case WIdled
  have "gst s = kReady \<Longrightarrow> has_token (worker_step i c s)"
    using ready_gate_invD(5) [OF inv] by (auto simp: worker_step_def WIdled intro: token_workers [of s])
  then show ?thesis using outside_others [OF inv, of i] WIdled
    by (intro worker_change [OF inv, of _ i "if c = MoreWork then WTry else WFree"])
       (simp_all add: worker_step_def split: if_splits)
next
  case WTry
  have "gst s = kReady \<Longrightarrow> has_token (worker_step i c s)"
    using ready_gate_invD(5) [OF inv] by (auto simp: worker_step_def WTry intro: token_workers [of s])
  then show ?thesis using outside_others [OF inv, of i] WTry
    by (intro worker_change [OF inv, of _ i "WTryLoaded (gst s)"]) (simp_all add: worker_step_def)
next
  case (WTryLoaded cur)
  show ?thesis
  proof (cases "(cur = kIdle \<or> cur = kIOWaiting) \<and> gst s = cur")
    case True
    then have "\<not> inside (workers s j)" for j using ready_gate_invD(2) [OF inv, of j] by auto
    then show ?thesis using True
      by (intro worker_change [OF inv, of _ i WRequeue])
         (auto simp: worker_step_def WTryLoaded has_token_def)
  next
    case False
    define pc where "pc = (if cur = kIdle \<or> cur = kIOWaiting then WTry
                           else if cur = kReady then WRequeue else WFree)"
    have eq: "worker_step i c s = set_worker i pc s"
      using False by (auto simp: worker_step_def WTryLoaded pc_def)
    have "gst s = kReady \<Longrightarrow> has_token (set_worker i pc s)"
      using ready_gate_invD(5) [OF inv] WTryLoaded by (auto intro: token_workers [of s])
    then show ?thesis using outside_others [OF inv, of i] WTryLoaded unfolding eq
      by (intro worker_change [OF inv, of _ i pc]) (simp_all add: pc_def split: if_splits)
  qed
next
  case WRequeue
  show ?thesis
  proof (cases "c = MoreWork")
    case True
    then show ?thesis using outside_others [OF inv, of i] WRequeue
      by (intro worker_change [OF inv, of _ i WHolding]) (auto simp: worker_step_def has_token_def)
  next
    case False
    then show ?thesis using outside_others [OF inv, of i] WRequeue
      by (intro worker_change [OF inv, of _ i WFree]) (auto simp: worker_step_def has_token_def)
  qed
qed

lemma notifier_change:
  assumes inv: "ready_gate_inv s" and w: "workers s' = workers s"
    and run: "gst s' = kRunning \<longleftrightarrow> gst s = kRunning"
    and token: "gst s' = kReady \<Longrightarrow> has_token s'"
  shows "ready_gate_inv s'"
  by (rule ready_gate_invI) (unfold w run, (use ready_gate_invD [OF inv] token in blast)+)

lemma notifier_step_inv:
  assumes inv: "ready_gate_inv s"
  shows "ready_gate_inv (notifier_step i s)"
proof -
  note ready = ready_gate_invD(5) [OF inv]
  show ?thesis
  proof (cases "notifiers s i")
    case NFree
    then have eq: "notifier_step i s = set_notifier i NLoad s" by (simp add: notifier_step_def)
    show ?thesis unfolding eq
      by (rule notifier_change [OF inv]) (use ready NFree in \<open>auto intro: token_notifiers [of s]\<close>)
  next
    case NLoad
    then have eq: "notifier_step i s = set_notifier i (NLoaded (gst s)) s" by (simp add: notifier_step_def)
    show ?thesis unfolding eq
      by (rule notifier_change [OF inv]) (use ready NLoad in \<open>auto intro: token_notifiers [of s]\<close>)
  next
    case (NLoaded cur)
    show ?thesis
    proof (cases "(cur = kIdle \<or> cur = kIOWaiting) \<and> gst s = cur")
      case True
      then show ?thesis
        by (intro notifier_change [OF inv]) (auto simp: notifier_step_def NLoaded has_token_def)
    next
      case False
      then have eq: "notifier_step i s =
          set_notifier i (if cur = kIdle \<or> cur = kIOWaiting then NLoad else NFree) s"
        by (auto simp: notifier_step_def NLoaded)
      show ?thesis unfolding eq
        by (rule notifier_change [OF inv]) (use ready NLoaded in \<open>auto intro: token_notifiers [of s]\<close>)
    qed
  next
    case NEnqueue
    then show ?thesis
      by (intro notifier_change [OF inv]) (simp_all add: notifier_step_def has_token_def)
  qed
qed

lemma ready_gate_run_inv: "ready_gate_inv s \<Longrightarrow> ready_gate_inv (fold ready_gate_step as s)"
proof (induction "as" arbitrary: s)
  case (Cons a as)
  then show ?case by (cases a) (simp_all add: worker_step_inv notifier_step_inv)
qed simp

text \<open>
  C5. An actor runs on at most one worker, and a ready actor is never forgotten. From the
  initial state, for every interleaving of any number of workers and notifiers: two workers
  that are between the exchange to running and the store that leaves it are the same worker;
  and whenever the run state is ready, a work item for the actor is queued, is held by a
  worker that will try the exchange, or is about to be queued.
\<close>
theorem actor_runs_on_one_worker:
  "let s = fold ready_gate_step as ready_gate_init
   in (inside (workers s i) \<and> inside (workers s j) \<longrightarrow> i = j) \<and>
      (inside (workers s i) \<longrightarrow> gst s = kRunning) \<and>
      (gst s = kReady \<longrightarrow> has_token s)"
proof -
  have "ready_gate_inv ready_gate_init"
    by (rule ready_gate_invI) (simp_all add: ready_gate_init_def)
  then have "ready_gate_inv (fold ready_gate_step as ready_gate_init)" by (rule ready_gate_run_inv)
  then show ?thesis using ready_gate_invD unfolding Let_def by metis
qed

theorem actor_runs_on_one_worker_witness:
  "let s = fold ready_gate_step
       ([NotifierAct 0, NotifierAct 0, NotifierAct 0, NotifierAct 0] @
        [WorkerAct 0 MoreWork, WorkerAct 0 MoreWork]) ready_gate_init
   in {j. inside (workers s j)} = {0} \<and> gst s = kRunning"
proof -
  let ?as = "[NotifierAct 0, NotifierAct 0, NotifierAct 0, NotifierAct 0] @
        [WorkerAct 0 MoreWork, WorkerAct 0 MoreWork]"
  have "inside (workers (fold ready_gate_step ?as ready_gate_init) 0)" by code_simp
  then show ?thesis using actor_runs_on_one_worker [of ?as _ 0] unfolding Let_def by blast
qed

text \<open>
  A worker that stores idle and then finds messages requeues also when a notifier has been
  faster, so one actor can have two work items at once. The exchange to running decides
  between their holders.
\<close>
theorem duplicate_work_items:
  "let s = fold ready_gate_step
       ([NotifierAct 0, NotifierAct 0, NotifierAct 0, NotifierAct 0] @
        replicate 2 (WorkerAct 0 MoreWork) @ [WorkerAct 0 NoMoreWork] @
        [NotifierAct 0, NotifierAct 0, NotifierAct 0, NotifierAct 0] @
        replicate 3 (WorkerAct 0 MoreWork) @ [WorkerAct 0 NoMoreWork]) ready_gate_init
   in queued_items s = 2 \<and> gst s = kReady"
  by code_simp

end
