(* ===== verification/Spec2Isabelle.thy ===== *)
theory Spec2Isabelle
  imports Mailbox_Hazards Gossip_Theorems Supervision Shutdown Connection_Pool Reliable_Delivery Cluster_Model Edf_Queue Calendar_Queue Wire_Frame Trace_Context Work_Stealing Disruptor_Ring Actor_Execution
begin

text \<open>
  HPActor is an actor framework in C++. This development models its concurrent data structures
  and protocols and proves what they guarantee, or exhibits the sequence of calls after which
  a guarantee fails. Paths below are relative to \<^verbatim>\<open>src/\<close> of the repository checkout, where headers
  are under \<^verbatim>\<open>include/hpactor/\<close> and implementations under \<^verbatim>\<open>src/\<close>.

  \<^bold>\<open>The program and its parts.\<close> An actor owns a mailbox. A sender's push passes admission
  policies, reserves capacity, is stored in one of several priority lanes or handed to an
  overflow handler, and wakes the actor when the mailbox was empty. The wake-up goes through a
  gate that moves the actor's run state from idle to ready and queues a work item on a worker;
  a worker marks the actor running, pops and handles messages, and either requeues the actor
  or leaves it idle. Timers feed the same path. Actors have a lifecycle, are watched by
  supervisors, and are stopped by a coordinated shutdown. Between nodes, frames are encoded
  and sent through connection pools with a circuit breaker and an outbound queue; reliable
  messages are tracked by the sender and deduplicated by the receiver; membership is
  maintained by gossip and interpreted by a failure model.

  \<^bold>\<open>Conventions.\<close> Structures are records, enumerations datatypes, unsigned integers words of
  their width, so arithmetic wraps as in the source; a size that only counts elements is a
  natural number, a \<^verbatim>\<open>double\<close> a real. Operations are total executable functions from state to
  state and result. A loop that may not end is a partial function with result \<open>None\<close>; the
  others are structural or have a termination proof. Fuel is not used: loops that the source
  bounds (the batch of 63 further runs in \<open>run_batch\<close>) carry that bound. Readings of a clock are arguments. Effects
  outside the program (messages sent, callbacks, logs that matter) are recorded in the state.
  Where threads race, the code is split at its atomic accesses and a schedule, a list of steps
  of any length over any number of threads, drives it under sequential consistency. Foreign
  code is a parameter: protobuf serialisation, socket address conversion, the iteration order
  of hash tables, user handlers. Sites of \<^verbatim>\<open>FAULT_INJECT\<close> are absent, as in a build without
  fault injection.

  \<^bold>\<open>Mailboxes.\<close>
  \<^item> \<open>Reservation\<close> (\<^verbatim>\<open>adt/reservation_manager.hpp\<close>): the budgets for messages and bytes; they are
    never exceeded, however the phases of concurrent calls interleave.
  \<^item> \<open>Mpsc_Queue\<close> (\<^verbatim>\<open>adt/mpsc_mailbox.hpp\<close>): the pointer queue of a lane. Whole calls implement a
    FIFO list; with producers interleaved a dequeue takes the oldest node or reports that a
    link is missing; two windows of the consumer against a producer lose nodes.
  \<^item> \<open>Multi_Lane\<close> (\<^verbatim>\<open>mailbox/multi_lane_queue.hpp\<close>): strict priority of the lanes, for any lane that
    satisfies the locale \<open>fifo_lane\<close>, interpreted by the pointer queue and by lists; deferred
    deallocation frees every node once.
  \<^item> \<open>Overflow_Queue\<close>, \<open>Rate_Limiter\<close>, \<open>Pressure\<close>, \<open>Admission\<close>, \<open>Overflow_Handlers\<close> (the headers of
    these names under \<^verbatim>\<open>mailbox/\<close> and \<^verbatim>\<open>mailbox/detail/\<close>): bounded spilling, the token bucket's
    bound, hysteresis, the chain of policies, and the contract \<open>overflow_handler\<close> that every
    handler satisfies.
  \<^item> \<open>Mailbox_Types\<close>, \<open>Mailbox_State\<close>, \<open>Actor_Mailbox\<close> (\<^verbatim>\<open>mailbox/mpsc_actor_mailbox.hpp\<close>): the
    mailbox. \<open>Mailbox_Theorems\<close> proves its invariant for every state its entry points reach,
    that a push is all or nothing, that a pop conserves messages and respects priority, and
    when the scheduler is notified. \<open>Mailbox_Hazards\<close> treats batches, spilled messages and
    reconfiguration.
  \<^item> \<open>Disruptor_Ring\<close> (\<^verbatim>\<open>adt/disruptor_mpsc_ring.hpp\<close>): the ring under fixed-slot mailboxes is a
    bounded FIFO queue under every interleaving; its emptiness test and its report of being
    full are not reliable.

  \<^bold>\<open>Scheduling and time.\<close>
  \<^item> \<open>Actor_Execution\<close> (\<^verbatim>\<open>actor/actor_state.hpp\<close>, \<^verbatim>\<open>sched/actor_ready_gate.cpp\<close>,
    \<^verbatim>\<open>sched/actor_execution_engine.cpp\<close>, \<^verbatim>\<open>sched/scheduler.cpp\<close>): an actor runs on one worker at a
    time, a ready actor always has a work item, and a dispatch over the mailbox of
    \<open>Actor_Mailbox\<close> either requeues the actor or leaves it idle with no message, when
    the mailbox has no rate limiter.
  \<^item> \<open>Work_Stealing\<close> (\<^verbatim>\<open>adt/chaselev_deque.hpp\<close>, \<^verbatim>\<open>adt/multi_priority_work_queue.hpp\<close>): the deque is
    linearizable; the priority queue serves the first non-empty level, by the locale \<open>taking\<close>,
    interpreted for popping and for stealing.
  \<^item> \<open>Edf_Queue\<close> (\<^verbatim>\<open>sched/edf_queue.cpp\<close>): a heap that satisfies \<open>deadline_queue\<close>.
  \<^item> \<open>Timing_Wheel\<close>, \<open>Calendar_Queue\<close> (\<^verbatim>\<open>timer/timing_wheel.cpp\<close>, \<^verbatim>\<open>timer/calendar_queue.cpp\<close>): the
    wheel fires exactly the due timers (\<open>timer_service\<close>); advancing the calendar queue may not
    return, and when it does it has fired only due timers.

  \<^bold>\<open>Actors.\<close>
  \<^item> \<open>Lifecycle\<close>, \<open>Supervision\<close>, \<open>Shutdown\<close> (\<^verbatim>\<open>actor/lifecycle/\<close>, \<^verbatim>\<open>supervision/\<close>): racing transitions
    stay in the state table; the restart budget is never refilled; a shutdown ends, whatever
    the other threads do (\<open>coordinator_frame\<close>), and runs the registered phases it reaches.

  \<^bold>\<open>Network and cluster.\<close>
  \<^item> \<open>Endpoint\<close>, \<open>Wire_Frame\<close>, \<open>Trace_Context\<close> (\<^verbatim>\<open>net/endpoint.cpp\<close>, \<^verbatim>\<open>msg/frame.cpp\<close>,
    \<^verbatim>\<open>msg/frame_protobuf.cpp\<close>, \<^verbatim>\<open>tracing/trace_context_parser.cpp\<close>): round trips of addresses,
    frames and trace headers, and what a decoder accepts.
  \<^item> \<open>Circuit_Breaker\<close>, \<open>Outbound_Queue\<close>, \<open>Connection_Pool\<close> (the files of these names under
    \<^verbatim>\<open>net/\<close>): tripping and cooling down, the limits of the lanes, conservation of frames.
  \<^item> \<open>Reliable_Delivery\<close> (\<^verbatim>\<open>mailbox/outbound_tracker.cpp\<close>, \<^verbatim>\<open>adt/dedup_cache.cpp\<close>): every tracked
    message is accounted for; the cache is bounded and reports only true duplicates.
  \<^item> \<open>Gossip_Types\<close>, \<open>Gossip\<close>, \<open>Gossip_Theorems\<close> (\<^verbatim>\<open>net/gossip_membership.cpp\<close>): incarnations never
    decrease, messages decode to what was encoded, a suspicion is not refuted.
  \<^item> \<open>Cluster_Model\<close> (\<^verbatim>\<open>cluster/cluster_failure_model.cpp\<close>): a node that is down stays down under
    its old identity; the quorum counts removed nodes.

  \<open>HPA_Prelude\<close> holds the names of the integer types and the lemmas on words and lists that the
  theories share.

  \<^bold>\<open>Bounds.\<close> A dispatch handles at most 64 messages: the first run and the 63 of the batch limit
  of the engine. The ring is treated for the capacities its template parameter admits, powers of two up to
  2 to the 20, and as long as fewer than 2 to the 64 slots have been claimed since its creation, the range of
  its sequence numbers. The deque starts at a power of two, which the source does not enforce.
  A shutdown ends under the assumption that the clock passes every deadline.

  \<^bold>\<open>Not modelled.\<close> Weak memory: interleavings are sequentially consistent, so a missing fence
  would not show. Rounding of floating-point numbers. The coroutine runner, the fixed-slot
  mailbox above its ring, worker threads and their parking, and the placement of work items
  on workers. The event loop, sockets, TLS and HTTP; files and durable stores; allocators;
  configuration, command line, logging, metrics, trace export and fault injection; the
  assembly of the runtime; routers, streams, receptionists, name directory, sharding,
  singletons and publish/subscribe. They are input and output, wrappers of foreign libraries,
  code around user types, or have not been reached yet.
\<close>

end
